(* ===== verification/Xd3_Prelude.thy ===== *)
theory Xd3_Prelude
  imports Main "HOL-Library.Word"
begin

text \<open>
  Names and facts shared by the whole development: the C integer types of the default build
  (both \<open>usize_t\<close> and \<open>xoff_t\<close> are 64 bits wide), the status codes of
  \<open>xdelta3.h\<close>, the early-return combinator used for every
  \<open>if ((ret = f (stream))) return ret;\<close> of the source, and lemmas on words and lists.
\<close>

unbundle bit_operations_syntax

section \<open>Types\<close>

type_synonym uint8 = "8 word"
type_synonym uint32 = "32 word"
type_synonym usize_t = "64 word"
type_synonym xoff_t = "64 word"

text \<open>
  The status codes of \<open>xd3_rvalues\<close>, the value 0 (\<open>XD3_OK\<close>), and the two system codes the
  library returns.  Two further values stand for behaviour the C code has no value for:
  \<open>C_UNDEFINED\<close> is an access outside an object (or through a null or dangling pointer), and
  \<open>C_DIVERGES\<close> is a loop that never leaves.
\<close>

datatype xd3_rvalue =
    XD3_OK
  | XD3_INPUT
  | XD3_OUTPUT
  | XD3_GETSRCBLK
  | XD3_GOTHEADER
  | XD3_WINSTART
  | XD3_WINFINISH
  | XD3_TOOFARBACK
  | XD3_INTERNAL
  | XD3_INVALID
  | XD3_INVALID_INPUT
  | XD3_NOSECOND
  | XD3_UNIMPLEMENTED
  | ENOMEM
  | ENOSPC
  | C_UNDEFINED
  | C_DIVERGES

fun xd3_strerror :: "xd3_rvalue \<Rightarrow> string option" where
  "xd3_strerror XD3_INPUT = Some ''XD3_INPUT''"
| "xd3_strerror XD3_OUTPUT = Some ''XD3_OUTPUT''"
| "xd3_strerror XD3_GETSRCBLK = Some ''XD3_GETSRCBLK''"
| "xd3_strerror XD3_GOTHEADER = Some ''XD3_GOTHEADER''"
| "xd3_strerror XD3_WINSTART = Some ''XD3_WINSTART''"
| "xd3_strerror XD3_WINFINISH = Some ''XD3_WINFINISH''"
| "xd3_strerror XD3_TOOFARBACK = Some ''XD3_TOOFARBACK''"
| "xd3_strerror XD3_INTERNAL = Some ''XD3_INTERNAL''"
| "xd3_strerror XD3_INVALID = Some ''XD3_INVALID''"
| "xd3_strerror XD3_INVALID_INPUT = Some ''XD3_INVALID_INPUT''"
| "xd3_strerror XD3_NOSECOND = Some ''XD3_NOSECOND''"
| "xd3_strerror XD3_UNIMPLEMENTED = Some ''XD3_UNIMPLEMENTED''"
| "xd3_strerror _ = None"

section \<open>Early return\<close>

definition xd3_try :: "xd3_rvalue \<times> 's \<Rightarrow> ('s \<Rightarrow> xd3_rvalue \<times> 's) \<Rightarrow> xd3_rvalue \<times> 's" where
  "xd3_try r f = (if fst r = XD3_OK then f (snd r) else r)"

lemma xd3_try_OK [simp]: "xd3_try (XD3_OK, s) f = f s"
  by (simp add: xd3_try_def)

lemma xd3_try_cong [fundef_cong]:
  "r = r' \<Longrightarrow> (\<And>s. r' = (XD3_OK, s) \<Longrightarrow> f s = g s) \<Longrightarrow> xd3_try r f = xd3_try r' g"
  by (cases r') (auto simp: xd3_try_def)

lemma xd3_try_fail: "e \<noteq> XD3_OK \<Longrightarrow> xd3_try (e, s) f = (e, s)"
  by (simp add: xd3_try_def)

lemma xd3_try_cases:
  assumes "xd3_try r f = (e, t)"
  obtains (ok) s where "r = (XD3_OK, s)" and "f s = (e, t)"
    | (fail) "r = (e, t)" and "e \<noteq> XD3_OK"
  using assms by (cases r) (auto simp: xd3_try_def split: if_splits)

lemma xd3_try_OK_iff: "xd3_try r f = (XD3_OK, t) \<longleftrightarrow> (\<exists>s. r = (XD3_OK, s) \<and> f s = (XD3_OK, t))"
  by (cases r) (auto simp: xd3_try_def)

section \<open>Words\<close>

text \<open>\<open>USIZE_T_OVERFLOW\<close> and \<open>XOFF_T_OVERFLOW\<close> of \<open>xdelta3-internal.h\<close>.\<close>

definition USIZE_T_OVERFLOW :: "usize_t \<Rightarrow> usize_t \<Rightarrow> bool" where
  "USIZE_T_OVERFLOW a b \<longleftrightarrow> (- 1) - a < b"

definition XOFF_T_OVERFLOW :: "xoff_t \<Rightarrow> xoff_t \<Rightarrow> bool" where
  "XOFF_T_OVERFLOW a b \<longleftrightarrow> (- 1) - a < b"

lemma unat_max_minus: "unat ((- 1 :: 'a::len word) - a) = 2 ^ LENGTH('a) - 1 - unat a"
proof -
  have "unat ((- 1 :: 'a word) - a) = unat (- 1 :: 'a word) - unat a"
    by (rule unat_sub) (simp add: word_order.extremum)
  moreover have "unat (- 1 :: 'a word) = 2 ^ LENGTH('a) - 1"
    by (metis mask_eq_exp_minus_1 unsigned_minus_1_eq_mask)
  ultimately show ?thesis by simp
qed

lemma overflow_iff:
  "(- 1 :: 'a::len word) - a < b \<longleftrightarrow> 2 ^ LENGTH('a) \<le> unat a + unat b"
proof -
  have "unat a < 2 ^ LENGTH('a)" by (rule unsigned_less)
  then show ?thesis
    unfolding word_less_nat_alt unat_max_minus by linarith
qed

lemma USIZE_T_OVERFLOW_iff: "USIZE_T_OVERFLOW a b \<longleftrightarrow> 2 ^ 64 \<le> unat a + unat b"
  by (simp only: USIZE_T_OVERFLOW_def overflow_iff) simp

lemma XOFF_T_OVERFLOW_iff: "XOFF_T_OVERFLOW a b \<longleftrightarrow> 2 ^ 64 \<le> unat a + unat b"
  by (simp only: XOFF_T_OVERFLOW_def overflow_iff) simp

lemma unat_plus_no_overflow:
  "unat a + unat b < 2 ^ LENGTH('a) \<Longrightarrow> unat (a + b :: 'a::len word) = unat a + unat b"
  by (simp add: unat_word_ariths)

lemma unat_plus_64:
  "unat a + unat b < 2 ^ 64 \<Longrightarrow> unat (a + b :: 64 word) = unat a + unat b"
  by (simp add: unat_word_ariths)

lemma unat_of_nat_64: "n < 2 ^ 64 \<Longrightarrow> unat (of_nat n :: 64 word) = n"
  by (simp add: unat_of_nat)

lemma unat_bound_64: "unat (a :: 64 word) < 2 ^ 64"
  using unsigned_less [of a] by simp

lemma unat_bound_8: "unat (a :: 8 word) < 256"
  using unsigned_less [of a] by simp

lemma unat_drop_bit: "unat (drop_bit n w) = unat (w :: 'a::len word) div 2 ^ n"
proof -
  have "unat (drop_bit n w) = drop_bit n (take_bit LENGTH('a) (unat w))"
    by (rule unsigned_drop_bit_eq)
  also have "take_bit LENGTH('a) (unat w) = unat w"
    by (rule take_bit_nat_eq_self) (rule unsigned_less)
  finally show ?thesis by (simp add: drop_bit_eq_div)
qed

lemma word_split_low:
  "push_bit n (drop_bit n a) OR (a AND mask n) = (a :: 'a::len word)"
  by (rule bit_word_eqI) (auto simp: bit_simps)

text \<open>The bits of the constants the byte formats use.\<close>

named_theorems byte_bits \<open>bits of the masks 127, 128 and 255\<close>

text \<open>The simplifier turns a bit of a numeral word into a bit of the integer numeral.\<close>

lemma bit_127 [byte_bits]: "bit (127 :: int) n \<longleftrightarrow> n < 7"
proof -
  have "127 = (mask 7 :: int)" by (simp add: mask_eq_exp_minus_1)
  then show ?thesis by (simp only: bit_mask_iff) (simp add: possible_bit_def)
qed

lemma bit_128 [byte_bits]: "bit (128 :: int) n \<longleftrightarrow> n = 7"
proof -
  have "128 = (2 ^ 7 :: int)" by simp
  then show ?thesis by (simp only: bit_exp_iff) (auto simp: possible_bit_def)
qed

lemma bit_255 [byte_bits]: "bit (255 :: int) n \<longleftrightarrow> n < 8"
proof -
  have "255 = (mask 8 :: int)" by (simp add: mask_eq_exp_minus_1)
  then show ?thesis by (simp only: bit_mask_iff) (simp add: possible_bit_def)
qed

lemma drop_bit_eq_0_iff: "drop_bit n (w :: 'a::len word) = 0 \<longleftrightarrow> unat w < 2 ^ n"
proof -
  have "drop_bit n w = 0 \<longleftrightarrow> unat (drop_bit n w) = 0"
    by (metis unsigned_0 unsigned_word_eqI)
  also have "\<dots> \<longleftrightarrow> unat w < 2 ^ n" by (simp only: unat_drop_bit div_eq_0_iff) simp
  finally show ?thesis .
qed

lemma and_not_mask_eq_0_iff: "w AND NOT (mask n) = 0 \<longleftrightarrow> unat (w :: 'a::len word) < 2 ^ n"
proof -
  have "w AND NOT (mask n) = push_bit n (drop_bit n w)"
    by (rule bit_word_eqI) (auto simp: bit_simps)
  moreover have "drop_bit n (push_bit n (drop_bit n w)) = drop_bit n w"
    by (rule bit_word_eqI) (auto simp: bit_simps dest: bit_imp_le_length)
  then have "push_bit n (drop_bit n w) = 0 \<longleftrightarrow> drop_bit n w = 0"
    by (metis drop_bit_of_0 push_bit_of_0)
  ultimately show ?thesis by (simp only: drop_bit_eq_0_iff)
qed

section \<open>Lists\<close>

lemma take_drop_split: "n \<le> length xs \<Longrightarrow> take n (xs @ ys) = take n xs"
  by simp

lemma nth_take_drop_eq:
  "i + n \<le> length xs \<Longrightarrow> k < n \<Longrightarrow> take n (drop i xs) ! k = xs ! (i + k)"
  by simp

end
