(* ===== verification/Xd3_Int.thy ===== *)
theory Xd3_Int
  imports Xd3_Prelude
begin

text \<open>
  The variable-length integers of VCDIFF, from \<open>xdelta3-internal.h\<close>: seven bits per byte, most
  significant first, every byte but the last with its high bit set.  The source has one macro per
  direction, instantiated at 32 and 64 bits; the definitions are generic in the word width and the
  instances are below them.  A buffer \<open>inp .. maxp\<close> is the list of its bytes.
\<close>

section \<open>Definitions\<close>

definition UINT32_OFLOW_MASK :: uint32 where
  "UINT32_OFLOW_MASK = 0xfe000000"

definition UINT64_OFLOW_MASK :: "64 word" where
  "UINT64_OFLOW_MASK = 0xfe00000000000000"

text \<open>\<open>READ_INTEGER_TYPE\<close>: the loop over \<open>*inpp\<close>, with the message of each failure.\<close>

fun read_integer :: "'a::len word \<Rightarrow> 'a word \<Rightarrow> uint8 list \<Rightarrow> string + 'a word \<times> uint8 list" where
  "read_integer oflow val [] = Inl ''end-of-input in read_integer''"
| "read_integer oflow val (next # inp) =
     (if val AND oflow \<noteq> 0 then Inl ''overflow in read_intger''
      else let val' = push_bit 7 val OR (ucast next AND 127) in
        if next AND 128 \<noteq> 0 then read_integer oflow val' inp else Inr (val', inp))"

definition xd3_read_uint32_t :: "uint8 list \<Rightarrow> string + uint32 \<times> uint8 list" where
  "xd3_read_uint32_t inp = read_integer UINT32_OFLOW_MASK 0 inp"

definition xd3_read_uint64_t :: "uint8 list \<Rightarrow> string + 64 word \<times> uint8 list" where
  "xd3_read_uint64_t inp = read_integer UINT64_OFLOW_MASK 0 inp"

definition xd3_read_size :: "uint8 list \<Rightarrow> string + usize_t \<times> uint8 list" where
  "xd3_read_size inp = xd3_read_uint64_t inp"

text \<open>
  \<open>DECODE_INTEGER_TYPE\<close>: the resumable form, over the bytes available now and the part decoded by
  earlier calls.  The result is the status, the message, the value, the new part and the bytes
  left; \<open>DECODE_INPUT (1)\<close> runs before the overflow check, so the offending byte is consumed.
\<close>

fun decode_integer ::
  "'a::len word \<Rightarrow> 'a word \<Rightarrow> uint8 list \<Rightarrow>
     xd3_rvalue \<times> string option \<times> 'a word option \<times> 'a word \<times> uint8 list" where
  "decode_integer oflow part [] = (XD3_INPUT, Some ''further input required'', None, part, [])"
| "decode_integer oflow part (next # inp) =
     (if part AND oflow \<noteq> 0
      then (XD3_INVALID_INPUT, Some ''overflow in decode_integer'', None, part, inp)
      else let part' = push_bit 7 part OR (ucast next AND 127) in
        if next AND 128 = 0 then (XD3_OK, None, Some part', 0, inp)
        else decode_integer oflow part' inp)"

text \<open>\<open>EMIT_INTEGER_TYPE\<close>: the bytes of \<open>buf + bufi .. buf + 10\<close>.\<close>

function emit_integer_loop :: "'a::len word \<Rightarrow> uint8 list \<Rightarrow> uint8 list" where
  "emit_integer_loop num buf =
     (let buf' = (ucast (num AND 127) OR 128) # buf; num' = drop_bit 7 num
      in if num' \<noteq> 0 then emit_integer_loop num' buf' else buf')"
  by pat_completeness auto

lemma drop_bit_7_less: "drop_bit 7 num \<noteq> 0 \<Longrightarrow> unat (drop_bit 7 num) < unat (num :: 'a::len word)"
proof -
  assume "drop_bit 7 num \<noteq> 0"
  then have "num \<noteq> 0" by auto
  then have "0 < unat num" by (simp add: unat_gt_0)
  then show ?thesis by (simp only: unat_drop_bit) simp
qed

termination emit_integer_loop
  by (relation "measure (\<lambda>(num, buf). unat num)") (auto dest: drop_bit_7_less)

declare emit_integer_loop.simps [simp del]

definition emit_integer :: "'a::len word \<Rightarrow> uint8 list" where
  "emit_integer num =
     (let buf = emit_integer_loop num [] in butlast buf @ [last buf AND 127])"

definition xd3_emit_uint32_t :: "uint32 \<Rightarrow> uint8 list" where
  "xd3_emit_uint32_t num = emit_integer num"

definition xd3_emit_uint64_t :: "64 word \<Rightarrow> uint8 list" where
  "xd3_emit_uint64_t num = emit_integer num"

text \<open>The byte counts \<open>xd3_sizeof_uint32_t\<close> and \<open>xd3_sizeof_uint64_t\<close>.\<close>

definition xd3_sizeof_uint32_t :: "uint32 \<Rightarrow> uint32" where
  "xd3_sizeof_uint32_t num =
     (if num < push_bit 7 1 then 1
      else if num < push_bit 14 1 then 2
      else if num < push_bit 21 1 then 3
      else if num < push_bit 28 1 then 4
      else 5)"

definition xd3_sizeof_uint64_t :: "64 word \<Rightarrow> uint32" where
  "xd3_sizeof_uint64_t num =
     (if num < push_bit 7 1 then 1
      else if num < push_bit 14 1 then 2
      else if num < push_bit 21 1 then 3
      else if num < push_bit 28 1 then 4
      else if num < push_bit 35 1 then 5
      else if num < push_bit 42 1 then 6
      else if num < push_bit 49 1 then 7
      else if num < push_bit 56 1 then 8
      else if num < push_bit 63 1 then 9
      else 10)"

definition xd3_sizeof_size :: "usize_t \<Rightarrow> uint32" where
  "xd3_sizeof_size num = xd3_sizeof_uint64_t num"

definition xd3_emit_size_bytes :: "usize_t \<Rightarrow> uint8 list" where
  "xd3_emit_size_bytes num = xd3_emit_uint64_t num"

section \<open>The loop as a function of the number\<close>

text \<open>
  The bytes the loop writes in front of the last one: all with the high bit set.
\<close>

function high_bytes :: "'a::len word \<Rightarrow> uint8 list" where
  "high_bytes num = (if num = 0 then [] else high_bytes (drop_bit 7 num) @ [ucast (num AND 127) OR 128])"
  by pat_completeness auto

termination high_bytes
proof (relation "measure unat", goal_cases)
  case (2 num)
  then have "0 < unat num" by (simp add: unat_gt_0)
  then show ?case by (simp only: in_measure unat_drop_bit) simp
qed simp

declare high_bytes.simps [simp del]

lemma emit_integer_loop_eq:
  "emit_integer_loop num buf = high_bytes (drop_bit 7 num) @ (ucast (num AND 127) OR 128) # buf"
proof (induction num buf rule: emit_integer_loop.induct)
  case (1 num buf)
  show ?case
  proof (cases "drop_bit 7 num = 0")
    case True
    then show ?thesis by (simp add: emit_integer_loop.simps [of num] high_bytes.simps Let_def)
  next
    case False
    with 1 show ?thesis
      by (simp add: emit_integer_loop.simps [of num] high_bytes.simps [of "drop_bit 7 num"] Let_def)
  qed
qed

lemma low_byte_mask:
  "(ucast (num AND 127) OR 128 :: uint8) AND 127 = ucast (num AND 127 :: 'a::len word)"
proof -
  have m: "127 = (mask 7 :: 8 word)" "127 = (mask 7 :: 'a word)" "128 = (2 ^ 7 :: 8 word)"
    by (simp_all add: mask_eq_exp_minus_1)
  show ?thesis unfolding m by (rule bit_word_eqI) (auto simp only: bit_simps)
qed

lemma emit_integer_eq:
  "emit_integer num = high_bytes (drop_bit 7 num) @ [ucast (num AND 127)]"
  by (simp add: emit_integer_def emit_integer_loop_eq Let_def low_byte_mask butlast_append)

section \<open>Reading back what was written\<close>

lemma ucast_high_byte:
  "ucast (ucast (num AND 127) OR 128 :: uint8) AND 127 = (num AND 127 :: 'a::len word)"
  by (rule bit_word_eqI) (auto simp: byte_bits bit_simps)

lemma ucast_low_byte: "ucast (ucast (num AND 127) :: uint8) AND 127 = (num AND 127 :: 'a::len word)"
  by (rule bit_word_eqI) (auto simp: byte_bits bit_simps)

lemma high_byte_flag: "(ucast (num AND 127 :: 'a::len word) OR 128 :: uint8) AND 128 \<noteq> 0"
proof
  assume "(ucast (num AND 127 :: 'a::len word) OR 128 :: uint8) AND 128 = 0"
  then have "bit ((ucast (num AND 127 :: 'a::len word) OR 128 :: uint8) AND 128) 7 = bit (0 :: uint8) 7"
    by (rule arg_cong)
  then show False by (simp add: byte_bits bit_simps)
qed

lemma low_byte_flag: "(ucast (num AND 127 :: 'a::len word) :: uint8) AND 128 = 0"
  by (rule bit_word_eqI) (auto simp: byte_bits bit_simps)

lemma shift_in_low: "push_bit 7 (drop_bit 7 num) OR (num AND 127) = (num :: 'a::len word)"
  by (rule bit_word_eqI) (auto simp: byte_bits bit_simps)

text \<open>The overflow masks of the source select the top seven bits.\<close>

lemma OFLOW_MASK_eq:
  "UINT32_OFLOW_MASK = NOT (mask (LENGTH(32) - 7))"
  "UINT64_OFLOW_MASK = NOT (mask (LENGTH(64) - 7))"
  by (simp_all add: UINT32_OFLOW_MASK_def UINT64_OFLOW_MASK_def mask_eq_exp_minus_1)

lemma no_overflow_after_shift:
  assumes "7 \<le> LENGTH('a)"
  shows "drop_bit 7 (num :: 'a::len word) AND NOT (mask (LENGTH('a) - 7)) = 0"
proof -
  have "(2 :: nat) ^ (LENGTH('a) - 7) * 2 ^ 7 = 2 ^ LENGTH('a)"
    using assms by (simp only: flip: power_add) simp
  then have "unat num < 2 ^ (LENGTH('a) - 7) * 2 ^ 7"
    using unsigned_less [of num] by simp
  then show ?thesis
    unfolding and_not_mask_eq_0_iff unat_drop_bit
    by (simp only: less_mult_imp_div_less)
qed

lemma read_integer_high_bytes:
  assumes "7 \<le> LENGTH('a)"
  shows "read_integer (NOT (mask (LENGTH('a) - 7))) 0 (high_bytes num @ rest) =
    read_integer (NOT (mask (LENGTH('a) - 7))) (num :: 'a::len word) rest"
proof (induction num arbitrary: rest rule: high_bytes.induct)
  case (1 num)
  show ?case
  proof (cases "num = 0")
    case True
    then show ?thesis by (simp add: high_bytes.simps)
  next
    case False
    with 1 show ?thesis
      by (simp add: high_bytes.simps [of num] no_overflow_after_shift [OF assms]
          high_byte_flag ucast_high_byte shift_in_low Let_def)
  qed
qed

lemma read_emit_integer:
  assumes "7 \<le> LENGTH('a)"
  shows "read_integer (NOT (mask (LENGTH('a) - 7))) 0 (emit_integer num @ rest) =
    Inr (num :: 'a::len word, rest)"
  by (simp add: emit_integer_eq read_integer_high_bytes [OF assms] low_byte_flag ucast_low_byte
      no_overflow_after_shift [OF assms] shift_in_low Let_def)

section \<open>The number of bytes\<close>

lemma length_high_bytes_le: "length (high_bytes num) \<le> k \<longleftrightarrow> unat (num :: 'a::len word) < 2 ^ (7 * k)"
proof (induction num arbitrary: k rule: high_bytes.induct)
  case (1 num)
  show ?case
  proof (cases "num = 0")
    case True
    then show ?thesis by (simp add: high_bytes.simps)
  next
    case False
    then have pos: "0 < unat num" by (simp add: unat_gt_0)
    show ?thesis
    proof (cases k)
      case 0
      with False pos show ?thesis by (simp add: high_bytes.simps [of num])
    next
      case (Suc j)
      have "length (high_bytes num) \<le> k \<longleftrightarrow> length (high_bytes (drop_bit 7 num)) \<le> j"
        using False Suc by (simp add: high_bytes.simps [of num])
      also have "\<dots> \<longleftrightarrow> unat num div 2 ^ 7 < 2 ^ (7 * j)"
        using 1 [OF False] by (simp only: unat_drop_bit)
      also have "\<dots> \<longleftrightarrow> unat num < 2 ^ (7 * k)"
        by (simp add: Suc div_less_iff_less_mult power_add mult.commute)
      finally show ?thesis .
    qed
  qed
qed

lemma length_emit_integer_le:
  "length (emit_integer num) \<le> Suc k \<longleftrightarrow> unat (num :: 'a::len word) < 2 ^ (7 * Suc k)"
proof -
  have "length (emit_integer num) \<le> Suc k \<longleftrightarrow> unat num div 2 ^ 7 < 2 ^ (7 * k)"
    unfolding emit_integer_eq by (simp only: length_append length_high_bytes_le unat_drop_bit list.size add_Suc_right add_0_right
        Suc_le_mono)
  also have "\<dots> \<longleftrightarrow> unat num < 2 ^ (7 * Suc k)"
    by (simp add: div_less_iff_less_mult power_add mult.commute)
  finally show ?thesis .
qed

lemma emit_integer_nonempty: "emit_integer num \<noteq> []"
  by (simp add: emit_integer_eq)

lemma length_emit_integer_eqI:
  assumes "unat num < 2 ^ (7 * Suc k)" and "k = 0 \<or> 2 ^ (7 * k) \<le> unat num"
  shows "length (emit_integer (num :: 'a::len word)) = Suc k"
proof (cases k)
  case 0
  have "length (emit_integer num) \<noteq> 0" by (simp add: emit_integer_nonempty)
  moreover have "length (emit_integer num) \<le> Suc 0"
    using assms(1) length_emit_integer_le [of num 0] by (simp add: 0)
  ultimately show ?thesis using 0 by linarith
next
  case (Suc j)
  have "length (emit_integer num) \<le> Suc k"
    using assms(1) by (simp only: length_emit_integer_le)
  moreover have "\<not> length (emit_integer num) \<le> Suc j"
    using assms(2) Suc by (simp only: length_emit_integer_le not_less) simp
  ultimately show ?thesis using Suc by simp
qed

lemmas length_emit_integer_cases =
  length_emit_integer_eqI [of _ 0, simplified] length_emit_integer_eqI [of _ 1, simplified]
  length_emit_integer_eqI [of _ 2, simplified] length_emit_integer_eqI [of _ 3, simplified]
  length_emit_integer_eqI [of _ 4, simplified] length_emit_integer_eqI [of _ 5, simplified]
  length_emit_integer_eqI [of _ 6, simplified] length_emit_integer_eqI [of _ 7, simplified]
  length_emit_integer_eqI [of _ 8, simplified] length_emit_integer_eqI [of _ 9, simplified]

lemma sizeof_uint32_eq:
  "unat (xd3_sizeof_uint32_t num) = length (emit_integer num)"
proof -
  have "unat num < 4294967296" using unsigned_less [of num] by simp
  then show ?thesis
    by (simp add: xd3_sizeof_uint32_t_def word_less_nat_alt not_less length_emit_integer_cases)
qed

lemma sizeof_uint64_eq:
  "unat (xd3_sizeof_uint64_t num) = length (emit_integer num)"
proof -
  have "unat num < 18446744073709551616" using unsigned_less [of num] by simp
  then show ?thesis
    by (simp add: xd3_sizeof_uint64_t_def word_less_nat_alt not_less length_emit_integer_cases)
qed

section \<open>The value of a byte string\<close>

text \<open>The number a string of digits denotes, with the digits already read as \<open>v\<close>.\<close>

fun base128 :: "nat \<Rightarrow> uint8 list \<Rightarrow> nat" where
  "base128 v [] = v"
| "base128 v (b # bs) = base128 (v * 128 + unat (b AND 127)) bs"

lemma base128_mono: "v \<le> base128 v bs"
proof (induction bs arbitrary: v)
  case (Cons b bs)
  have "v \<le> v * 128 + unat (b AND 127)" by simp
  also have "\<dots> \<le> base128 v (b # bs)" using Cons by simp
  finally show ?case .
qed simp

lemma base128_ge_shift: "v * 128 \<le> base128 v (b # bs)"
  using base128_mono [of "v * 128 + unat (b AND 127)" bs] by simp

lemma pow_minus_7:
  assumes "7 \<le> n"
  shows "(2 :: nat) ^ (n - 7) * 128 = 2 ^ n"
proof -
  have "(2 :: nat) ^ (n - 7) * 2 ^ 7 = 2 ^ n"
    using assms by (simp only: flip: power_add) simp
  then show ?thesis by simp
qed

lemma shift_or_eq_add:
  assumes "7 \<le> LENGTH('a)" and "unat (val :: 'a::len word) < 2 ^ (LENGTH('a) - 7)"
  shows "unat (push_bit 7 val OR (ucast (b :: uint8) AND 127)) = unat val * 128 + unat (b AND 127)"
proof -
  note two = pow_minus_7 [OF assms(1)]
  have "push_bit 7 val AND (ucast b AND 127) = 0"
    by (rule bit_word_eqI) (auto simp: byte_bits bit_simps)
  then have sum: "push_bit 7 val OR (ucast b AND 127) = push_bit 7 val + (ucast b AND 127)"
    by (simp add: disjunctive_add_eq_or)
  have small: "unat (b AND 127) < 128"
    using word_and_le1 [of b 127] by (simp add: word_le_nat_alt)
  have low: "unat (ucast b AND 127 :: 'a word) = unat (b AND 127)"
  proof -
    have "ucast b AND 127 = (ucast (b AND 127) :: 'a word)"
      by (rule bit_word_eqI) (auto simp: byte_bits bit_simps)
    moreover have "(128 :: nat) \<le> 2 ^ LENGTH('a)"
      using assms(1) power_increasing [of 7 "LENGTH('a)" "2 :: nat"] by simp
    ultimately show ?thesis
      using small by (simp add: unsigned_ucast_eq take_bit_nat_eq_self)
  qed
  have high: "unat (push_bit 7 val) = unat val * 128"
  proof -
    have "unat val * 2 ^ 7 < 2 ^ LENGTH('a)"
      using assms(2) by (simp flip: two)
    then have "take_bit LENGTH('a) (push_bit 7 (unat val)) = unat val * 2 ^ 7"
      by (simp only: push_bit_eq_mult take_bit_nat_eq_self)
    then show ?thesis by (simp only: unsigned_push_bit_eq) simp
  qed
  have "unat val * 128 + 128 \<le> 2 ^ LENGTH('a)"
    using assms(2) by (simp flip: two)
  then have "unat (push_bit 7 val) + unat (ucast b AND 127 :: 'a word) < 2 ^ LENGTH('a)"
    using small by (simp add: high low)
  then show ?thesis
    by (simp add: sum unat_plus_no_overflow high low)
qed

text \<open>
  The reader is exact: on a complete digit string it returns the denoted number when it fits the
  word, and the overflow message when it does not; a string that stops too early is reported as
  such unless the overflow comes first.
\<close>

lemma base128_overflow:
  assumes "7 \<le> LENGTH('a)" and "\<not> unat (val :: 'a::len word) < 2 ^ (LENGTH('a) - 7)"
  shows "\<not> base128 (unat val) (b # bs) < 2 ^ LENGTH('a)"
proof -
  have "(2 :: nat) ^ (LENGTH('a) - 7) * 128 \<le> unat val * 128"
    using assms(2) by simp
  also have "\<dots> \<le> base128 (unat val) (b # bs)"
    by (rule base128_ge_shift)
  finally show ?thesis
    by (simp only: pow_minus_7 [OF assms(1)] not_less)
qed

lemma read_integer_from:
  assumes w: "7 \<le> LENGTH('a)"
  shows "(\<forall>b \<in> set bs. b AND 128 \<noteq> 0) \<Longrightarrow> c AND 128 = 0 \<Longrightarrow>
    read_integer (NOT (mask (LENGTH('a) - 7))) (val :: 'a::len word) (bs @ c # rest) =
      (if base128 (unat val) (bs @ [c]) < 2 ^ LENGTH('a)
       then Inr (of_nat (base128 (unat val) (bs @ [c])), rest)
       else Inl ''overflow in read_intger'')"
proof (induction bs arbitrary: val)
  case Nil
  show ?case
  proof (cases "unat val < 2 ^ (LENGTH('a) - 7)")
    case True
    let ?v = "push_bit 7 val OR (ucast c AND 127)"
    have v: "unat ?v = base128 (unat val) [c]"
      using shift_or_eq_add [OF w True] by simp
    have "?v = of_nat (unat ?v)" by simp
    then have "?v = of_nat (base128 (unat val) [c])" by (simp only: v)
    moreover have "base128 (unat val) [c] < 2 ^ LENGTH('a)"
      unfolding v [symmetric] by (rule unsigned_less)
    ultimately show ?thesis
      using Nil.prems(2) True by (simp add: and_not_mask_eq_0_iff Let_def)
  next
    case False
    then show ?thesis
      using base128_overflow [OF w False, of c "[]"] by (simp add: and_not_mask_eq_0_iff)
  qed
next
  case (Cons b bs)
  show ?case
  proof (cases "unat val < 2 ^ (LENGTH('a) - 7)")
    case True
    with Cons show ?thesis
      by (simp add: and_not_mask_eq_0_iff Let_def shift_or_eq_add [OF w True])
  next
    case False
    then show ?thesis
      using base128_overflow [OF w False, of b "bs @ [c]"] by (simp add: and_not_mask_eq_0_iff)
  qed
qed

text \<open>
  The resumable decoder agrees with the reader, and splitting its input changes nothing: a call
  that runs out of input keeps the part, and the next call continues from it.
\<close>

lemma decode_integer_read_OK:
  "read_integer oflow part inp = Inr (v, rest) \<Longrightarrow>
    decode_integer oflow part inp = (XD3_OK, None, Some v, 0, rest)"
  by (induction oflow part inp rule: decode_integer.induct) (auto simp: Let_def split: if_splits)

lemma decode_integer_read_fail:
  "read_integer oflow part inp = Inl m \<Longrightarrow>
    fst (decode_integer oflow part inp) =
      (if m = ''overflow in read_intger'' then XD3_INVALID_INPUT else XD3_INPUT)"
  by (induction oflow part inp rule: decode_integer.induct) (auto simp: Let_def split: if_splits)

lemma decode_integer_append:
  "decode_integer oflow part (xs @ ys) =
    (case decode_integer oflow part xs of
       (ret, m, v, part', rest) \<Rightarrow>
         if ret = XD3_INPUT then decode_integer oflow part' ys
         else (ret, m, v, part', rest @ ys))"
  by (induction oflow part xs rule: decode_integer.induct) (auto simp: Let_def)

lemma decode_emit_integer:
  assumes "7 \<le> LENGTH('a)"
  shows "decode_integer (NOT (mask (LENGTH('a) - 7))) 0 (emit_integer num @ rest) =
    (XD3_OK, None, Some (num :: 'a::len word), 0, rest)"
  by (rule decode_integer_read_OK) (rule read_emit_integer [OF assms])

section \<open>The codec as an interface\<close>

text \<open>
  What the header and section code relies on: a value written is read back with nothing lost
  behind it, and the size function predicts the number of bytes.
\<close>

locale integer_codec =
  fixes emit :: "'v \<Rightarrow> uint8 list"
    and read :: "uint8 list \<Rightarrow> string + 'v \<times> uint8 list"
    and size_of :: "'v \<Rightarrow> uint32"
  assumes read_emit: "read (emit v @ rest) = Inr (v, rest)"
    and length_emit: "length (emit v) = unat (size_of v)"
begin

lemma prefix_free: "emit v @ xs = emit w @ ys \<Longrightarrow> v = w \<and> xs = ys"
  by (metis read_emit sum.inject(2) prod.inject)

lemma emit_inj: "emit v = emit w \<Longrightarrow> v = w"
  using prefix_free by blast

fun read_many :: "nat \<Rightarrow> uint8 list \<Rightarrow> string + 'v list \<times> uint8 list" where
  "read_many 0 inp = Inr ([], inp)"
| "read_many (Suc n) inp =
     (case read inp of Inl e \<Rightarrow> Inl e
      | Inr (v, inp') \<Rightarrow> (case read_many n inp' of Inl e \<Rightarrow> Inl e
          | Inr (vs, rest) \<Rightarrow> Inr (v # vs, rest)))"

lemma read_many_emit: "read_many (length vs) (concat (map emit vs) @ rest) = Inr (vs, rest)"
  by (induction vs) (simp_all add: read_emit)

end

interpretation uint32_codec: integer_codec xd3_emit_uint32_t xd3_read_uint32_t xd3_sizeof_uint32_t
  by unfold_locales
    (simp_all add: xd3_emit_uint32_t_def xd3_read_uint32_t_def OFLOW_MASK_eq
      read_emit_integer [where 'a = 32, simplified] sizeof_uint32_eq)

interpretation size_codec: integer_codec xd3_emit_size_bytes xd3_read_size xd3_sizeof_size
  by unfold_locales
    (simp_all add: xd3_emit_size_bytes_def xd3_emit_uint64_t_def xd3_read_size_def
      xd3_read_uint64_t_def xd3_sizeof_size_def OFLOW_MASK_eq
      read_emit_integer [where 'a = 64, simplified] sizeof_uint64_eq)

section \<open>Properties\<close>

text \<open>C14: an encoded integer, of either width, is read back exactly, whatever bytes follow it, and
  the size function predicts the number of bytes written.\<close>

theorem integer_roundtrip:
  "xd3_read_size (xd3_emit_size_bytes n @ rest) = Inr (n, rest) \<and>
   length (xd3_emit_size_bytes n) = unat (xd3_sizeof_size n) \<and>
   xd3_read_uint32_t (xd3_emit_uint32_t k @ rest) = Inr (k, rest) \<and>
   length (xd3_emit_uint32_t k) = unat (xd3_sizeof_uint32_t k)"
  by (simp add: size_codec.read_emit size_codec.length_emit
      uint32_codec.read_emit uint32_codec.length_emit)

text \<open>C15: the 64-bit reader is exact on every complete digit string, canonical or not: it returns
  the number the digits denote when that is below $2^{64}$ and the overflow error when it is
  not, never a truncated value.\<close>

theorem read_uint64_exact:
  assumes "\<forall>b \<in> set bs. b AND 128 \<noteq> 0" and "c AND 128 = 0"
  shows "xd3_read_uint64_t (bs @ c # rest) =
    (if base128 0 (bs @ [c]) < 2 ^ 64
     then Inr (of_nat (base128 0 (bs @ [c])), rest)
     else Inl ''overflow in read_intger'')"
  using read_integer_from [where 'a = 64 and val = 0, OF _ assms]
  by (simp add: xd3_read_uint64_t_def OFLOW_MASK_eq)

theorem read_uint64_exact_witness:
  "xd3_read_uint64_t [0x81, 0x00, 0x2a] = Inr (128, [0x2a])"
  using read_uint64_exact [of "[0x81]" "0x00" "[0x2a]"] by simp

text \<open>C23: the resumable decoder does not see how its input is cut: decoding a prefix and, if that
  asked for more, the remainder, is decoding the whole; and on a complete input it returns the
  number that was emitted.\<close>

theorem decode_integer_chunks:
  "decode_integer UINT64_OFLOW_MASK part (xs @ ys) =
    (case decode_integer UINT64_OFLOW_MASK part xs of
       (ret, m, v, part', rest) \<Rightarrow>
         if ret = XD3_INPUT then decode_integer UINT64_OFLOW_MASK part' ys
         else (ret, m, v, part', rest @ ys)) \<and>
   decode_integer UINT64_OFLOW_MASK 0 (xd3_emit_uint64_t n @ rest) = (XD3_OK, None, Some n, 0, rest)"
proof (intro conjI)
  show "decode_integer UINT64_OFLOW_MASK 0 (xd3_emit_uint64_t n @ rest) = (XD3_OK, None, Some n, 0, rest)"
    unfolding OFLOW_MASK_eq xd3_emit_uint64_t_def by (rule decode_emit_integer) simp
qed (rule decode_integer_append)

end
