(* ===== verification/Xd3_Util.thy ===== *)
theory Xd3_Util
  imports Xd3_Prelude
begin

text \<open>
  The small arithmetic helpers of \<open>xdelta3.c\<close>: powers of two, rounding to block sizes and run
  detection.  A loop that may not end is a partial function, \<open>None\<close> standing for a call that never
  returns.
\<close>

section \<open>Definitions\<close>

text \<open>\<open>xd3_check_pow2\<close>: the loop over \<open>x\<close> ends because the one bit of \<open>x\<close> is shifted out.\<close>

function check_pow2_loop :: "xoff_t \<Rightarrow> xoff_t \<Rightarrow> usize_t \<Rightarrow> xd3_rvalue \<times> usize_t" where
  "check_pow2_loop value x logof =
     (if x \<noteq> 0 then
        if x = value then (XD3_OK, logof)
        else check_pow2_loop value (push_bit 1 x) (logof + 1)
      else (XD3_INTERNAL, logof))"
  by pat_completeness auto

lemma shifts_left_decrease:
  assumes "x \<noteq> (0 :: 'a::len word)"
  shows "(LEAST k. push_bit k (push_bit 1 x) = 0) < (LEAST k. push_bit k x = 0)"
proof -
  let ?k = "LEAST k. push_bit k x = 0"
  have "push_bit LENGTH('a) x = 0" by (rule bit_word_eqI) (simp add: bit_simps)
  then have zero: "push_bit ?k x = 0" by (rule LeastI)
  with assms have "?k \<noteq> 0" by (metis push_bit_of_0 push_bit_0_id id_apply)
  then obtain j where j: "?k = Suc j" by (cases ?k) auto
  have "push_bit j (push_bit 1 x) = 0" using zero by (simp add: j push_bit_push_bit)
  then have "(LEAST k. push_bit k (push_bit 1 x) = 0) \<le> j" by (rule Least_le)
  then show ?thesis by (simp only: j less_Suc_eq_le)
qed

termination check_pow2_loop
  by (relation "measure (\<lambda>(value, x, logof). LEAST k. push_bit k x = 0)")
    (auto dest: shifts_left_decrease)

declare check_pow2_loop.simps [simp del]

definition xd3_check_pow2 :: "xoff_t \<Rightarrow> xd3_rvalue \<times> usize_t" where
  "xd3_check_pow2 value = check_pow2_loop value 1 0"

partial_function (option) pow2_roundup_loop :: "64 word \<Rightarrow> 64 word \<Rightarrow> 64 word option" where
  "pow2_roundup_loop x i = (if x > i then pow2_roundup_loop x (push_bit 1 i) else Some i)"

declare pow2_roundup_loop.simps [code]

definition xd3_pow2_roundup :: "usize_t \<Rightarrow> usize_t option" where
  "xd3_pow2_roundup x = pow2_roundup_loop x 1"

definition xd3_xoff_roundup :: "xoff_t \<Rightarrow> xoff_t option" where
  "xd3_xoff_roundup x = pow2_roundup_loop x 1"

definition xd3_round_blksize :: "usize_t \<Rightarrow> usize_t \<Rightarrow> usize_t" where
  "xd3_round_blksize sz blksz =
     (if blksz = 0 then sz
      else let m = sz AND (blksz - 1) in
        if m = 0 then sz
        else let add = blksz - m in
          if USIZE_T_OVERFLOW sz add then sz else sz + add)"

text \<open>\<open>NEXTRUN\<close> and \<open>xd3_comprun\<close>: the state is \<open>(run_c, run_l)\<close>.\<close>

fun NEXTRUN :: "uint8 \<times> usize_t \<Rightarrow> uint8 \<Rightarrow> uint8 \<times> usize_t" where
  "NEXTRUN (run_c, run_l) c = (if c = run_c then (run_c, run_l + 1) else (c, 1))"

definition xd3_comprun :: "uint8 list \<Rightarrow> usize_t \<Rightarrow> usize_t \<times> uint8" where
  "xd3_comprun seg slook =
     (case foldl NEXTRUN (0, 0) (take (unat slook) seg) of (run_c, run_l) \<Rightarrow> (run_l, run_c))"

section \<open>Powers of two\<close>

lemma unat_pow2_64: "n < 64 \<Longrightarrow> unat (2 ^ n :: 64 word) = 2 ^ n"
proof -
  assume "n < 64"
  then have "(2 :: nat) ^ n < 2 ^ 64" by (intro power_strict_increasing) simp_all
  then show ?thesis using unat_of_nat_64 [of "2 ^ n"] by simp
qed

lemma pow2_64_zero: "64 \<le> n \<Longrightarrow> (2 :: 64 word) ^ n = 0"
  by (rule bit_word_eqI) (simp add: bit_simps)

lemma pow2_64_nonzero: "(2 :: 64 word) ^ n \<noteq> 0 \<longleftrightarrow> n < 64"
  by (metis pow2_64_zero unat_pow2_64 not_less power_not_zero unsigned_0 zero_neq_numeral)

lemma pow2_64_inj: "m < 64 \<Longrightarrow> n < 64 \<Longrightarrow> (2 :: 64 word) ^ m = 2 ^ n \<Longrightarrow> m = n"
  by (metis unat_pow2_64 power_inject_exp one_less_numeral_iff semiring_norm(76))

lemma push_bit_1_pow2: "push_bit 1 (2 ^ n) = (2 :: 64 word) ^ Suc n"
  by (simp add: push_bit_eq_mult)

lemma check_pow2_loop_hit:
  "m \<le> n \<Longrightarrow> n < 64 \<Longrightarrow> check_pow2_loop (2 ^ n) (2 ^ m) l = (XD3_OK, l + of_nat (n - m))"
proof (induction "n - m" arbitrary: m l)
  case 0
  then show ?case by (simp add: check_pow2_loop.simps pow2_64_nonzero)
next
  case (Suc d)
  then have "m < n" and d: "d = n - Suc m" by auto
  then have "(2 :: 64 word) ^ m \<noteq> 2 ^ n"
    using pow2_64_inj [of m n] Suc.prems by auto
  moreover have "l + 1 + of_nat (n - Suc m) = l + of_nat (n - m)"
    using \<open>m < n\<close> by (simp add: Suc_diff_Suc [symmetric])
  ultimately show ?case
    using Suc.hyps(1) [OF d, of "l + 1"] Suc.prems \<open>m < n\<close>
    by (subst check_pow2_loop.simps) (simp only: pow2_64_nonzero push_bit_1_pow2, simp)
qed

lemma check_pow2_loop_miss:
  "\<forall>n < 64. value \<noteq> 2 ^ n \<Longrightarrow> m \<le> 64 \<Longrightarrow>
    check_pow2_loop value (2 ^ m) l = (XD3_INTERNAL, l + of_nat (64 - m))"
proof (induction "64 - m" arbitrary: m l)
  case 0
  then show ?case by (simp add: check_pow2_loop.simps pow2_64_zero)
next
  case (Suc d)
  then have "m < 64" and d: "d = 64 - Suc m" by auto
  moreover have "l + 1 + of_nat (64 - Suc m) = l + of_nat (64 - m)"
    using \<open>m < 64\<close> by (simp add: Suc_diff_Suc [symmetric])
  moreover have "value \<noteq> 2 ^ m" using Suc.prems(1) \<open>m < 64\<close> by blast
  ultimately show ?case
    using Suc.hyps(1) [OF d Suc.prems(1), of "l + 1"]
    by (subst check_pow2_loop.simps) (simp only: pow2_64_nonzero push_bit_1_pow2, auto)
qed

text \<open>The rounding loop: it visits the powers of two and, past the last, zero for ever.\<close>

lemma pow2_roundup_loop_hit:
  "m \<le> n \<Longrightarrow> n < 64 \<Longrightarrow> x \<le> 2 ^ n \<Longrightarrow> n = 0 \<or> 2 ^ (n - 1) < x \<Longrightarrow>
    pow2_roundup_loop x (2 ^ m) = Some (2 ^ n)"
proof (induction "n - m" arbitrary: m)
  case 0
  then show ?case by (subst pow2_roundup_loop.simps) (simp add: not_less [symmetric])
next
  case (Suc d)
  then have "m < n" and d: "d = n - Suc m" by auto
  have "unat ((2 :: 64 word) ^ m) \<le> unat ((2 :: 64 word) ^ (n - 1))"
    using Suc.prems(2) \<open>m < n\<close> by (simp add: unat_pow2_64 power_increasing)
  then have "2 ^ m < x"
    using Suc.prems(4) \<open>m < n\<close> by (auto simp only: word_le_nat_alt word_less_nat_alt)
  then show ?case
    using Suc.hyps(1) [OF d] Suc.prems \<open>m < n\<close>
    by (subst pow2_roundup_loop.simps) (simp only: push_bit_1_pow2, simp)
qed

lemma pow2_roundup_loop_result:
  assumes "pow2_roundup_loop x (2 ^ m) = Some y"
  shows "x \<le> y \<and> (\<exists>n. y = 2 ^ n)"
proof -
  let ?P = "\<lambda>(x :: 64 word) (i :: 64 word) y. \<forall>m. i = 2 ^ m \<longrightarrow> x \<le> y \<and> (\<exists>n. y = 2 ^ n)"
  have "(case (x, 2 ^ m) of (x, i) \<Rightarrow> ?P x i) y"
  proof (rule pow2_roundup_loop.raw_induct [where P = ?P and xa = "(x, 2 ^ m)" and y = y])
    fix loop and x i y :: "64 word"
    assume IH: "\<And>x i y. loop x i = Some y \<Longrightarrow> \<forall>m. i = 2 ^ m \<longrightarrow> x \<le> y \<and> (\<exists>n. y = 2 ^ n)"
      and y: "(if i < x then loop x (push_bit 1 i) else Some i) = Some y"
    show "\<forall>m. i = 2 ^ m \<longrightarrow> x \<le> y \<and> (\<exists>n. y = 2 ^ n)"
    proof (cases "i < x")
      case True
      with y IH have "\<forall>m. push_bit 1 i = 2 ^ m \<longrightarrow> x \<le> y \<and> (\<exists>n. y = 2 ^ n)" by simp
      then show ?thesis using push_bit_1_pow2 by blast
    next
      case False
      with y show ?thesis by auto
    qed
  next
    show "(case (x, 2 ^ m :: 64 word) of (x, i) \<Rightarrow> pow2_roundup_loop x i) = Some y" using assms by simp
  qed
  then show ?thesis by auto
qed

lemma pow2_64_le_max: "(2 :: 64 word) ^ n \<le> 2 ^ 63"
proof (cases "n < 64")
  case True
  then have "(2 :: nat) ^ n \<le> 2 ^ 63" by (intro power_increasing) simp_all
  then show ?thesis using True by (simp only: word_le_nat_alt unat_pow2_64)
qed (simp add: pow2_64_zero)

lemma pow2_between:
  assumes "x \<le> (2 :: nat) ^ 63"
  shows "\<exists>n < 64. x \<le> 2 ^ n \<and> (n = 0 \<or> 2 ^ (n - 1) < x)"
proof -
  let ?n = "LEAST n. x \<le> 2 ^ n"
  have le: "x \<le> 2 ^ ?n" using assms by (rule LeastI)
  have n: "?n \<le> 63" using assms by (rule Least_le)
  have "2 ^ (?n - 1) < x" if "?n \<noteq> 0"
    using not_less_Least [of "?n - 1" "\<lambda>n. x \<le> 2 ^ n"] that by (simp only: not_le)
  with le n show ?thesis by (intro exI [of _ ?n]) auto
qed

lemma pow2_roundup_loop_small:
  assumes "x \<le> 2 ^ 63"
  shows "\<exists>n < 64. pow2_roundup_loop x 1 = Some (2 ^ n) \<and> x \<le> 2 ^ n \<and>
    (n = 0 \<or> 2 ^ (n - 1) < x)"
proof -
  have "unat x \<le> 2 ^ 63" using assms by (simp add: word_le_nat_alt)
  then obtain n where n: "n < 64" "unat x \<le> 2 ^ n" "n = 0 \<or> 2 ^ (n - 1) < unat x"
    using pow2_between by blast
  have le: "x \<le> 2 ^ n" using n(1,2) by (simp only: word_le_nat_alt unat_pow2_64)
  have gt: "n = 0 \<or> 2 ^ (n - 1) < x"
    using n(1,3) by (simp only: word_less_nat_alt unat_pow2_64 less_imp_diff_less)
  show ?thesis
    using n(1) le gt pow2_roundup_loop_hit [of 0 n x] by auto
qed

lemma pow2_roundup_loop_large: "2 ^ 63 < x \<Longrightarrow> pow2_roundup_loop x 1 = None"
proof (rule ccontr)
  assume x: "2 ^ 63 < x" and "pow2_roundup_loop x 1 \<noteq> None"
  then obtain y where "pow2_roundup_loop x 1 = Some y" by blast
  then have "x \<le> y \<and> (\<exists>n. y = 2 ^ n)"
    using pow2_roundup_loop_result [of x 0 y] by simp
  then obtain n where "x \<le> 2 ^ n" by blast
  then have "x \<le> 2 ^ 63" using pow2_64_le_max by (rule order.trans)
  with x show False by (meson not_less)
qed

section \<open>Rounding to a block size\<close>

lemma and_pow2_minus_1:
  "n < 64 \<Longrightarrow> unat (sz AND (2 ^ n - 1 :: 64 word)) = unat sz mod 2 ^ n"
proof -
  have "sz AND (2 ^ n - 1) = take_bit n sz"
    by (simp only: take_bit_eq_mask mask_eq_exp_minus_1)
  moreover assume "n < 64"
  ultimately show ?thesis by (simp only: unsigned_take_bit_eq) (simp only: take_bit_eq_mod)
qed

lemma round_blksize_pow2:
  assumes n: "n < 64"
  shows "unat (xd3_round_blksize sz (2 ^ n)) =
    (let up = (unat sz + 2 ^ n - 1) div 2 ^ n * 2 ^ n in if up < 2 ^ 64 then up else unat sz)"
proof -
  let ?b = "2 ^ n :: nat" and ?m = "unat sz mod 2 ^ n"
  have b: "unat (2 ^ n :: 64 word) = ?b" using n by (rule unat_pow2_64)
  have m: "unat (sz AND (2 ^ n - 1)) = ?m" using n by (rule and_pow2_minus_1)
  have less: "?m < ?b" by simp
  have nz: "(2 :: 64 word) ^ n \<noteq> 0" using n by (simp only: pow2_64_nonzero)
  show ?thesis
  proof (cases "?m = 0")
    case True
    then have z: "sz AND (2 ^ n - 1) = 0" using m by (simp only: unat_eq_0 [symmetric])
    obtain q where q: "unat sz = q * ?b" using True by (metis mod_eq_0_iff_dvd dvd_div_mult_self)
    have "(q * ?b + (?b - 1)) div ?b = q" by (subst div_mult_self3) simp_all
    moreover have "q * ?b + (?b - 1) = q * ?b + ?b - 1"
      by (rule add_diff_assoc) (simp add: Suc_le_eq)
    ultimately have "(q * ?b + ?b - 1) div ?b = q" by (simp only:)
    then show ?thesis
      using nz z q unat_bound_64 [of sz] by (simp add: xd3_round_blksize_def Let_def)
  next
    case False
    let ?q = "unat sz div ?b"
    have sz: "unat sz = ?q * ?b + ?m" by (rule div_mult_mod_eq [symmetric])
    have z: "sz AND (2 ^ n - 1) \<noteq> 0" using m False by (metis unsigned_0)
    have add: "unat (2 ^ n - (sz AND (2 ^ n - 1))) = ?b - ?m"
      using less b m by (simp add: unat_sub word_le_nat_alt)
    have "unat sz + ?b - 1 = (?q + 1) * ?b + (?m - 1)"
      unfolding add_mult_distrib using sz False by linarith
    moreover have "(?m - 1) div ?b = 0"
      using less by (intro div_less) (rule less_imp_diff_less)
    then have "((?q + 1) * ?b + (?m - 1)) div ?b = ?q + 1"
      by (subst div_mult_self3) simp_all
    ultimately have q: "(unat sz + ?b - 1) div ?b = ?q + 1" by (simp only:)
    have "(?q + 1) * ?b = unat sz + (?b - ?m)"
      unfolding add_mult_distrib using sz less by linarith
    then have up: "(unat sz + ?b - 1) div ?b * ?b = unat sz + (?b - ?m)" by (simp only: q)
    show ?thesis
    proof (cases "unat sz + (?b - ?m) < 2 ^ 64")
      case True
      then have "unat (sz + (2 ^ n - (sz AND (2 ^ n - 1)))) = unat sz + (?b - ?m)"
        by (subst unat_plus_64) (simp_all only: add)
      then show ?thesis
        using True nz z up add
        by (simp only: xd3_round_blksize_def Let_def USIZE_T_OVERFLOW_iff) simp
    next
      case False
      then show ?thesis
        using nz z up add
        by (simp only: xd3_round_blksize_def Let_def USIZE_T_OVERFLOW_iff) simp
    qed
  qed
qed

section \<open>Runs\<close>

lemma NEXTRUN_run:
  "length seg < 2 ^ 64 \<Longrightarrow> foldl NEXTRUN (0, 0) seg =
    (if seg = [] then (0, 0)
     else (last seg, of_nat (length (takeWhile (\<lambda>c. c = last seg) (rev seg)))))"
proof (induction seg rule: rev_induct)
  case (snoc c seg)
  then show ?case
    by (cases seg rule: rev_cases) (auto simp: )
qed simp

section \<open>Properties\<close>

text \<open>C24: rounding up to a power of two returns the smallest power that is not below the argument,
  and it returns at all exactly for arguments up to $2^{63}$: beyond that the shifted value becomes
  zero and the loop never ends.\<close>

theorem pow2_roundup_spec:
  "xd3_xoff_roundup x = xd3_pow2_roundup x \<and>
   (case xd3_pow2_roundup x of
      Some y \<Rightarrow> x \<le> 2 ^ 63 \<and> (\<exists>n < 64. y = 2 ^ n \<and> x \<le> y \<and> (n = 0 \<or> 2 ^ (n - 1) < x))
    | None \<Rightarrow> 2 ^ 63 < x)"
proof (cases "x \<le> 2 ^ 63")
  case True
  then show ?thesis
    using pow2_roundup_loop_small [OF True]
    by (metis (mono_tags, lifting) option.simps(5) xd3_pow2_roundup_def xd3_xoff_roundup_def)
next
  case False
  then have "2 ^ 63 < x" by (simp only: not_le)
  then show ?thesis
    by (simp add: xd3_pow2_roundup_def xd3_xoff_roundup_def pow2_roundup_loop_large)
qed

text \<open>C25: rounding a size to a block of a power of two gives the next multiple of the block; when
  that multiple does not fit the size type the size comes back unchanged, so the result is never
  below the request.\<close>

theorem round_blksize_spec:
  assumes "n < 64"
  shows "unat sz \<le> unat (xd3_round_blksize sz (2 ^ n)) \<and>
    unat (xd3_round_blksize sz (2 ^ n)) =
      (let up = (unat sz + 2 ^ n - 1) div 2 ^ n * 2 ^ n in if up < 2 ^ 64 then up else unat sz)"
proof (intro conjI)
  have "unat sz \<le> (unat sz + 2 ^ n - 1) div 2 ^ n * 2 ^ n"
  proof -
    have "unat sz + 2 ^ n - 1 = (unat sz + 2 ^ n - 1) div 2 ^ n * 2 ^ n + (unat sz + 2 ^ n - 1) mod 2 ^ n"
      by (rule div_mult_mod_eq [symmetric])
    moreover have "(unat sz + 2 ^ n - 1) mod 2 ^ n < 2 ^ n" by simp
    ultimately show ?thesis by linarith
  qed
  then show "unat sz \<le> unat (xd3_round_blksize sz (2 ^ n))"
    by (simp add: round_blksize_pow2 [OF assms] Let_def)
qed (rule round_blksize_pow2 [OF assms])

theorem round_blksize_spec_witness:
  "unat (xd3_round_blksize 1000 (2 ^ 9)) = 1024"
  using round_blksize_spec [of 9 1000] by simp

text \<open>C26: run detection returns the length and the byte of the longest run that ends the segment.\<close>

theorem comprun_spec:
  assumes "unat slook \<le> length seg"
  shows "xd3_comprun seg slook =
    (let s = take (unat slook) seg in
     if s = [] then (0, 0)
     else (of_nat (length (takeWhile (\<lambda>c. c = last s) (rev s))), last s))"
  using NEXTRUN_run [of "take (unat slook) seg"] unat_bound_64 [of slook] assms
  by (auto simp: xd3_comprun_def Let_def)

theorem comprun_spec_witness:
  "xd3_comprun [1, 2, 7, 7, 7] 5 = (3, 7)"
  using comprun_spec [of 5 "[1, 2, 7, 7, 7]"] by (simp add: Let_def)

end
