(* ===== verification/Xd3_Adler32.thy ===== *)
theory Xd3_Adler32
  imports Xd3_Prelude
begin

text \<open>
  The checksum of a target window, \<open>adler32\<close> of \<open>xdelta3.c\<close>: the unrolled loop with the reduction
  deferred over blocks of \<open>A32_NMAX\<close> bytes, in 32-bit arithmetic.  It is compared below with the
  definition of RFC 1950, which reduces after every byte.  The pair is \<open>(s1, s2)\<close> throughout.
\<close>

section \<open>Definitions\<close>

type_synonym a32 = "uint32 \<times> uint32"

definition A32_BASE :: uint32 where
  "A32_BASE = 65521"

definition A32_NMAX :: nat where
  "A32_NMAX = 5552"

definition A32_DO1 :: "uint8 list \<Rightarrow> nat \<Rightarrow> a32 \<Rightarrow> a32" where
  "A32_DO1 buf i s = (case s of (s1, s2) \<Rightarrow> let s1 = s1 + ucast (buf ! i) in (s1, s2 + s1))"

definition A32_DO2 :: "uint8 list \<Rightarrow> nat \<Rightarrow> a32 \<Rightarrow> a32" where
  "A32_DO2 buf i s = A32_DO1 buf (i + 1) (A32_DO1 buf i s)"

definition A32_DO4 :: "uint8 list \<Rightarrow> nat \<Rightarrow> a32 \<Rightarrow> a32" where
  "A32_DO4 buf i s = A32_DO2 buf (i + 2) (A32_DO2 buf i s)"

definition A32_DO8 :: "uint8 list \<Rightarrow> nat \<Rightarrow> a32 \<Rightarrow> a32" where
  "A32_DO8 buf i s = A32_DO4 buf (i + 4) (A32_DO4 buf i s)"

definition A32_DO16 :: "uint8 list \<Rightarrow> a32 \<Rightarrow> a32" where
  "A32_DO16 buf s = A32_DO8 buf 8 (A32_DO8 buf 0 s)"

text \<open>The two inner loops: sixteen bytes at a time, then the rest.\<close>

fun adler32_by16 :: "nat \<Rightarrow> uint8 list \<Rightarrow> a32 \<Rightarrow> nat \<times> uint8 list \<times> a32" where
  "adler32_by16 k buf s =
     (if k \<ge> 16 then adler32_by16 (k - 16) (drop 16 buf) (A32_DO16 buf s) else (k, buf, s))"

declare adler32_by16.simps [simp del]

fun adler32_rest :: "nat \<Rightarrow> uint8 list \<Rightarrow> a32 \<Rightarrow> uint8 list \<times> a32" where
  "adler32_rest 0 buf s = (buf, s)"
| "adler32_rest (Suc k) buf s = adler32_rest k (drop 1 buf) (A32_DO1 buf 0 s)"

function adler32_loop :: "nat \<Rightarrow> uint8 list \<Rightarrow> a32 \<Rightarrow> a32" where
  "adler32_loop len buf s =
     (if len > 0 then
        let k = (if len < A32_NMAX then len else A32_NMAX);
            (k', buf', s') = adler32_by16 k buf s;
            (buf'', s1, s2) = adler32_rest k' buf' s'
        in adler32_loop (len - (if len < A32_NMAX then len else A32_NMAX)) buf''
             (s1 mod A32_BASE, s2 mod A32_BASE)
      else s)"
  by pat_completeness auto

termination adler32_loop
  by (relation "measure fst") (auto simp: A32_NMAX_def)

declare adler32_loop.simps [simp del]

text \<open>The buffer carries its length, so \<open>len\<close> is the length of the list.\<close>

definition adler32 :: "uint32 \<Rightarrow> uint8 list \<Rightarrow> uint32" where
  "adler32 adler buf =
     (case adler32_loop (length buf) buf (adler AND 0xffff, drop_bit 16 adler AND 0xffff) of
        (s1, s2) \<Rightarrow> push_bit 16 s2 OR s1)"

section \<open>The definition of RFC 1950\<close>

fun a32_step :: "nat \<times> nat \<Rightarrow> uint8 \<Rightarrow> nat \<times> nat" where
  "a32_step (a, b) x = ((a + unat x) mod 65521, (b + a + unat x) mod 65521)"

definition adler32_rfc1950 :: "nat \<times> nat \<Rightarrow> uint8 list \<Rightarrow> nat \<times> nat" where
  "adler32_rfc1950 s buf = foldl a32_step s buf"

section \<open>The loops as folds\<close>

definition a32_word :: "a32 \<Rightarrow> uint8 \<Rightarrow> a32" where
  "a32_word s x = (fst s + ucast x, snd s + (fst s + ucast x))"

definition a32_sum :: "nat \<times> nat \<Rightarrow> uint8 \<Rightarrow> nat \<times> nat" where
  "a32_sum s x = (fst s + unat x, snd s + (fst s + unat x))"

lemma A32_DO1_eq: "A32_DO1 buf i s = a32_word s (buf ! i)"
  by (cases s) (simp add: A32_DO1_def a32_word_def Let_def)

lemma A32_DO16_eq:
  assumes "16 \<le> length buf"
  shows "A32_DO16 buf s = foldl a32_word s (take 16 buf)"
proof -
  have "A32_DO16 buf s = foldl a32_word s (map ((!) buf) [0..<16])"
    by (simp add: A32_DO16_def A32_DO8_def A32_DO4_def A32_DO2_def A32_DO1_eq upt_rec numeral_eq_Suc)
  also have "map ((!) buf) [0..<16] = take 16 buf"
    using assms by (intro nth_equalityI) auto
  finally show ?thesis .
qed

lemma adler32_by16_eq:
  "k \<le> length buf \<Longrightarrow> \<exists>j. j \<le> k \<and>
    adler32_by16 k buf s = (k - j, drop j buf, foldl a32_word s (take j buf))"
proof (induction k buf s rule: adler32_by16.induct)
  case (1 k buf s)
  show ?case
  proof (cases "16 \<le> k")
    case True
    then obtain j where j: "j \<le> k - 16"
      "adler32_by16 (k - 16) (drop 16 buf) (A32_DO16 buf s) =
        (k - 16 - j, drop j (drop 16 buf), foldl a32_word (A32_DO16 buf s) (take j (drop 16 buf)))"
      using 1(1) [OF True] 1(2) by (metis diff_le_mono length_drop)
    show ?thesis
    proof (intro exI conjI)
      show "j + 16 \<le> k" using j(1) True by simp
      show "adler32_by16 k buf s =
        (k - (j + 16), drop (j + 16) buf, foldl a32_word s (take (j + 16) buf))"
        using True 1(2) j(2)
        by (subst adler32_by16.simps) (simp add: A32_DO16_eq add.commute [of j 16] take_add [of 16 j])
    qed
  next
    case False
    then show ?thesis by (intro exI [of _ 0]) (simp add: adler32_by16.simps)
  qed
qed

lemma adler32_rest_eq:
  "k \<le> length buf \<Longrightarrow> adler32_rest k buf s = (drop k buf, foldl a32_word s (take k buf))"
proof (induction k buf s rule: adler32_rest.induct)
  case (2 k buf s)
  then show ?case by (cases buf) (auto simp: A32_DO1_eq)
qed simp

lemma adler32_inner_eq:
  assumes "k \<le> length buf"
  shows "(case adler32_by16 k buf s of (k', buf', s') \<Rightarrow> adler32_rest k' buf' s') =
    (drop k buf, foldl a32_word s (take k buf))"
proof -
  obtain j where j: "j \<le> k" "adler32_by16 k buf s = (k - j, drop j buf, foldl a32_word s (take j buf))"
    using adler32_by16_eq [OF assms] by blast
  have "take k buf = take j buf @ take (k - j) (drop j buf)"
    using j(1) by (metis le_add_diff_inverse take_add)
  then show ?thesis
    using j assms by (simp add: adler32_rest_eq)
qed

section \<open>No overflow within a block\<close>

lemma a32_sum_pair [simp]: "a32_sum (a, b) x = (a + unat x, b + (a + unat x))"
  by (simp add: a32_sum_def)

definition a32_words :: "nat \<times> nat \<Rightarrow> a32" where
  "a32_words s = (of_nat (fst s), of_nat (snd s))"

lemma a32_word_step: "a32_word (a32_words s) x = a32_words (a32_sum s x)"
  by (simp add: a32_word_def a32_sum_def a32_words_def)

lemma a32_word_sum: "foldl a32_word (a32_words s) xs = a32_words (foldl a32_sum s xs)"
  by (induction xs arbitrary: s) (simp_all add: a32_word_step)

lemma a32_sum_bound:
  "fst (foldl a32_sum (a, b) xs) \<le> a + 255 * length xs \<and>
   2 * snd (foldl a32_sum (a, b) xs) \<le> 2 * b + 2 * length xs * a + 255 * (length xs * (length xs + 1))"
proof (induction xs arbitrary: a b)
  case (Cons x xs)
  let ?n = "length xs" and ?u = "unat x"
  have x: "?u \<le> 255" using unat_bound_8 [of x] by simp
  have "2 * (b + (a + ?u)) + 2 * ?n * (a + ?u) + 255 * (?n * (?n + 1)) =
      2 * b + 2 * Suc ?n * a + 2 * (Suc ?n * ?u) + 255 * (?n * (?n + 1))"
    by (simp add: algebra_simps)
  also have "\<dots> \<le> 2 * b + 2 * Suc ?n * a + 2 * (Suc ?n * 255) + 255 * (?n * (?n + 1))"
    using x by (intro add_mono mult_le_mono order_refl)
  also have "\<dots> = 2 * b + 2 * length (x # xs) * a + 255 * (length (x # xs) * (length (x # xs) + 1))"
    by (simp add: algebra_simps)
  finally show ?case
    using Cons [of "a + ?u" "b + (a + ?u)"] x
    unfolding foldl_Cons a32_sum_pair length_Cons by auto
qed simp

lemma a32_sum_no_overflow:
  assumes "a < 65536" and "b < 65536" and "length xs \<le> 5552"
  shows "fst (foldl a32_sum (a, b) xs) < 2 ^ 32" and "snd (foldl a32_sum (a, b) xs) < 2 ^ 32"
proof -
  let ?n = "length xs"
  have "fst (foldl a32_sum (a, b) xs) \<le> a + 255 * ?n"
    using a32_sum_bound by blast
  then show "fst (foldl a32_sum (a, b) xs) < 2 ^ 32" using assms by simp
  have "2 * snd (foldl a32_sum (a, b) xs) \<le> 2 * b + 2 * ?n * a + 255 * (?n * (?n + 1))"
    using a32_sum_bound by blast
  also have "\<dots> \<le> 2 * b + 2 * 5552 * 65535 + 255 * (5552 * 5553)"
    using assms by (intro add_mono mult_le_mono) simp_all
  finally show "snd (foldl a32_sum (a, b) xs) < 2 ^ 32" using assms(2) by simp
qed

lemma mod_nested: "(b + (a mod m + u)) mod m = (b + (a + u)) mod (m :: nat)"
  by (metis mod_add_left_eq mod_add_right_eq)

lemma a32_sum_mod:
  "foldl a32_step (a mod 65521, b mod 65521) xs =
    (fst (foldl a32_sum (a, b) xs) mod 65521, snd (foldl a32_sum (a, b) xs) mod 65521)"
proof (induction xs arbitrary: a b)
  case (Cons x xs)
  have "a32_step (a mod 65521, b mod 65521) x = ((a + unat x) mod 65521, (b + (a + unat x)) mod 65521)"
    by (simp add: mod_simps add.assoc mod_nested)
  with Cons show ?case by (simp del: a32_step.simps)
qed simp

lemma a32_step_mod_arg:
  "xs \<noteq> [] \<Longrightarrow> foldl a32_step (a, b) xs = foldl a32_step (a mod 65521, b mod 65521) xs"
  by (cases xs) (simp_all add: mod_simps add.assoc mod_nested)

lemma unat_mod_BASE: "unat (w mod A32_BASE) = unat w mod 65521"
  by (simp add: A32_BASE_def unat_mod)

text \<open>One round of the outer loop reduces to one fold with a reduction per byte.\<close>

lemma a32_block:
  assumes "unat s1 < 65536" and "unat s2 < 65536" and "length xs \<le> 5552" and "xs \<noteq> []"
    and "foldl a32_word (s1, s2) xs = (t1, t2)"
  shows "(unat (t1 mod A32_BASE), unat (t2 mod A32_BASE)) = foldl a32_step (unat s1, unat s2) xs"
proof -
  let ?r = "foldl a32_sum (unat s1, unat s2) xs"
  have "(s1, s2) = a32_words (unat s1, unat s2)" by (simp add: a32_words_def)
  then have t: "(t1, t2) = a32_words ?r" using assms(5) a32_word_sum by metis
  have "fst ?r < 2 ^ 32" and "snd ?r < 2 ^ 32"
    using a32_sum_no_overflow assms(1-3) by blast+
  with t have "unat t1 = fst ?r" and "unat t2 = snd ?r"
    by (simp_all add: a32_words_def unat_of_nat)
  then show ?thesis
    using a32_step_mod_arg [OF assms(4)] a32_sum_mod by (simp add: unat_mod_BASE)
qed

lemma a32_step_bound: "xs \<noteq> [] \<Longrightarrow> fst (foldl a32_step s xs) < 65521 \<and> snd (foldl a32_step s xs) < 65521"
proof (induction xs rule: rev_induct)
  case (snoc x xs)
  then show ?case by (cases "foldl a32_step s xs") simp
qed simp

lemma adler32_loop_eq:
  "len = length buf \<Longrightarrow> s = (s1, s2) \<Longrightarrow> unat s1 < 65536 \<Longrightarrow> unat s2 < 65536 \<Longrightarrow>
    map_prod unat unat (adler32_loop len buf s) = foldl a32_step (unat s1, unat s2) buf"
proof (induction len arbitrary: buf s s1 s2 rule: less_induct)
  case (less len)
  show ?case
  proof (cases "buf = []")
    case True
    then show ?thesis using less.prems by (simp add: adler32_loop.simps)
  next
    case False
    let ?k = "if len < A32_NMAX then len else A32_NMAX"
    have k: "?k \<le> length buf" "0 < len" "0 < ?k" "?k \<le> 5552"
      using False less.prems(1) by (auto simp: A32_NMAX_def)
    obtain k' buf' s' where b: "adler32_by16 ?k buf s = (k', buf', s')" by (metis prod_cases3)
    obtain t1 t2 where t: "foldl a32_word s (take ?k buf) = (t1, t2)" by fastforce
    have r: "adler32_rest k' buf' s' = (drop ?k buf, t1, t2)"
      using adler32_inner_eq [OF k(1), of s] by (simp only: b t prod.case)
    let ?u1 = "t1 mod A32_BASE" and ?u2 = "t2 mod A32_BASE"
    have u: "(unat ?u1, unat ?u2) = foldl a32_step (unat s1, unat s2) (take ?k buf)"
      using less.prems k t False by (intro a32_block) auto
    have "unat ?u1 < 65536" and "unat ?u2 < 65536" by (simp_all add: unat_mod_BASE less_trans [OF mod_less_divisor])
    then have "map_prod unat unat (adler32_loop (len - ?k) (drop ?k buf) (?u1, ?u2)) =
        foldl a32_step (unat ?u1, unat ?u2) (drop ?k buf)"
      using less.prems(1) k by (intro less.IH) simp_all
    also have "\<dots> = foldl a32_step (unat s1, unat s2) buf"
      by (simp only: u foldl_append [symmetric] append_take_drop_id)
    finally show ?thesis
      using k(2) by (subst adler32_loop.simps) (simp only: b r Let_def prod.case if_True)
  qed
qed

section \<open>Packing\<close>

definition a32_unpack :: "uint32 \<Rightarrow> nat \<times> nat" where
  "a32_unpack adler = (unat (adler AND 0xffff), unat (drop_bit 16 adler AND 0xffff))"

definition a32_pack :: "nat \<times> nat \<Rightarrow> uint32" where
  "a32_pack s = push_bit 16 (of_nat (snd s)) OR of_nat (fst s)"

lemma and_ffff: "w AND 0xffff = take_bit 16 (w :: uint32)"
  by (simp add: take_bit_eq_mask mask_eq_exp_minus_1)

lemma unat_take_bit_16: "unat (take_bit 16 (w :: uint32)) < 65536"
  by (simp add: unsigned_take_bit_eq take_bit_nat_less_exp [of 16, simplified])

lemma a32_unpack_bound: "fst (a32_unpack a) < 65536 \<and> snd (a32_unpack a) < 65536"
  by (simp only: a32_unpack_def fst_conv snd_conv and_ffff unat_take_bit_16 conj_absorb)

lemma a32_pack_unpack: "a32_pack (a32_unpack a) = a"
  unfolding a32_pack_def a32_unpack_def and_ffff
  by (simp, rule bit_word_eqI) (auto simp: bit_simps)

lemma a32_unpack_pack:
  assumes "a < 65536" and "b < 65536"
  shows "a32_unpack (a32_pack (a, b)) = (a, b)"
proof -
  let ?a = "of_nat a :: uint32" and ?b = "of_nat b :: uint32"
  have ab: "unat ?a = a" "unat ?b = b" using assms by (simp_all add: unat_of_nat)
  have t: "take_bit 16 ?a = ?a" "take_bit 16 ?b = ?b"
    using assms by (simp_all only: take_bit_of_nat) (simp_all add: take_bit_nat_eq_self)
  have "take_bit 16 (push_bit 16 ?b OR ?a) = take_bit 16 ?a"
    by (rule bit_word_eqI) (auto simp: bit_simps)
  moreover have "take_bit 16 (drop_bit 16 (push_bit 16 ?b OR take_bit 16 ?a)) = take_bit 16 ?b"
    by (rule bit_word_eqI) (auto simp: bit_simps)
  ultimately show ?thesis
    by (simp only: a32_unpack_def a32_pack_def and_ffff fst_conv snd_conv t ab)
qed

lemma adler32_eq: "adler32 adler buf = a32_pack (foldl a32_step (a32_unpack adler) buf)"
proof -
  let ?s = "(adler AND 0xffff, drop_bit 16 adler AND 0xffff)"
  obtain s1 s2 where s: "adler32_loop (length buf) buf ?s = (s1, s2)" by fastforce
  have "map_prod unat unat (adler32_loop (length buf) buf ?s) = foldl a32_step (a32_unpack adler) buf"
    using a32_unpack_bound [of adler] adler32_loop_eq [OF refl refl]
    by (simp add: a32_unpack_def)
  then have "(unat s1, unat s2) = foldl a32_step (a32_unpack adler) buf" by (simp add: s)
  then show ?thesis by (simp add: adler32_def s a32_pack_def flip: \<open>(unat s1, unat s2) = _\<close>)
qed

lemma a32_fold_bound:
  "fst s < 65536 \<and> snd s < 65536 \<Longrightarrow>
    fst (foldl a32_step s xs) < 65536 \<and> snd (foldl a32_step s xs) < 65536"
  using a32_step_bound [of xs s] by (cases "xs = []") auto

lemma a32_unpack_adler32: "a32_unpack (adler32 adler buf) = foldl a32_step (a32_unpack adler) buf"
proof -
  obtain a b where ab: "foldl a32_step (a32_unpack adler) buf = (a, b)" by fastforce
  have "a < 65536" and "b < 65536"
    using a32_fold_bound [OF a32_unpack_bound [of adler], of buf] by (simp_all add: ab)
  then show ?thesis by (simp add: adler32_eq ab a32_unpack_pack)
qed

section \<open>Properties\<close>

text \<open>C18: the unrolled checksum with its deferred reduction is the checksum of RFC 1950, for every
  starting value and every length: no 32-bit sum overflows within a block of \<open>A32_NMAX\<close> bytes.\<close>

theorem adler32_is_rfc1950:
  "a32_unpack (adler32 adler buf) = adler32_rfc1950 (a32_unpack adler) buf \<and>
   adler32 adler buf = a32_pack (adler32_rfc1950 (a32_unpack adler) buf)"
  unfolding a32_unpack_adler32 adler32_rfc1950_def by (simp add: adler32_eq)

text \<open>C19: checksumming a window in pieces gives the checksum of the window.\<close>

theorem adler32_append: "adler32 adler (xs @ ys) = adler32 (adler32 adler xs) ys"
  unfolding adler32_eq [of "adler32 adler xs"] a32_unpack_adler32 by (simp add: adler32_eq)

end
