(* ===== verification/Xd3_Types.thy ===== *)
theory Xd3_Types
  imports Xd3_Prelude
begin

text \<open>
  The types of \<open>xdelta3.h\<close>: instructions, sections, caches, the source and the stream object.  A
  pointer to a buffer together with its length is the list of the bytes it holds; a null pointer is
  \<open>None\<close>.  The stream is one C struct; here its fields are split over a base record with what the
  encoder and the decoder share and two extensions, declared with the components that own them
  (\<open>xd3_encoder\<close> in \<open>Xd3_Output\<close>, \<open>xd3_decoder\<close> in \<open>Xd3_Decode\<close>).
\<close>

section \<open>Constants\<close>

text \<open>Instruction types (\<open>XD3_CPY\<close> plus the address mode is a copy).\<close>

abbreviation (input) XD3_NOOP :: uint8 where "XD3_NOOP \<equiv> 0"
abbreviation (input) XD3_ADD :: uint8 where "XD3_ADD \<equiv> 1"
abbreviation (input) XD3_RUN :: uint8 where "XD3_RUN \<equiv> 2"
abbreviation (input) XD3_CPY :: uint8 where "XD3_CPY \<equiv> 3"

abbreviation (input) MIN_MATCH :: nat where "MIN_MATCH \<equiv> 4"
abbreviation (input) VCD_SELF :: usize_t where "VCD_SELF \<equiv> 0"
abbreviation (input) VCD_HERE :: usize_t where "VCD_HERE \<equiv> 1"

text \<open>Indicator bits of the header, of a window and of a delta.\<close>

abbreviation (input) VCD_SECONDARY :: usize_t where "VCD_SECONDARY \<equiv> 1"
abbreviation (input) VCD_CODETABLE :: usize_t where "VCD_CODETABLE \<equiv> 2"
abbreviation (input) VCD_APPHEADER :: usize_t where "VCD_APPHEADER \<equiv> 4"
abbreviation (input) VCD_SOURCE :: usize_t where "VCD_SOURCE \<equiv> 1"
abbreviation (input) VCD_TARGET :: usize_t where "VCD_TARGET \<equiv> 2"
abbreviation (input) VCD_SRCORTGT :: usize_t where "VCD_SRCORTGT \<equiv> 3"
abbreviation (input) VCD_ADLER32 :: usize_t where "VCD_ADLER32 \<equiv> 4"
abbreviation (input) VCD_DATACOMP :: usize_t where "VCD_DATACOMP \<equiv> 1"
abbreviation (input) VCD_INSTCOMP :: usize_t where "VCD_INSTCOMP \<equiv> 2"
abbreviation (input) VCD_ADDRCOMP :: usize_t where "VCD_ADDRCOMP \<equiv> 4"

text \<open>The flags of \<open>xd3_flags\<close>, by their bit.\<close>

abbreviation (input) XD3_JUST_HDR :: uint32 where "XD3_JUST_HDR \<equiv> 0x2"
abbreviation (input) XD3_SKIP_WINDOW :: uint32 where "XD3_SKIP_WINDOW \<equiv> 0x4"
abbreviation (input) XD3_SKIP_EMIT :: uint32 where "XD3_SKIP_EMIT \<equiv> 0x8"
abbreviation (input) XD3_FLUSH :: uint32 where "XD3_FLUSH \<equiv> 0x10"
abbreviation (input) XD3_SEC_DJW :: uint32 where "XD3_SEC_DJW \<equiv> 0x20"
abbreviation (input) XD3_SEC_FGK :: uint32 where "XD3_SEC_FGK \<equiv> 0x40"
abbreviation (input) XD3_SEC_NODATA :: uint32 where "XD3_SEC_NODATA \<equiv> 0x80"
abbreviation (input) XD3_SEC_NOINST :: uint32 where "XD3_SEC_NOINST \<equiv> 0x100"
abbreviation (input) XD3_SEC_NOADDR :: uint32 where "XD3_SEC_NOADDR \<equiv> 0x200"
abbreviation (input) XD3_SEC_NOALL :: uint32 where "XD3_SEC_NOALL \<equiv> 0x380"
abbreviation (input) XD3_ADLER32 :: uint32 where "XD3_ADLER32 \<equiv> 0x400"
abbreviation (input) XD3_ADLER32_NOVER :: uint32 where "XD3_ADLER32_NOVER \<equiv> 0x800"
abbreviation (input) XD3_NOCOMPRESS :: uint32 where "XD3_NOCOMPRESS \<equiv> 0x2000"
abbreviation (input) XD3_BEGREEDY :: uint32 where "XD3_BEGREEDY \<equiv> 0x4000"
abbreviation (input) XD3_ADLER32_RECODE :: uint32 where "XD3_ADLER32_RECODE \<equiv> 0x8000"
abbreviation (input) XD3_SEC_LZMA :: uint32 where "XD3_SEC_LZMA \<equiv> 0x1000000"
abbreviation (input) XD3_SEC_TYPE :: uint32 where "XD3_SEC_TYPE \<equiv> 0x1000060"

abbreviation (input) XD3_ALLOCSIZE :: usize_t where "XD3_ALLOCSIZE \<equiv> 0x4000"
abbreviation (input) XD3_HARDMAXWINSIZE :: usize_t where "XD3_HARDMAXWINSIZE \<equiv> 0x4000000"
abbreviation (input) USIZE_T_MAX :: usize_t where "USIZE_T_MAX \<equiv> - 1"
abbreviation (input) XOFF_T_MAX :: xoff_t where "XOFF_T_MAX \<equiv> - 1"

section \<open>States\<close>

datatype xd3_match_state = MATCH_TARGET | MATCH_BACKWARD | MATCH_FORWARD | MATCH_SEARCHING

datatype xd3_encode_state =
    ENC_INIT | ENC_INPUT | ENC_SEARCH | ENC_INSTR | ENC_FLUSH | ENC_POSTOUT | ENC_POSTWIN
  | ENC_ABORTED

datatype xd3_decode_state =
    DEC_VCHEAD | DEC_HDRIND | DEC_SECONDID | DEC_TABLEN | DEC_NEAR | DEC_SAME | DEC_TABDAT
  | DEC_APPLEN | DEC_APPDAT | DEC_WININD | DEC_CPYLEN | DEC_CPYOFF | DEC_ENCLEN | DEC_TGTLEN
  | DEC_DELIND | DEC_DATALEN | DEC_INSTLEN | DEC_ADDRLEN | DEC_CKSUM | DEC_DATA | DEC_INST
  | DEC_ADDR | DEC_EMIT | DEC_FINISH | DEC_ABORTED

datatype xd3_section_type = DATA_SECTION | INST_SECTION | ADDR_SECTION

section \<open>Instructions\<close>

text \<open>The raw form of an instruction, in the encoder's instruction buffer.\<close>

record xd3_rinst =
  ri_type :: uint8
  ri_xtra :: uint8
  ri_code1 :: uint8
  ri_code2 :: uint8
  ri_pos :: usize_t
  ri_size :: usize_t
  ri_addr :: xoff_t

text \<open>The form of the code table: one or two instructions.\<close>

record xd3_dinst =
  type1 :: uint8
  size1 :: uint8
  type2 :: uint8
  size2 :: uint8

text \<open>The decoded form of one half of an instruction.\<close>

record xd3_hinst =
  hi_type :: uint8
  hi_size :: usize_t
  hi_addr :: usize_t

section \<open>Caches, configurations and the source\<close>

record xd3_addr_cache =
  s_near :: usize_t
  s_same :: usize_t
  next_slot :: usize_t
  near_array :: "usize_t list"
  same_array :: "usize_t list"

record xd3_smatcher =
  sm_name :: string
  large_look :: usize_t
  large_step :: usize_t
  small_look :: usize_t
  small_chain :: usize_t
  small_lchain :: usize_t
  max_lazy :: usize_t
  long_enough :: usize_t

record xd3_hash_cfg =
  hc_size :: usize_t
  hc_shift :: usize_t
  hc_mask :: usize_t
  hc_look :: usize_t
  hc_multiplier :: usize_t
  hc_powers :: "usize_t list"

record xd3_sec_cfg =
  data_type :: xd3_section_type
  ngroups :: usize_t
  sector_size :: usize_t
  inefficient :: bool

text \<open>The source object.  \<open>curblk\<close> is the block the application holds in memory, when it has one.\<close>

record xd3_source =
  blksize :: usize_t
  max_winsize :: xoff_t
  curblkno :: xoff_t
  onblk :: usize_t
  curblk :: "uint8 list option"
  srclen :: usize_t
  srcbase :: xoff_t
  shiftby :: usize_t
  maskby :: usize_t
  cpyoff_blocks :: xoff_t
  cpyoff_blkoff :: usize_t
  getblkno :: xoff_t
  max_blkno :: xoff_t
  onlastblk :: usize_t
  eof_known :: bool

text \<open>
  A secondary compressor, the function pointers of \<open>xd3_sec_type\<close>.  The state of a section's
  compressor is represented by the sections it has coded so far, which determines it.  \<open>sec_init\<close>
  is the status of a new state's initialisation.  The decoder
  gets that history, the input bytes and the size of the output; it returns its status, the number
  of input bytes used and the output bytes.  The encoder gets history, configuration and input.
\<close>

record xd3_sec_type =
  sec_id :: uint8
  sec_flags :: uint8
  sec_init :: xd3_rvalue
  sec_decode :: "uint8 list list \<Rightarrow> uint8 list \<Rightarrow> usize_t \<Rightarrow> xd3_rvalue \<times> nat \<times> uint8 list"
  sec_encode :: "uint8 list list \<Rightarrow> xd3_sec_cfg \<Rightarrow> uint8 list \<Rightarrow> xd3_rvalue \<times> uint8 list"

section \<open>The stream\<close>

text \<open>
  \<open>avail_in\<close> is the length of \<open>next_in\<close>.  The allocator is an oracle: the \<open>n\<close>-th request of
  the stream succeeds when \<open>alloc n\<close>.
\<close>

record xd3_stream =
  next_in :: "uint8 list"
  total_in :: xoff_t
  avail_out :: usize_t
  space_out :: usize_t
  current_window :: xoff_t
  total_out :: xoff_t
  msg :: "string option"
  src :: "xd3_source option"
  winsize :: usize_t
  sprevsz :: usize_t
  sprevmask :: usize_t
  iopt_size :: usize_t
  iopt_unlimited :: bool
  getblk :: "(xd3_source \<Rightarrow> xoff_t \<Rightarrow> xd3_rvalue \<times> xd3_source) option"
  alloc :: "nat \<Rightarrow> bool"
  alloc_cnt :: nat
  flags :: uint32
  sec_data :: xd3_sec_cfg
  sec_inst :: xd3_sec_cfg
  sec_addr :: xd3_sec_cfg
  acache :: xd3_addr_cache
  enc_state :: xd3_encode_state
  dec_state :: xd3_decode_state
  code_table :: "xd3_dinst list"
  sec_type :: "xd3_sec_type option"
  sec_stream_d :: "uint8 list list option"
  sec_stream_i :: "uint8 list list option"
  sec_stream_a :: "uint8 list list option"

text \<open>
  The stream after \<open>memset (stream, 0, sizeof (*stream))\<close>, with an allocator that never fails.
\<close>

definition sec_cfg_zero :: xd3_sec_cfg where
  "sec_cfg_zero = \<lparr>data_type = DATA_SECTION, ngroups = 0, sector_size = 0, inefficient = False\<rparr>"

definition acache_zero :: xd3_addr_cache where
  "acache_zero = \<lparr>s_near = 0, s_same = 0, next_slot = 0, near_array = [], same_array = []\<rparr>"

definition stream_zero :: xd3_stream where
  "stream_zero =
     \<lparr> next_in = [], total_in = 0, avail_out = 0, space_out = 0, current_window = 0,
       total_out = 0, msg = None, src = None, winsize = 0, sprevsz = 0, sprevmask = 0,
       iopt_size = 0, iopt_unlimited = False, getblk = None, alloc = (\<lambda>_. True), alloc_cnt = 0,
       flags = 0, sec_data = sec_cfg_zero, sec_inst = sec_cfg_zero, sec_addr = sec_cfg_zero,
       acache = acache_zero, enc_state = ENC_INIT, dec_state = DEC_VCHEAD, code_table = [],
       sec_type = None, sec_stream_d = None, sec_stream_i = None, sec_stream_a = None \<rparr>"

section \<open>Allocation\<close>

text \<open>\<open>xd3_alloc\<close>: whether the request succeeds, and the message when it does not.\<close>

definition xd3_alloc :: "'a xd3_stream_scheme \<Rightarrow> bool \<times> 'a xd3_stream_scheme" where
  "xd3_alloc stream =
     (let s = stream\<lparr>alloc_cnt := alloc_cnt stream + 1\<rparr> in
      if alloc stream (alloc_cnt stream) then (True, s)
      else (False, s\<lparr>msg := Some ''out of memory''\<rparr>))"

text \<open>\<open>xd3_rtype_to_string\<close>.\<close>

definition xd3_rtype_to_string :: "uint8 \<Rightarrow> bool \<Rightarrow> string" where
  "xd3_rtype_to_string type print_mode =
     (if type = XD3_NOOP then ''NOOP ''
      else if type = XD3_RUN then ''RUN  ''
      else if type = XD3_ADD then ''ADD  ''
      else if \<not> print_mode then ''CPY  ''
      else if type = XD3_CPY + 0 then ''CPY_0''
      else if type = XD3_CPY + 1 then ''CPY_1''
      else if type = XD3_CPY + 2 then ''CPY_2''
      else if type = XD3_CPY + 3 then ''CPY_3''
      else if type = XD3_CPY + 4 then ''CPY_4''
      else if type = XD3_CPY + 5 then ''CPY_5''
      else if type = XD3_CPY + 6 then ''CPY_6''
      else if type = XD3_CPY + 7 then ''CPY_7''
      else if type = XD3_CPY + 8 then ''CPY_8''
      else if type = XD3_CPY + 9 then ''CPY_9''
      else ''CPY>9'')"

section \<open>The interface of the application\<close>

text \<open>What the application does between calls: supplying input, taking output, stopping.\<close>

definition xd3_avail_input :: "uint8 list \<Rightarrow> 'a xd3_stream_scheme \<Rightarrow> 'a xd3_stream_scheme" where
  "xd3_avail_input idata s = s\<lparr>next_in := idata\<rparr>"

definition xd3_consume_output :: "'a xd3_stream_scheme \<Rightarrow> 'a xd3_stream_scheme" where
  "xd3_consume_output s = s\<lparr>avail_out := 0\<rparr>"

definition xd3_set_flags :: "'a xd3_stream_scheme \<Rightarrow> uint32 \<Rightarrow> 'a xd3_stream_scheme" where
  "xd3_set_flags s f = s\<lparr>flags := f\<rparr>"

definition xd3_abort_stream :: "'a xd3_stream_scheme \<Rightarrow> 'a xd3_stream_scheme" where
  "xd3_abort_stream s = s\<lparr>dec_state := DEC_ABORTED, enc_state := ENC_ABORTED\<rparr>"

definition xd3_errstring :: "'a xd3_stream_scheme \<Rightarrow> string" where
  "xd3_errstring s = (case msg s of None \<Rightarrow> '''' | Some m \<Rightarrow> m)"

text \<open>The compressors that are built in are a parameter: one for each identifier, or none.\<close>

definition choose_secondary ::
  "(usize_t \<Rightarrow> xd3_sec_type option) \<Rightarrow> usize_t \<Rightarrow> string \<Rightarrow>
     'a xd3_stream_scheme \<Rightarrow> xd3_rvalue \<times> 'a xd3_stream_scheme" where
  "choose_secondary secs i name s =
     (case secs i of
        Some t \<Rightarrow> (XD3_OK, s\<lparr>sec_type := Some t\<rparr>)
      | None \<Rightarrow> (XD3_INTERNAL, s\<lparr>msg := Some (''unavailable secondary compressor: '' @ name)\<rparr>))"

section \<open>Flags\<close>

lemma flag_and_flag:
  "(w AND 2 ^ n \<noteq> 0) = bit (w :: 'a::len word) n"
  by (cases "n < LENGTH('a)")
    (auto simp: and_exp_eq_0_iff_not_bit dest: bit_imp_le_length)

end
