(* ===== verification/Xd3_CodeTable.thy ===== *)
theory Xd3_CodeTable
  imports Xd3_Types
begin

text \<open>
  The instruction code table of RFC 3284: its description, the function that expands a description,
  the static table of \<open>xdelta3.c\<close>, and the encoder's choice of codes.  Tables are lists of
  \<open>xd3_dinst\<close> entries.
\<close>

section \<open>Definitions\<close>

record xd3_code_table_sizes =
  cpy_max :: uint8
  cts_offset :: uint8
  cts_mult :: uint8

record xd3_code_table_desc =
  add_sizes :: uint8
  near_modes :: uint8
  same_modes :: uint8
  cpy_sizes :: uint8
  addcopy_add_max :: uint8
  addcopy_near_cpy_max :: uint8
  addcopy_same_cpy_max :: uint8
  copyadd_add_max :: uint8
  copyadd_near_cpy_max :: uint8
  copyadd_same_cpy_max :: uint8
  addcopy_max_sizes :: "xd3_code_table_sizes list"
  copyadd_max_sizes :: "xd3_code_table_sizes list"

definition rfc3284_code_table_desc :: xd3_code_table_desc where
  "rfc3284_code_table_desc =
     \<lparr> add_sizes = 17, near_modes = 4, same_modes = 3, cpy_sizes = 15,
       addcopy_add_max = 4, addcopy_near_cpy_max = 6, addcopy_same_cpy_max = 4,
       copyadd_add_max = 1, copyadd_near_cpy_max = 4, copyadd_same_cpy_max = 4,
       addcopy_max_sizes = map (\<lambda>(c, f, m). \<lparr>cpy_max = c, cts_offset = f, cts_mult = m\<rparr>)
         [(6, 163, 3), (6, 175, 3), (6, 187, 3), (6, 199, 3), (6, 211, 3), (6, 223, 3),
          (4, 235, 1), (4, 239, 1), (4, 243, 1)],
       copyadd_max_sizes = map (\<lambda>(c, f, m). \<lparr>cpy_max = c, cts_offset = f, cts_mult = m\<rparr>)
         [(4, 247, 1), (4, 248, 1), (4, 249, 1), (4, 250, 1), (4, 251, 1), (4, 252, 1),
          (4, 253, 1), (4, 254, 1), (4, 255, 1)] \<rparr>"

abbreviation DI :: "uint8 \<Rightarrow> uint8 \<Rightarrow> uint8 \<Rightarrow> uint8 \<Rightarrow> xd3_dinst" where
  "DI t1 s1 t2 s2 \<equiv> \<lparr>type1 = t1, size1 = s1, type2 = t2, size2 = s2\<rparr>"

text \<open>
  \<open>xd3_build_code_table\<close>: the entries written through \<open>d\<close>, in order, into a table that was zero
  before.  A C loop \<open>for (x = a; x <= b; x += 1)\<close> runs over \<open>upto8 a b\<close>; a bound of 255, for which
  the 8-bit counter would wrap for ever, is outside the model (\<open>desc_ok\<close>).
\<close>

definition upto8 :: "nat \<Rightarrow> nat \<Rightarrow> uint8 list" where
  "upto8 a b = map of_nat [a ..< Suc b]"

definition desc_ok :: "xd3_code_table_desc \<Rightarrow> bool" where
  "desc_ok desc \<longleftrightarrow> add_sizes desc < 255 \<and> addcopy_add_max desc < 255 \<and>
     copyadd_add_max desc < 255 \<and> unat (cpy_sizes desc) < 251 \<and>
     addcopy_near_cpy_max desc < 255 \<and> addcopy_same_cpy_max desc < 255 \<and>
     copyadd_near_cpy_max desc < 255 \<and> copyadd_same_cpy_max desc < 255 \<and>
     unat (near_modes desc) + unat (same_modes desc) < 253"

definition xd3_build_code_table :: "xd3_code_table_desc \<Rightarrow> xd3_dinst list" where
  "xd3_build_code_table desc =
     (let cpy_modes = 2 + unat (near_modes desc) + unat (same_modes desc);
          modes = map of_nat [0 ..< cpy_modes];
          near = (\<lambda>mode. unat mode < 2 + unat (near_modes desc))
      in [DI XD3_RUN 0 0 0, DI XD3_ADD 0 0 0] @
         map (\<lambda>size1. DI XD3_ADD size1 0 0) (upto8 1 (unat (add_sizes desc))) @
         concat (map (\<lambda>mode. DI (XD3_CPY + mode) 0 0 0 #
             map (\<lambda>size1. DI (XD3_CPY + mode) size1 0 0)
               (upto8 MIN_MATCH (MIN_MATCH + unat (cpy_sizes desc) - 1))) modes) @
         concat (map (\<lambda>mode. concat (map (\<lambda>size1.
             map (\<lambda>size2. DI XD3_ADD size1 (XD3_CPY + mode) size2)
               (upto8 MIN_MATCH (unat (if near mode then addcopy_near_cpy_max desc
                  else addcopy_same_cpy_max desc))))
             (upto8 1 (unat (addcopy_add_max desc))))) modes) @
         concat (map (\<lambda>mode. concat (map (\<lambda>size1.
             map (\<lambda>size2. DI (XD3_CPY + mode) size1 XD3_ADD size2)
               (upto8 1 (unat (copyadd_add_max desc))))
             (upto8 MIN_MATCH (unat (if near mode then copyadd_near_cpy_max desc
                else copyadd_same_cpy_max desc))))) modes))"

text \<open>The static table, entry by entry.\<close>

definition rfc3284_code_table :: "xd3_dinst list" where
  "rfc3284_code_table = [
    DI 2 0 0 0, DI 1 0 0 0, DI 1 1 0 0, DI 1 2 0 0, DI 1 3 0 0, DI 1 4 0 0, DI 1 5 0 0,
    DI 1 6 0 0, DI 1 7 0 0, DI 1 8 0 0, DI 1 9 0 0, DI 1 10 0 0, DI 1 11 0 0, DI 1 12 0 0,
    DI 1 13 0 0, DI 1 14 0 0, DI 1 15 0 0, DI 1 16 0 0, DI 1 17 0 0, DI 3 0 0 0, DI 3 4 0 0,
    DI 3 5 0 0, DI 3 6 0 0, DI 3 7 0 0, DI 3 8 0 0, DI 3 9 0 0, DI 3 10 0 0, DI 3 11 0 0,
    DI 3 12 0 0, DI 3 13 0 0, DI 3 14 0 0, DI 3 15 0 0, DI 3 16 0 0, DI 3 17 0 0, DI 3 18 0 0,
    DI 4 0 0 0, DI 4 4 0 0, DI 4 5 0 0, DI 4 6 0 0, DI 4 7 0 0, DI 4 8 0 0, DI 4 9 0 0,
    DI 4 10 0 0, DI 4 11 0 0, DI 4 12 0 0, DI 4 13 0 0, DI 4 14 0 0, DI 4 15 0 0, DI 4 16 0 0,
    DI 4 17 0 0, DI 4 18 0 0, DI 5 0 0 0, DI 5 4 0 0, DI 5 5 0 0, DI 5 6 0 0, DI 5 7 0 0,
    DI 5 8 0 0, DI 5 9 0 0, DI 5 10 0 0, DI 5 11 0 0, DI 5 12 0 0, DI 5 13 0 0, DI 5 14 0 0,
    DI 5 15 0 0, DI 5 16 0 0, DI 5 17 0 0, DI 5 18 0 0, DI 6 0 0 0, DI 6 4 0 0, DI 6 5 0 0,
    DI 6 6 0 0, DI 6 7 0 0, DI 6 8 0 0, DI 6 9 0 0, DI 6 10 0 0, DI 6 11 0 0, DI 6 12 0 0,
    DI 6 13 0 0, DI 6 14 0 0, DI 6 15 0 0, DI 6 16 0 0, DI 6 17 0 0, DI 6 18 0 0, DI 7 0 0 0,
    DI 7 4 0 0, DI 7 5 0 0, DI 7 6 0 0, DI 7 7 0 0, DI 7 8 0 0, DI 7 9 0 0, DI 7 10 0 0,
    DI 7 11 0 0, DI 7 12 0 0, DI 7 13 0 0, DI 7 14 0 0, DI 7 15 0 0, DI 7 16 0 0, DI 7 17 0 0,
    DI 7 18 0 0, DI 8 0 0 0, DI 8 4 0 0, DI 8 5 0 0, DI 8 6 0 0, DI 8 7 0 0, DI 8 8 0 0,
    DI 8 9 0 0, DI 8 10 0 0, DI 8 11 0 0, DI 8 12 0 0, DI 8 13 0 0, DI 8 14 0 0, DI 8 15 0 0,
    DI 8 16 0 0, DI 8 17 0 0, DI 8 18 0 0, DI 9 0 0 0, DI 9 4 0 0, DI 9 5 0 0, DI 9 6 0 0,
    DI 9 7 0 0, DI 9 8 0 0, DI 9 9 0 0, DI 9 10 0 0, DI 9 11 0 0, DI 9 12 0 0, DI 9 13 0 0,
    DI 9 14 0 0, DI 9 15 0 0, DI 9 16 0 0, DI 9 17 0 0, DI 9 18 0 0, DI 10 0 0 0, DI 10 4 0 0,
    DI 10 5 0 0, DI 10 6 0 0, DI 10 7 0 0, DI 10 8 0 0, DI 10 9 0 0, DI 10 10 0 0, DI 10 11 0 0,
    DI 10 12 0 0, DI 10 13 0 0, DI 10 14 0 0, DI 10 15 0 0, DI 10 16 0 0, DI 10 17 0 0,
    DI 10 18 0 0, DI 11 0 0 0, DI 11 4 0 0, DI 11 5 0 0, DI 11 6 0 0, DI 11 7 0 0, DI 11 8 0 0,
    DI 11 9 0 0, DI 11 10 0 0, DI 11 11 0 0, DI 11 12 0 0, DI 11 13 0 0, DI 11 14 0 0,
    DI 11 15 0 0, DI 11 16 0 0, DI 11 17 0 0, DI 11 18 0 0, DI 1 1 3 4, DI 1 1 3 5, DI 1 1 3 6,
    DI 1 2 3 4, DI 1 2 3 5, DI 1 2 3 6, DI 1 3 3 4, DI 1 3 3 5, DI 1 3 3 6, DI 1 4 3 4,
    DI 1 4 3 5, DI 1 4 3 6, DI 1 1 4 4, DI 1 1 4 5, DI 1 1 4 6, DI 1 2 4 4, DI 1 2 4 5,
    DI 1 2 4 6, DI 1 3 4 4, DI 1 3 4 5, DI 1 3 4 6, DI 1 4 4 4, DI 1 4 4 5, DI 1 4 4 6,
    DI 1 1 5 4, DI 1 1 5 5, DI 1 1 5 6, DI 1 2 5 4, DI 1 2 5 5, DI 1 2 5 6, DI 1 3 5 4,
    DI 1 3 5 5, DI 1 3 5 6, DI 1 4 5 4, DI 1 4 5 5, DI 1 4 5 6, DI 1 1 6 4, DI 1 1 6 5,
    DI 1 1 6 6, DI 1 2 6 4, DI 1 2 6 5, DI 1 2 6 6, DI 1 3 6 4, DI 1 3 6 5, DI 1 3 6 6,
    DI 1 4 6 4, DI 1 4 6 5, DI 1 4 6 6, DI 1 1 7 4, DI 1 1 7 5, DI 1 1 7 6, DI 1 2 7 4,
    DI 1 2 7 5, DI 1 2 7 6, DI 1 3 7 4, DI 1 3 7 5, DI 1 3 7 6, DI 1 4 7 4, DI 1 4 7 5,
    DI 1 4 7 6, DI 1 1 8 4, DI 1 1 8 5, DI 1 1 8 6, DI 1 2 8 4, DI 1 2 8 5, DI 1 2 8 6,
    DI 1 3 8 4, DI 1 3 8 5, DI 1 3 8 6, DI 1 4 8 4, DI 1 4 8 5, DI 1 4 8 6, DI 1 1 9 4,
    DI 1 2 9 4, DI 1 3 9 4, DI 1 4 9 4, DI 1 1 10 4, DI 1 2 10 4, DI 1 3 10 4, DI 1 4 10 4,
    DI 1 1 11 4, DI 1 2 11 4, DI 1 3 11 4, DI 1 4 11 4, DI 3 4 1 1, DI 4 4 1 1, DI 5 4 1 1,
    DI 6 4 1 1, DI 7 4 1 1, DI 8 4 1 1, DI 9 4 1 1, DI 10 4 1 1, DI 11 4 1 1]"

definition xd3_rfc3284_code_table :: "xd3_dinst list" where
  "xd3_rfc3284_code_table = rfc3284_code_table"

text \<open>
  \<open>xd3_choose_instruction\<close>: the single code of \<open>inst\<close> and, when \<open>prev\<close> and \<open>inst\<close> fit a double
  instruction, the double code, stored in \<open>prev\<close>.  The result is \<open>(prev, inst)\<close> updated.
\<close>

definition xd3_choose_instruction ::
  "xd3_rinst option \<Rightarrow> xd3_rinst \<Rightarrow> xd3_rinst option \<times> xd3_rinst" where
  "xd3_choose_instruction prev inst =
     (if ri_type inst = XD3_RUN then (prev, inst\<lparr>ri_code1 := 0\<rparr>)
      else if ri_type inst = XD3_ADD then
        if ri_size inst \<le> 17 then
          (case prev of
             Some p \<Rightarrow>
               if ri_size inst = 1 \<and> ri_size p = 4 \<and> ri_type p \<ge> XD3_CPY
               then Some (p\<lparr>ri_code2 := 247 + (ri_type p - XD3_CPY)\<rparr>) else prev
           | None \<Rightarrow> prev, inst\<lparr>ri_code1 := 1 + ucast (ri_size inst)\<rparr>)
        else (prev, inst\<lparr>ri_code1 := 1\<rparr>)
      else
        let mode = ri_type inst - XD3_CPY; code1 = 19 + 16 * mode in
        if ri_size inst \<le> 18 \<and> ri_size inst \<ge> 4 then
          (case prev of
             Some p \<Rightarrow>
               if ri_type p = XD3_ADD \<and> ri_size p \<le> 4 then
                 if ri_size inst \<le> 6 \<and> mode \<le> 5 then
                   Some (p\<lparr>ri_code2 := ucast (163 + (ucast mode * 12) + (3 * (ri_size p - 1)) +
                     (ri_size inst - 4))\<rparr>)
                 else if ri_size inst = 4 \<and> mode \<ge> 6 then
                   Some (p\<lparr>ri_code2 := ucast (235 + ((ucast mode - 6) * 4) + (ri_size p - 1))\<rparr>)
                 else prev
               else prev
           | None \<Rightarrow> prev, inst\<lparr>ri_code1 := code1 + ucast (ri_size inst - 3)\<rparr>)
        else (prev, inst\<lparr>ri_code1 := code1\<rparr>))"

section \<open>The table\<close>

lemma length_code_table: "length rfc3284_code_table = 256"
  by code_simp

lemma build_code_table: "xd3_build_code_table rfc3284_code_table_desc = rfc3284_code_table"
  by code_simp

text \<open>The regular layout of the table, region by region.\<close>

lemma table_run: "rfc3284_code_table ! 0 = DI XD3_RUN 0 0 0"
  by code_simp

lemma table_add: "\<forall>n \<in> set [0..<18]. rfc3284_code_table ! (1 + n) = DI XD3_ADD (of_nat n) 0 0"
  by code_simp

lemma table_copy0: "\<forall>m \<in> set [0..<9]. rfc3284_code_table ! (19 + 16 * m) = DI (of_nat (3 + m)) 0 0 0"
  by code_simp

lemma table_copy:
  "\<forall>m \<in> set [0..<9]. \<forall>n \<in> set [4..<19].
    rfc3284_code_table ! (19 + 16 * m + (n - 3)) = DI (of_nat (3 + m)) (of_nat n) 0 0"
  by code_simp

lemma table_add_copy:
  "\<forall>m \<in> set [0..<6]. \<forall>a \<in> set [1..<5]. \<forall>n \<in> set [4..<7].
    rfc3284_code_table ! (163 + m * 12 + 3 * (a - 1) + (n - 4)) =
      DI XD3_ADD (of_nat a) (of_nat (3 + m)) (of_nat n)"
  by code_simp

lemma table_add_copy_same:
  "\<forall>m \<in> set [6..<9]. \<forall>a \<in> set [1..<5].
    rfc3284_code_table ! (235 + (m - 6) * 4 + (a - 1)) = DI XD3_ADD (of_nat a) (of_nat (3 + m)) 4"
  by code_simp

lemma table_copy_add:
  "\<forall>m \<in> set [0..<9]. rfc3284_code_table ! (247 + m) = DI (of_nat (3 + m)) 4 XD3_ADD 1"
  by code_simp

text \<open>Every entry is well formed, which the decoder relies on.\<close>

definition dinst_ok :: "xd3_dinst \<Rightarrow> bool" where
  "dinst_ok d \<longleftrightarrow> type1 d < 12 \<and> type2 d < 12 \<and> type1 d \<noteq> XD3_NOOP \<and>
     (type1 d = XD3_RUN \<longrightarrow> size1 d = 0) \<and> (type2 d = XD3_NOOP \<or> size2 d \<noteq> 0)"

lemma table_entries_ok: "list_all dinst_ok rfc3284_code_table"
  by code_simp

section \<open>The choice of a code\<close>

lemma unat_of_nat_8: "n < 256 \<Longrightarrow> unat (of_nat n :: uint8) = n"
  by (simp add: unat_of_nat)

lemma word_cases_nat:
  fixes w :: "'a::len word"
  assumes "w \<le> of_nat k" and "k < 2 ^ LENGTH('a)"
  obtains n where "w = of_nat n" and "n \<le> k" and "unat w = n"
proof
  show "w = of_nat (unat w)" by simp
  show "unat w \<le> k"
    using assms by (simp add: word_le_nat_alt unat_of_nat)
qed simp

lemma ucast_small_down: "ucast (of_nat n :: usize_t) = (of_nat n :: uint8)" if "n < 256"
  using that by (simp add: word_unat_eq_iff unsigned_ucast_eq unat_of_nat take_bit_nat_eq_self)

lemma ucast_small_up: "ucast (of_nat n :: uint8) = (of_nat n :: usize_t)" if "n < 256"
  using that by (simp add: word_unat_eq_iff unsigned_ucast_eq unat_of_nat take_bit_nat_eq_self)

definition single_code_ok :: "xd3_rinst \<Rightarrow> bool" where
  "single_code_ok i \<longleftrightarrow>
     (let d = rfc3284_code_table ! unat (ri_code1 i)
      in type1 d = ri_type i \<and> type2 d = XD3_NOOP \<and> (size1 d = 0 \<or> ucast (size1 d) = ri_size i))"

definition double_code_ok :: "xd3_rinst \<Rightarrow> xd3_rinst \<Rightarrow> bool" where
  "double_code_ok p i \<longleftrightarrow>
     (let d = rfc3284_code_table ! unat (ri_code2 p)
      in type1 d = ri_type p \<and> ucast (size1 d) = ri_size p \<and>
         type2 d = ri_type i \<and> ucast (size2 d) = ri_size i \<and> size1 d \<noteq> 0 \<and> size2 d \<noteq> 0)"

lemma inst_type_cases:
  fixes t :: uint8
  obtains (noop) "t = XD3_NOOP" | (add) "t = XD3_ADD" | (run) "t = XD3_RUN" | (cpy) "XD3_CPY \<le> t"
proof -
  have "unat t = 0 \<or> unat t = 1 \<or> unat t = 2 \<or> 3 \<le> unat t" by linarith
  then show ?thesis
    by (auto simp: word_le_nat_alt word_unat_eq_iff intro: that)
qed

lemma copy_mode_cases:
  assumes "XD3_CPY \<le> t" and "t < 12"
  obtains m where "m < 9" and "t = of_nat (3 + m)" and "t - XD3_CPY = of_nat m"
proof
  have t: "3 \<le> unat t" "unat t < 12" using assms by (simp_all add: word_le_nat_alt word_less_nat_alt)
  then show "unat t - 3 < 9" by simp
  show "t = of_nat (3 + (unat t - 3))" using t by simp
  show "t - XD3_CPY = of_nat (unat t - 3)" using t by (simp add: of_nat_diff)
qed

lemma choose_run: "ri_type inst = XD3_RUN \<Longrightarrow> xd3_choose_instruction prev inst = (prev, inst\<lparr>ri_code1 := 0\<rparr>)"
  by (simp add: xd3_choose_instruction_def)

lemma choose_single_add:
  assumes "ri_type inst = XD3_ADD"
  shows "single_code_ok (snd (xd3_choose_instruction prev inst))"
proof (cases "ri_size inst \<le> 17")
  case True
  then obtain n where n: "ri_size inst = of_nat n" "n \<le> 17"
    using word_cases_nat [of "ri_size inst" 17] by auto
  have "unat (1 + of_nat n :: uint8) = 1 + n"
    using n(2) unat_of_nat_8 [of "1 + n"] by simp
  then show ?thesis
    using n assms True table_add
    by (simp add: xd3_choose_instruction_def single_code_ok_def ucast_small_down ucast_small_up Let_def)
next
  case False
  then show ?thesis
    using assms table_add by (simp add: xd3_choose_instruction_def single_code_ok_def Let_def)
qed

lemma choose_single_copy:
  assumes t: "XD3_CPY \<le> ri_type inst" "ri_type inst < 12"
  shows "single_code_ok (snd (xd3_choose_instruction prev inst))"
proof -
  obtain m where m: "m < 9" "ri_type inst = of_nat (3 + m)" "ri_type inst - XD3_CPY = of_nat m"
    using copy_mode_cases [OF t] by blast
  have neq: "ri_type inst \<noteq> XD3_RUN" "ri_type inst \<noteq> XD3_ADD"
    using t(1) by (auto simp: word_le_nat_alt)
  show ?thesis
  proof (cases "ri_size inst \<le> 18 \<and> ri_size inst \<ge> 4")
    case True
    then obtain n where n: "ri_size inst = of_nat n" "n \<le> 18" "unat (ri_size inst) = n"
      using word_cases_nat [of "ri_size inst" 18] by auto
    have n4: "4 \<le> n" using True n(3) by (simp add: word_le_nat_alt)
    then have "ri_size inst - 3 = of_nat (n - 3)" using n(1) by simp
    then have "ucast (ri_size inst - 3) = (of_nat (n - 3) :: uint8)"
      using n(2) by (simp only: ucast_small_down)
    then have "19 + 16 * of_nat m + ucast (ri_size inst - 3) = (of_nat (19 + 16 * m + (n - 3)) :: uint8)"
      by simp
    then have code: "unat (19 + 16 * of_nat m + ucast (ri_size inst - 3) :: uint8) = 19 + 16 * m + (n - 3)"
      using m(1) n(2) by (simp only: unat_of_nat_8)
    have "rfc3284_code_table ! (19 + 16 * m + (n - 3)) = DI (of_nat (3 + m)) (of_nat n) 0 0"
      using m(1) n(2) n4 by (intro table_copy [rule_format]) (simp_all only: set_upt atLeastLessThan_iff, simp_all)
    then show ?thesis
      using True m n(1,2) code neq
      by (simp add: xd3_choose_instruction_def single_code_ok_def ucast_small_up Let_def)
  next
    case False
    have "19 + 16 * of_nat m = (of_nat (19 + 16 * m) :: uint8)" by simp
    then have code: "unat (19 + 16 * of_nat m :: uint8) = 19 + 16 * m"
      using m(1) by (simp only: unat_of_nat_8)
    have "rfc3284_code_table ! (19 + 16 * m) = DI (of_nat (3 + m)) 0 0 0"
      using m(1) by (intro table_copy0 [rule_format]) simp
    then show ?thesis
      using False m code neq by (auto simp: xd3_choose_instruction_def single_code_ok_def Let_def)
  qed
qed

lemma choose_single:
  assumes t: "ri_type inst \<noteq> XD3_NOOP" "ri_type inst < 12"
  shows "single_code_ok (snd (xd3_choose_instruction prev inst))"
  using assms choose_single_add choose_single_copy
  by (cases "ri_type inst" rule: inst_type_cases)
    (simp_all add: choose_run single_code_ok_def table_run)

text \<open>The double codes: a copy of four bytes before an add of one, and an add before a copy.\<close>

lemma choose_double_add:
  assumes i: "ri_type inst = XD3_ADD" "ri_size inst = 1"
    and p: "ri_size p = 4" "XD3_CPY \<le> ri_type p" "ri_type p < 12"
  shows "\<exists>p'. fst (xd3_choose_instruction (Some p) inst) = Some p' \<and>
    p' = p\<lparr>ri_code2 := ri_code2 p'\<rparr> \<and> double_code_ok p' inst"
proof -
  obtain m where m: "m < 9" "ri_type p = of_nat (3 + m)" "ri_type p - XD3_CPY = of_nat m"
    using copy_mode_cases [OF p(2,3)] by blast
  have "247 + of_nat m = (of_nat (247 + m) :: uint8)" by simp
  then have code: "unat (247 + of_nat m :: uint8) = 247 + m"
    using m(1) by (simp only: unat_of_nat_8)
  have "rfc3284_code_table ! (247 + m) = DI (of_nat (3 + m)) 4 XD3_ADD 1"
    using m(1) by (intro table_copy_add [rule_format]) simp
  then show ?thesis
    using m i p code by (simp add: xd3_choose_instruction_def double_code_ok_def Let_def)
qed

lemma choose_double_copy:
  assumes t: "XD3_CPY \<le> ri_type inst" "ri_type inst < 12" "4 \<le> ri_size inst"
    and p: "ri_type p = XD3_ADD" "ri_size p \<le> 4" "ri_size p \<noteq> 0"
    and c: "fst (xd3_choose_instruction (Some p) inst) \<noteq> Some p"
  shows "\<exists>p'. fst (xd3_choose_instruction (Some p) inst) = Some p' \<and>
    p' = p\<lparr>ri_code2 := ri_code2 p'\<rparr> \<and> double_code_ok p' inst"
proof -
  obtain m where m: "m < 9" "ri_type inst = of_nat (3 + m)" "ri_type inst - XD3_CPY = of_nat m"
    using copy_mode_cases [OF t(1,2)] by blast
  have neq: "ri_type inst \<noteq> XD3_RUN" "ri_type inst \<noteq> XD3_ADD"
    using t(1) by (auto simp: word_le_nat_alt)
  obtain a where a: "ri_size p = of_nat a" "a \<le> 4" "unat (ri_size p) = a"
    using word_cases_nat [of "ri_size p" 4] p(2) by auto
  have a1: "1 \<le> a" using p(3) a(3) by (cases "a = 0") (auto simp only: unat_eq_0)
  have um: "(ucast (of_nat m :: uint8) :: usize_t) = of_nat m" using m(1) by (simp add: ucast_small_up)
  show ?thesis
  proof (cases "ri_size inst \<le> 6 \<and> ri_type inst - XD3_CPY \<le> 5")
    case True
    then obtain n where n: "ri_size inst = of_nat n" "n \<le> 6" "unat (ri_size inst) = n"
      using word_cases_nat [of "ri_size inst" 6] by auto
    have n4: "4 \<le> n" using t(3) n(3) by (simp add: word_le_nat_alt)
    have m5: "m < 6" using True m(1) by (simp add: m(3) word_le_nat_alt unat_of_nat_8)
    define c where "c = 163 + m * 12 + 3 * (a - 1) + (n - 4)"
    have "163 + of_nat m * 12 + 3 * (ri_size p - 1) + (ri_size inst - 4) = (of_nat c :: usize_t)"
      using a(1) a1 n(1) n4 by (simp add: c_def of_nat_diff)
    then have code: "ucast (163 + of_nat m * 12 + 3 * (ri_size p - 1) + (ri_size inst - 4) :: usize_t) = (of_nat c :: uint8)"
      using m5 a(2) n(2) by (simp add: ucast_small_down c_def del: of_nat_add of_nat_mult of_nat_numeral)
    have uc: "unat (of_nat c :: uint8) = c"
      using m5 a(2) n(2) by (intro unat_of_nat_8) (simp add: c_def)
    have tb: "rfc3284_code_table ! c = DI XD3_ADD (of_nat a) (of_nat (3 + m)) (of_nat n)"
      using m5 a1 a(2) n(2) n4 unfolding c_def by (intro table_add_copy [rule_format]) (simp_all only: set_upt atLeastLessThan_iff, simp_all)
    have le18: "ri_size inst \<le> 18" using True by (auto simp: word_le_nat_alt)
    have ch: "fst (xd3_choose_instruction (Some p) inst) = Some (p\<lparr>ri_code2 := of_nat c\<rparr>)"
      using True t(3) p neq m(3) um code le18
      by (simp only: xd3_choose_instruction_def Let_def if_True if_False simp_thms option.case fst_conv)
    have nz: "(of_nat a :: uint8) \<noteq> 0" "(of_nat n :: uint8) \<noteq> 0"
      using unat_of_nat_8 [of a] unat_of_nat_8 [of n] a(2) a1 n(2) n4 by auto
    show ?thesis
      unfolding ch using a(2) m(1) n(2)
      by (intro exI [of _ "p\<lparr>ri_code2 := of_nat c\<rparr>"] conjI refl)
        (simp_all add: double_code_ok_def Let_def uc tb p(1) a(1) n(1) m(2) nz ucast_small_up)
  next
    case False
    have big: "\<not> (ri_size inst = 4 \<and> ri_type inst - XD3_CPY \<le> 5)"
      using False by (auto simp: word_le_nat_alt)
    have four: "ri_size inst = 4 \<and> 6 \<le> ri_type inst - XD3_CPY"
    proof (rule ccontr)
      assume "\<not> ?thesis"
      then have "fst (xd3_choose_instruction (Some p) inst) = Some p"
        using False p neq by (auto simp: xd3_choose_instruction_def Let_def)
      with c show False by simp
    qed
    then have m6: "6 \<le> m" using m(1) by (simp add: m(3) word_le_nat_alt unat_of_nat_8)
    define c where "c = 235 + (m - 6) * 4 + (a - 1)"
    have "235 + (of_nat m - 6) * 4 + (ri_size p - 1) = (of_nat c :: usize_t)"
      using a(1) a1 m6 by (simp add: c_def of_nat_diff)
    then have code: "ucast (235 + (of_nat m - 6) * 4 + (ri_size p - 1) :: usize_t) = (of_nat c :: uint8)"
      using m(1) a(2) by (simp add: ucast_small_down c_def del: of_nat_add of_nat_mult of_nat_numeral)
    have uc: "unat (of_nat c :: uint8) = c"
      using m(1) a(2) by (intro unat_of_nat_8) (simp add: c_def)
    have tb: "rfc3284_code_table ! c = DI XD3_ADD (of_nat a) (of_nat (3 + m)) 4"
      using m(1) m6 a1 a(2) unfolding c_def by (intro table_add_copy_same [rule_format]) (simp_all only: set_upt atLeastLessThan_iff, simp_all)
    have le18: "ri_size inst \<le> 18" using four by (auto simp: word_le_nat_alt)
    have ch: "fst (xd3_choose_instruction (Some p) inst) = Some (p\<lparr>ri_code2 := of_nat c\<rparr>)"
      using four big False t(3) p neq m(3) um code le18
      by (simp only: xd3_choose_instruction_def Let_def if_True if_False simp_thms option.case fst_conv)
    have nz: "(of_nat a :: uint8) \<noteq> 0"
      using unat_of_nat_8 [of a] a(2) a1 by auto
    show ?thesis
      unfolding ch using a(2) m(1)
      by (intro exI [of _ "p\<lparr>ri_code2 := of_nat c\<rparr>"] conjI refl)
        (simp_all add: double_code_ok_def Let_def uc tb p(1) a(1) m(2) four nz ucast_small_up)
  qed
qed

lemma choose_codes:
  assumes "ri_type inst \<noteq> XD3_NOOP" "ri_type inst < 12"
    and "ri_type p < 12" and "ri_size p \<noteq> 0"
    and "xd3_choose_instruction (Some p) inst = (prev', inst')"
  shows "single_code_ok inst' \<and> inst' = inst\<lparr>ri_code1 := ri_code1 inst'\<rparr> \<and>
    (prev' = Some p \<or>
      (\<exists>p'. prev' = Some p' \<and> p' = p\<lparr>ri_code2 := ri_code2 p'\<rparr> \<and> double_code_ok p' inst'))"
proof (intro conjI)
  show "single_code_ok inst'" using choose_single [OF assms(1,2), of "Some p"] assms(5) by simp
  show inst': "inst' = inst\<lparr>ri_code1 := ri_code1 inst'\<rparr>"
    using assms(5) by (auto simp: xd3_choose_instruction_def Let_def split: if_splits)
  have dbl: "double_code_ok p' inst' = double_code_ok p' inst" for p'
    by (subst inst') (simp add: double_code_ok_def)
  show "prev' = Some p \<or>
    (\<exists>p'. prev' = Some p' \<and> p' = p\<lparr>ri_code2 := ri_code2 p'\<rparr> \<and> double_code_ok p' inst')"
  proof (cases "prev' = Some p")
    case False
    then have c: "fst (xd3_choose_instruction (Some p) inst) \<noteq> Some p" using assms(5) by simp
    show ?thesis
    proof (cases "XD3_CPY \<le> ri_type inst")
      case True
      then have "ri_type p = XD3_ADD \<and> ri_size p \<le> 4 \<and> 4 \<le> ri_size inst"
        using c by (auto simp: xd3_choose_instruction_def Let_def word_le_nat_alt split: if_splits)
      then show ?thesis
        using choose_double_copy [OF True assms(2) _ _ _ assms(4) c] assms(5) True by (simp add: dbl)
    next
      case not_copy: False
      have "ri_type inst = XD3_ADD"
        using not_copy assms(1) c by (cases "ri_type inst" rule: inst_type_cases) (auto simp: choose_run)
      moreover have "ri_size inst = 1 \<and> ri_size p = 4 \<and> XD3_CPY \<le> ri_type p"
        using c calculation by (auto simp: xd3_choose_instruction_def split: if_splits)
      ultimately show ?thesis
        using choose_double_add [of inst p] assms(3,5) by (simp add: dbl)
    qed
  qed simp
qed

section \<open>Properties\<close>


text \<open>C16: the codes the encoder chooses decode to the instructions they were chosen for.  The single
  code names the type of the instruction and either its size or no size; when a double code is
  stored in the previous instruction, the table entry describes exactly the two instructions; and
  nothing but the code fields changes.\<close>

theorem choose_instruction_codes:
  assumes "ri_type inst \<noteq> XD3_NOOP" "ri_type inst < 12"
    and "ri_type p < 12" and "ri_size p \<noteq> 0"
    and "xd3_choose_instruction (Some p) inst = (prev', inst')"
  shows "single_code_ok inst' \<and> inst' = inst\<lparr>ri_code1 := ri_code1 inst'\<rparr> \<and>
    (prev' = Some p \<or>
      (\<exists>p'. prev' = Some p' \<and> p' = p\<lparr>ri_code2 := ri_code2 p'\<rparr> \<and> double_code_ok p' inst'))"
  by (rule choose_codes [OF assms])

theorem choose_instruction_codes_witness:
  "ri_code2 (the (fst (xd3_choose_instruction
      (Some \<lparr>ri_type = 1, ri_xtra = 0, ri_code1 = 4, ri_code2 = 0, ri_pos = 0, ri_size = 3, ri_addr = 0\<rparr>)
      \<lparr>ri_type = 5, ri_xtra = 0, ri_code1 = 0, ri_code2 = 0, ri_pos = 3, ri_size = 5, ri_addr = 9\<rparr>))) = 194"
proof -
  let ?p = "\<lparr>ri_type = 1, ri_xtra = 0, ri_code1 = 4, ri_code2 = 0, ri_pos = 0, ri_size = 3, ri_addr = 0\<rparr>"
  let ?i = "\<lparr>ri_type = 5, ri_xtra = 0, ri_code1 = 0, ri_code2 = 0, ri_pos = 3, ri_size = 5, ri_addr = 9\<rparr>"
  have c: "xd3_choose_instruction (Some ?p) ?i = (Some (?p\<lparr>ri_code2 := 194\<rparr>), ?i\<lparr>ri_code1 := 53\<rparr>)"
    by code_simp
  have "single_code_ok (?i\<lparr>ri_code1 := 53\<rparr>)"
    using choose_instruction_codes [OF _ _ _ _ c] by simp
  then show ?thesis by (simp add: c)
qed

end
