(* ===== verification/Xd3_Output.thy ===== *)
theory Xd3_Output
  imports Xd3_Types Xd3_Int
begin

text \<open>
  The encoder's output: chains of pages that are taken from a free list or allocated, and the
  functions that append bytes and integers to a chain.  The chain from a head to its tail is the
  list of its pages, the tail last.  Below the operations stands what a chain is for its users: the
  string of bytes it holds.
\<close>

section \<open>Definitions\<close>

text \<open>
  A page: \<open>out_base\<close> holds the bytes \<open>base[0] .. base[next - 1]\<close>, so \<open>next\<close> is its length, and
  \<open>out_avail\<close> is the room of the page.
\<close>

record xd3_output =
  out_base :: "uint8 list"
  out_avail :: usize_t

text \<open>The four sections, the indices of \<open>enc_heads\<close> and \<open>enc_tails\<close>.\<close>

datatype xd3_sect = HDR | DATA | INST | ADDR

record xd3_outputs = xd3_stream +
  enc_free :: "xd3_output list"
  enc_chain :: "xd3_sect \<Rightarrow> xd3_output list"

definition outputs_zero :: xd3_outputs where
  "outputs_zero = xd3_stream.extend stream_zero (xd3_outputs.fields [] (\<lambda>_. []))"

definition xd3_alloc_output ::
  "'a xd3_outputs_scheme \<Rightarrow> xd3_output option \<times> 'a xd3_outputs_scheme" where
  "xd3_alloc_output stream =
     (case enc_free stream of
        output # free \<Rightarrow> (Some (output\<lparr>out_base := []\<rparr>), stream\<lparr>enc_free := free\<rparr>)
      | [] \<Rightarrow>
          (case xd3_alloc stream of
             (False, s) \<Rightarrow> (None, s)
           | (True, s) \<Rightarrow>
               (case xd3_alloc s of
                  (False, s) \<Rightarrow> (None, s)
                | (True, s) \<Rightarrow> (Some \<lparr>out_base = [], out_avail = XD3_ALLOCSIZE\<rparr>, s))))"

definition xd3_sizeof_output :: "xd3_output list \<Rightarrow> usize_t" where
  "xd3_sizeof_output output = foldl (\<lambda>s p. s + of_nat (length (out_base p))) 0 output"

text \<open>\<open>xd3_freelist_output\<close>: each page in turn is emptied and put in front of the free list.\<close>

fun xd3_freelist_output :: "'a xd3_outputs_scheme \<Rightarrow> xd3_output list \<Rightarrow> 'a xd3_outputs_scheme" where
  "xd3_freelist_output stream [] = stream"
| "xd3_freelist_output stream (tmp # output) =
     xd3_freelist_output (stream\<lparr>enc_free := tmp\<lparr>out_base := []\<rparr> # enc_free stream\<rparr>) output"

text \<open>
  The tail with room for a byte: the test \<open>output->next == output->avail\<close> and the page allocated
  when it holds.  A null tail, or a page filled beyond its room, is undefined.
\<close>

definition xd3_tail_room ::
  "'a xd3_outputs_scheme \<Rightarrow> xd3_output list \<Rightarrow>
     xd3_rvalue \<times> 'a xd3_outputs_scheme \<times> xd3_output list" where
  "xd3_tail_room stream outputp =
     (if outputp = [] \<or> length (out_base (last outputp)) > unat (out_avail (last outputp))
      then (C_UNDEFINED, stream, outputp)
      else if length (out_base (last outputp)) = unat (out_avail (last outputp)) then
        (case xd3_alloc_output stream of
           (None, s) \<Rightarrow> (ENOMEM, s, outputp)
         | (Some aoutput, s) \<Rightarrow> (XD3_OK, s, outputp @ [aoutput]))
      else (XD3_OK, stream, outputp))"

definition xd3_tail_write :: "xd3_output list \<Rightarrow> uint8 list \<Rightarrow> xd3_output list" where
  "xd3_tail_write outputp bs =
     butlast outputp @ [(last outputp)\<lparr>out_base := out_base (last outputp) @ bs\<rparr>]"

definition xd3_emit_byte ::
  "'a xd3_outputs_scheme \<Rightarrow> xd3_output list \<Rightarrow> uint8 \<Rightarrow>
     xd3_rvalue \<times> 'a xd3_outputs_scheme \<times> xd3_output list" where
  "xd3_emit_byte stream outputp code =
     (case xd3_tail_room stream outputp of
        (ret, s, chain) \<Rightarrow>
          if ret \<noteq> XD3_OK then (ret, s, chain)
          else if length (out_base (last chain)) \<ge> unat (out_avail (last chain))
          then (C_UNDEFINED, s, chain)
          else (XD3_OK, s, xd3_tail_write chain [code]))"

text \<open>
  \<open>xd3_emit_bytes\<close>: the body of its \<open>do\<close> loop runs at least once.  It ends because a round that
  copies nothing took a page without room from the free list.
\<close>

definition tail_take :: "xd3_output list \<Rightarrow> uint8 list \<Rightarrow> nat" where
  "tail_take chain base =
     min (unat (out_avail (last chain)) - length (out_base (last chain))) (length base)"

function (domintros) xd3_emit_bytes ::
  "'a xd3_outputs_scheme \<Rightarrow> xd3_output list \<Rightarrow> uint8 list \<Rightarrow>
     xd3_rvalue \<times> 'a xd3_outputs_scheme \<times> xd3_output list" where
  "xd3_emit_bytes stream outputp base =
     (case xd3_tail_room stream outputp of
        (ret, s, chain) \<Rightarrow>
          if ret \<noteq> XD3_OK then (ret, s, chain)
          else
            let n = tail_take chain base;
                chain' = xd3_tail_write chain (take n base)
            in if drop n base \<noteq> [] then xd3_emit_bytes s chain' (drop n base)
               else (XD3_OK, s, chain'))"
  by pat_completeness auto

lemma xd3_alloc_output_cases:
  assumes "xd3_alloc_output stream = (r, s)"
  shows "(\<exists>p free. enc_free stream = p # free \<and> r = Some (p\<lparr>out_base := []\<rparr>) \<and> s = stream\<lparr>enc_free := free\<rparr>) \<or>
    (enc_free stream = [] \<and> enc_free s = [] \<and> (\<exists>n m. s = stream\<lparr>alloc_cnt := n, msg := m\<rparr>) \<and>
      (r = None \<or> r = Some \<lparr>out_base = [], out_avail = XD3_ALLOCSIZE\<rparr>))"
proof (cases "enc_free stream")
  case Nil
  moreover have "\<exists>n m. s = stream\<lparr>alloc_cnt := n, msg := m\<rparr>"
    using assms Nil
    by (cases stream) (auto simp: xd3_alloc_output_def xd3_alloc_def Let_def split: if_splits)
  ultimately show ?thesis
    using assms
    by (auto simp: xd3_alloc_output_def xd3_alloc_def Let_def split: if_splits)
qed (use assms in \<open>auto simp: xd3_alloc_output_def\<close>)

lemma xd3_tail_room_progress:
  assumes "xd3_tail_room stream outputp = (XD3_OK, s, chain)" and "drop (tail_take chain base) base \<noteq> []"
  shows "length (drop (tail_take chain base) base) < length base \<or>
    tail_take chain base = 0 \<and> length (enc_free s) < length (enc_free stream)"
proof (cases "tail_take chain base = 0")
  case True
  with assms have "base \<noteq> []" by auto
  with True have full: "unat (out_avail (last chain)) \<le> length (out_base (last chain))"
    by (simp add: tail_take_def min_def split: if_splits)
  show ?thesis
  proof (cases "xd3_alloc_output stream")
    case (Pair r t)
    from xd3_alloc_output_cases [OF this] True assms full show ?thesis
      by (auto simp: xd3_tail_room_def Pair split: if_splits)
  qed
next
  case False
  then have "0 < length base" by (auto simp: tail_take_def)
  with False show ?thesis by simp
qed

termination xd3_emit_bytes
proof (relation "measures [\<lambda>(stream, outputp, base). length base,
    \<lambda>(stream, outputp, base). length (enc_free stream)]", goal_cases)
  case prems: (2 stream outputp base x y s chain)
  then have room: "xd3_tail_room stream outputp = (XD3_OK, s, chain)" by simp
  from prems have "drop (tail_take chain base) base \<noteq> []" by simp
  from xd3_tail_room_progress [OF room this] show ?case
    using prems by auto
qed simp

declare xd3_emit_bytes.simps [simp del]

text \<open>The integers.\<close>

definition xd3_emit_uint32_out ::
  "'a xd3_outputs_scheme \<Rightarrow> xd3_output list \<Rightarrow> uint32 \<Rightarrow>
     xd3_rvalue \<times> 'a xd3_outputs_scheme \<times> xd3_output list" where
  "xd3_emit_uint32_out stream output num = xd3_emit_bytes stream output (xd3_emit_uint32_t num)"

definition xd3_emit_size ::
  "'a xd3_outputs_scheme \<Rightarrow> xd3_output list \<Rightarrow> usize_t \<Rightarrow>
     xd3_rvalue \<times> 'a xd3_outputs_scheme \<times> xd3_output list" where
  "xd3_emit_size stream output num = xd3_emit_bytes stream output (xd3_emit_size_bytes num)"

definition xd3_emit_offset ::
  "'a xd3_outputs_scheme \<Rightarrow> xd3_output list \<Rightarrow> xoff_t \<Rightarrow>
     xd3_rvalue \<times> 'a xd3_outputs_scheme \<times> xd3_output list" where
  "xd3_emit_offset stream output num = xd3_emit_bytes stream output (xd3_emit_uint64_t num)"

text \<open>An emission into one of the sections of the stream, through its tail pointer.\<close>

definition xd3_to_section ::
  "xd3_sect \<Rightarrow> ('a xd3_outputs_scheme \<Rightarrow> xd3_output list \<Rightarrow>
     xd3_rvalue \<times> 'a xd3_outputs_scheme \<times> xd3_output list) \<Rightarrow>
   'a xd3_outputs_scheme \<Rightarrow> xd3_rvalue \<times> 'a xd3_outputs_scheme" where
  "xd3_to_section sect f stream =
     (case f stream (enc_chain stream sect) of
        (ret, s, chain) \<Rightarrow> (ret, s\<lparr>enc_chain := (enc_chain s)(sect := chain)\<rparr>))"

section \<open>The bytes of a chain\<close>

definition chain_bytes :: "xd3_output list \<Rightarrow> uint8 list" where
  "chain_bytes output = concat (map out_base output)"

definition chain_ok :: "xd3_output list \<Rightarrow> bool" where
  "chain_ok output \<longleftrightarrow> output \<noteq> [] \<and> list_all (\<lambda>p. length (out_base p) \<le> unat (out_avail p)) output"

text \<open>Every free page has room; \<open>xd3_alloc_output\<close> never makes a page without.\<close>

definition free_ok :: "'a xd3_outputs_scheme \<Rightarrow> bool" where
  "free_ok stream \<longleftrightarrow> list_all (\<lambda>p. out_avail p \<noteq> 0) (enc_free stream)"

text \<open>What an emission may change besides the chain.\<close>

definition out_frame :: "'a xd3_outputs_scheme \<Rightarrow> 'a xd3_outputs_scheme \<Rightarrow> bool" where
  "out_frame s t \<longleftrightarrow> (\<exists>n m f. t = s\<lparr>alloc_cnt := n, msg := m, enc_free := f\<rparr>)"

lemma out_frame_refl [simp]: "out_frame s s"
  unfolding out_frame_def by (intro exI [of _ "alloc_cnt s"] exI [of _ "msg s"] exI [of _ "enc_free s"]) simp

lemma out_frame_trans: "out_frame s t \<Longrightarrow> out_frame t u \<Longrightarrow> out_frame s u"
  unfolding out_frame_def by (elim exE) (intro exI, simp)

lemma chain_bytes_write: "chain \<noteq> [] \<Longrightarrow> chain_bytes (xd3_tail_write chain bs) = chain_bytes chain @ bs"
  by (induction chain rule: rev_induct) (simp_all add: chain_bytes_def xd3_tail_write_def)

lemma chain_ok_write:
  assumes "chain_ok chain" and "length (out_base (last chain)) + length bs \<le> unat (out_avail (last chain))"
  shows "chain_ok (xd3_tail_write chain bs)"
  using assms
  by (cases chain rule: rev_cases) (auto simp: chain_ok_def xd3_tail_write_def)

lemma xd3_alloc_output_ok:
  assumes "xd3_alloc_output stream = (r, s)" and "free_ok stream"
  shows "out_frame stream s \<and> free_ok s \<and>
    (case r of None \<Rightarrow> True | Some p \<Rightarrow> out_base p = [] \<and> out_avail p \<noteq> 0)"
proof -
  from xd3_alloc_output_cases [OF assms(1)] show ?thesis
  proof (elim disjE exE conjE)
    fix p free
    assume "enc_free stream = p # free" and "r = Some (p\<lparr>out_base := []\<rparr>)" and "s = stream\<lparr>enc_free := free\<rparr>"
    moreover have "stream\<lparr>enc_free := free\<rparr> =
        stream\<lparr>alloc_cnt := alloc_cnt stream, msg := msg stream, enc_free := free\<rparr>" by simp
    then have "out_frame stream (stream\<lparr>enc_free := free\<rparr>)"
      unfolding out_frame_def by blast
    ultimately show ?thesis using assms(2) by (auto simp: free_ok_def)
  next
    fix n m
    assume s: "s = stream\<lparr>alloc_cnt := n, msg := m\<rparr>" and e: "enc_free s = []"
    have "s = stream\<lparr>alloc_cnt := n, msg := m, enc_free := enc_free stream\<rparr>" using s by simp
    then have "out_frame stream s" unfolding out_frame_def by blast
    moreover assume "r = None" ultimately show ?thesis using e by (simp add: free_ok_def)
  next
    fix n m
    assume s: "s = stream\<lparr>alloc_cnt := n, msg := m\<rparr>" and e: "enc_free s = []"
    have "s = stream\<lparr>alloc_cnt := n, msg := m, enc_free := enc_free stream\<rparr>" using s by simp
    then have "out_frame stream s" unfolding out_frame_def by blast
    moreover assume "r = Some \<lparr>out_base = [], out_avail = 16384\<rparr>"
    ultimately show ?thesis using e by (simp add: free_ok_def)
  qed
qed

lemma xd3_tail_room_ok:
  assumes "xd3_tail_room stream outputp = (ret, s, chain)" and "chain_ok outputp" and "free_ok stream"
  shows "out_frame stream s" "free_ok s" "chain_ok chain" "chain_bytes chain = chain_bytes outputp"
    "ret = XD3_OK \<or> ret = ENOMEM"
    "ret = XD3_OK \<Longrightarrow> length (out_base (last chain)) < unat (out_avail (last chain))"
proof -
  have last: "outputp \<noteq> []" "length (out_base (last outputp)) \<le> unat (out_avail (last outputp))"
    using assms(2) by (cases outputp rule: rev_cases; auto simp: chain_ok_def)+
  have all: "out_frame stream s \<and> free_ok s \<and> chain_ok chain \<and> chain_bytes chain = chain_bytes outputp \<and>
    (ret = XD3_OK \<or> ret = ENOMEM) \<and>
    (ret = XD3_OK \<longrightarrow> length (out_base (last chain)) < unat (out_avail (last chain)))"
  proof (cases "length (out_base (last outputp)) = unat (out_avail (last outputp))")
    case True
    obtain r t where al: "xd3_alloc_output stream = (r, t)" by fastforce
    from xd3_alloc_output_ok [OF al assms(3)] assms(1,2) last True show ?thesis
      by (cases r) (auto simp: xd3_tail_room_def al chain_ok_def chain_bytes_def unat_gt_0)
  next
    case False
    with assms last show ?thesis by (auto simp: xd3_tail_room_def)
  qed
  then show "out_frame stream s" "free_ok s" "chain_ok chain" "chain_bytes chain = chain_bytes outputp"
    "ret = XD3_OK \<or> ret = ENOMEM"
    "ret = XD3_OK \<Longrightarrow> length (out_base (last chain)) < unat (out_avail (last chain))"
    by auto
qed

text \<open>
  An emission appends its bytes, or, when an allocation fails, a prefix of them; nothing else of
  the stream changes but the free list, the allocation count and the message.
\<close>

definition emits :: "'a xd3_outputs_scheme \<Rightarrow> xd3_output list \<Rightarrow> uint8 list \<Rightarrow>
    xd3_rvalue \<times> 'a xd3_outputs_scheme \<times> xd3_output list \<Rightarrow> bool" where
  "emits stream outputp bs r \<longleftrightarrow>
     (case r of (ret, s, chain) \<Rightarrow>
        out_frame stream s \<and> free_ok s \<and> chain_ok chain \<and>
        (ret = XD3_OK \<and> chain_bytes chain = chain_bytes outputp @ bs \<or>
         ret = ENOMEM \<and> (\<exists>n. chain_bytes chain = chain_bytes outputp @ take n bs)))"

lemma emit_byte_emits:
  assumes "chain_ok outputp" and "free_ok stream"
  shows "emits stream outputp [code] (xd3_emit_byte stream outputp code)"
proof (cases "xd3_tail_room stream outputp")
  case (fields ret s chain)
  note r = xd3_tail_room_ok [OF fields assms]
  have "chain \<noteq> []" using r(3) by (simp add: chain_ok_def)
  then show ?thesis
    using r chain_ok_write [of chain "[code]"]
    by (auto simp: xd3_emit_byte_def fields emits_def chain_bytes_write intro: exI [of _ 0])
qed

lemma emit_bytes_emits:
  "chain_ok outputp \<Longrightarrow> free_ok stream \<Longrightarrow> emits stream outputp base (xd3_emit_bytes stream outputp base)"
proof (induction stream outputp base rule: xd3_emit_bytes.induct)
  case (1 stream outputp base)
  obtain ret s chain where room: "xd3_tail_room stream outputp = (ret, s, chain)" by (metis prod_cases3)
  note r = xd3_tail_room_ok [OF room 1(2,3)]
  have ne: "chain \<noteq> []" using r(3) by (simp add: chain_ok_def)
  show ?case
  proof (cases "ret = XD3_OK")
    case False
    then show ?thesis
      using r by (subst xd3_emit_bytes.simps) (auto simp: room emits_def intro: exI [of _ 0])
  next
    case True
    let ?n = "tail_take chain base"
    let ?c = "xd3_tail_write chain (take ?n base)"
    have c: "chain_ok ?c" "chain_bytes ?c = chain_bytes outputp @ take ?n base"
      using r(3,4,6) True ne
      by (auto simp: chain_bytes_write tail_take_def intro!: chain_ok_write)
    show ?thesis
    proof (cases "drop ?n base = []")
      case True
      then show ?thesis
        using c r \<open>ret = XD3_OK\<close>
        by (subst xd3_emit_bytes.simps) (simp add: room emits_def Let_def)
    next
      case False
      obtain ret' s' ch' where e: "xd3_emit_bytes s ?c (drop ?n base) = (ret', s', ch')" by (metis prod_cases3)
      have "emits s ?c (drop ?n base) (ret', s', ch')"
        using 1(1) [OF room [symmetric] refl _ refl refl False] True c(1) r(2) e by simp
      moreover have "xd3_emit_bytes stream outputp base = (ret', s', ch')"
        using True False e by (subst xd3_emit_bytes.simps) (simp add: room Let_def)
      moreover have "take ?n base @ take k (drop ?n base) = take (?n + k) base" for k
        by (simp add: take_add)
      ultimately show ?thesis
        using r(1) c(2) out_frame_trans
        by (auto simp: emits_def simp del: drop_eq_Nil)
    qed
  qed
qed

text \<open>With an allocator that never fails, neither does an emission.\<close>

lemma xd3_alloc_output_total:
  "\<forall>n. alloc stream n \<Longrightarrow> fst (xd3_alloc_output stream) \<noteq> None"
  by (simp add: xd3_alloc_output_def xd3_alloc_def Let_def split: list.splits)

lemma out_frame_alloc: "out_frame s t \<Longrightarrow> alloc t = alloc s"
  by (auto simp: out_frame_def)

lemma xd3_tail_room_total:
  assumes "chain_ok outputp" and "\<forall>n. alloc stream n"
  shows "fst (xd3_tail_room stream outputp) = XD3_OK"
proof -
  have "outputp \<noteq> []" "length (out_base (last outputp)) \<le> unat (out_avail (last outputp))"
    using assms(1) by (cases outputp rule: rev_cases; auto simp: chain_ok_def)+
  then show ?thesis
    using xd3_alloc_output_total [OF assms(2)]
    by (auto simp: xd3_tail_room_def split: prod.splits option.splits)
qed

lemma emit_bytes_total:
  "chain_ok outputp \<Longrightarrow> free_ok stream \<Longrightarrow> \<forall>n. alloc stream n \<Longrightarrow>
    fst (xd3_emit_bytes stream outputp base) = XD3_OK"
proof (induction stream outputp base rule: xd3_emit_bytes.induct)
  case (1 stream outputp base)
  obtain ret s chain where room: "xd3_tail_room stream outputp = (ret, s, chain)" by (metis prod_cases3)
  note r = xd3_tail_room_ok [OF room 1(2,3)]
  have ret: "ret = XD3_OK" using xd3_tail_room_total [OF 1(2,4)] room by simp
  let ?n = "tail_take chain base"
  have c: "chain_ok (xd3_tail_write chain (take ?n base))"
    using r(3,6) ret by (auto simp: tail_take_def intro!: chain_ok_write)
  have al: "\<forall>n. alloc s n" using out_frame_alloc [OF r(1)] 1(4) by simp
  show ?case
  proof (cases "drop ?n base = []")
    case True
    then show ?thesis using ret by (subst xd3_emit_bytes.simps) (simp add: room Let_def)
  next
    case False
    have "fst (xd3_emit_bytes s (xd3_tail_write chain (take ?n base)) (drop ?n base)) = XD3_OK"
      using 1(1) [OF room [symmetric] refl _ refl refl False c r(2) al] ret by simp
    then show ?thesis using ret False by (subst xd3_emit_bytes.simps) (simp add: room Let_def)
  qed
qed

lemma emit_byte_total:
  assumes "chain_ok chain" and "free_ok s" and "\<forall>n. alloc s n"
  shows "\<exists>s' chain'. xd3_emit_byte s chain c = (XD3_OK, s', chain') \<and> alloc s' = alloc s"
proof (cases "xd3_tail_room s chain")
  case (fields ret t ch)
  have r: "ret = XD3_OK" using xd3_tail_room_total [OF assms(1,3)] fields by simp
  note ok = xd3_tail_room_ok [OF fields assms(1,2)]
  show ?thesis
    using ok r out_frame_alloc [OF ok(1)] by (auto simp: xd3_emit_byte_def fields)
qed

section \<open>Sizes and the free list\<close>

lemma sizeof_output_eq: "xd3_sizeof_output chain = of_nat (length (chain_bytes chain))"
proof -
  have "foldl (\<lambda>s p. s + of_nat (length (out_base p))) n chain = n + of_nat (length (chain_bytes chain))"
    for n :: usize_t
    by (induction chain arbitrary: n) (simp_all add: chain_bytes_def)
  then show ?thesis by (simp add: xd3_sizeof_output_def)
qed

lemma freelist_output_eq:
  "xd3_freelist_output stream chain =
    stream\<lparr>enc_free := rev (map (\<lambda>p. p\<lparr>out_base := []\<rparr>) chain) @ enc_free stream\<rparr>"
  by (induction stream chain rule: xd3_freelist_output.induct) simp_all

section \<open>A section as a sink of bytes\<close>

text \<open>What the code that formats a window relies on: bytes written appear behind those already
  there, and a failed write is an allocation failure.\<close>

locale byte_sink =
  fixes emit :: "'s \<Rightarrow> 'b list \<Rightarrow> xd3_rvalue \<times> 's"
    and contents :: "'s \<Rightarrow> 'b list"
    and inv :: "'s \<Rightarrow> bool"
  assumes emit_ok: "inv s \<Longrightarrow> emit s bs = (XD3_OK, t) \<Longrightarrow> contents t = contents s @ bs"
    and emit_inv: "inv s \<Longrightarrow> emit s bs = (r, t) \<Longrightarrow> inv t"
    and emit_ret: "inv s \<Longrightarrow> emit s bs = (r, t) \<Longrightarrow> r = XD3_OK \<or> r = ENOMEM"
begin

fun emit_all :: "'b list list \<Rightarrow> 's \<Rightarrow> xd3_rvalue \<times> 's" where
  "emit_all [] s = (XD3_OK, s)"
| "emit_all (bs # bss) s = xd3_try (emit s bs) (emit_all bss)"

lemma emit_all_inv: "inv s \<Longrightarrow> emit_all bss s = (r, t) \<Longrightarrow> inv t"
proof (induction bss arbitrary: s)
  case (Cons bs bss)
  from Cons.prems(2) have "xd3_try (emit s bs) (emit_all bss) = (r, t)" by simp
  then show ?case
  proof (cases rule: xd3_try_cases)
    case (ok u)
    with Cons emit_inv show ?thesis by blast
  next
    case fail
    with Cons.prems(1) emit_inv show ?thesis by blast
  qed
qed simp

lemma emit_all_ok: "inv s \<Longrightarrow> emit_all bss s = (XD3_OK, t) \<Longrightarrow> contents t = contents s @ concat bss"
proof (induction bss arbitrary: s)
  case (Cons bs bss)
  then obtain u where u: "emit s bs = (XD3_OK, u)" "emit_all bss u = (XD3_OK, t)"
    by (auto simp: xd3_try_OK_iff)
  then have "inv u" and "contents u = contents s @ bs"
    using Cons.prems(1) emit_inv emit_ok by blast+
  with Cons.IH u(2) show ?case by simp
qed simp

end

definition sink_ok :: "xd3_sect \<Rightarrow> 'a xd3_outputs_scheme \<Rightarrow> bool" where
  "sink_ok sect stream \<longleftrightarrow> chain_ok (enc_chain stream sect) \<and> free_ok stream"

definition sect_bytes :: "xd3_sect \<Rightarrow> 'a xd3_outputs_scheme \<Rightarrow> uint8 list" where
  "sect_bytes sect stream = chain_bytes (enc_chain stream sect)"

definition sect_emit :: "xd3_sect \<Rightarrow> 'a xd3_outputs_scheme \<Rightarrow> uint8 list \<Rightarrow>
    xd3_rvalue \<times> 'a xd3_outputs_scheme" where
  "sect_emit sect stream bs = xd3_to_section sect (\<lambda>s chain. xd3_emit_bytes s chain bs) stream"

lemma free_ok_chain [simp]: "free_ok (stream\<lparr>enc_chain := c\<rparr>) = free_ok stream"
  by (simp add: free_ok_def)

lemma to_section_emits:
  assumes "\<And>chain. chain_ok chain \<Longrightarrow> emits stream chain bs (f stream chain)"
    and "sink_ok sect stream" and "xd3_to_section sect f stream = (r, t)"
  shows "sink_ok sect t" "r = XD3_OK \<or> r = ENOMEM"
    "r = XD3_OK \<Longrightarrow> sect_bytes sect t = sect_bytes sect stream @ bs"
    "out_frame (stream\<lparr>enc_chain := (enc_chain stream)(sect := enc_chain t sect)\<rparr>) t"
proof -
  obtain ret s chain where f: "f stream (enc_chain stream sect) = (ret, s, chain)" by (metis prod_cases3)
  have "emits stream (enc_chain stream sect) bs (ret, s, chain)"
    using assms(1) [of "enc_chain stream sect"] assms(2) by (simp add: sink_ok_def f)
  then have e: "out_frame stream s" "free_ok s" "chain_ok chain"
    "ret = XD3_OK \<and> chain_bytes chain = chain_bytes (enc_chain stream sect) @ bs \<or> ret = ENOMEM"
    by (auto simp: emits_def)
  have t: "r = ret" "t = s\<lparr>enc_chain := (enc_chain s)(sect := chain)\<rparr>"
    using assms(3) by (simp_all add: xd3_to_section_def f)
  show "sink_ok sect t" "r = XD3_OK \<or> r = ENOMEM"
    "r = XD3_OK \<Longrightarrow> sect_bytes sect t = sect_bytes sect stream @ bs"
    using e by (auto simp: t sink_ok_def sect_bytes_def)
  from e(1) obtain n m fr where s: "s = stream\<lparr>alloc_cnt := n, msg := m, enc_free := fr\<rparr>"
    by (auto simp: out_frame_def)
  show "out_frame (stream\<lparr>enc_chain := (enc_chain stream)(sect := enc_chain t sect)\<rparr>) t"
    unfolding out_frame_def t(2) s
    by (intro exI [of _ n] exI [of _ m] exI [of _ fr]) simp
qed

lemma sect_emit_facts:
  assumes "sink_ok sect stream" and "sect_emit sect stream bs = (r, t)"
  shows "sink_ok sect t" "r = XD3_OK \<or> r = ENOMEM"
    "r = XD3_OK \<Longrightarrow> sect_bytes sect t = sect_bytes sect stream @ bs"
    "out_frame (stream\<lparr>enc_chain := (enc_chain stream)(sect := enc_chain t sect)\<rparr>) t"
proof -
  have "free_ok stream" using assms(1) by (simp add: sink_ok_def)
  then have em: "chain_ok chain \<Longrightarrow> emits stream chain bs (xd3_emit_bytes stream chain bs)" for chain
    by (rule emit_bytes_emits [rotated])
  have tos: "xd3_to_section sect (\<lambda>s chain. xd3_emit_bytes s chain bs) stream = (r, t)"
    using assms(2) by (simp add: sect_emit_def)
  note facts = to_section_emits [where f = "\<lambda>s chain. xd3_emit_bytes s chain bs", OF em assms(1) tos]
  from facts show "sink_ok sect t" "r = XD3_OK \<or> r = ENOMEM"
    "r = XD3_OK \<Longrightarrow> sect_bytes sect t = sect_bytes sect stream @ bs"
    "out_frame (stream\<lparr>enc_chain := (enc_chain stream)(sect := enc_chain t sect)\<rparr>) t"
    by simp_all
qed

interpretation section_sink: byte_sink "sect_emit sect" "sect_bytes sect" "sink_ok sect" for sect
  by unfold_locales (use sect_emit_facts in blast)+

section \<open>Properties\<close>

text \<open>C13: appending bytes to a chain of pages, whatever the room left in its tail and whatever pages
  the free list holds, appends exactly those bytes to the string the chain denotes; the only failure
  is a failed allocation, and then a prefix of them has been appended.  No page is written beyond
  its room.\<close>

theorem emit_bytes_appends:
  assumes "chain_ok chain" and "free_ok stream"
    and "xd3_emit_bytes stream chain bs = (ret, stream', chain')"
  shows "chain_ok chain' \<and> free_ok stream' \<and> out_frame stream stream' \<and>
    (ret = XD3_OK \<and> chain_bytes chain' = chain_bytes chain @ bs \<or>
     ret = ENOMEM \<and> (\<exists>n. chain_bytes chain' = chain_bytes chain @ take n bs)) \<and>
    (ret = XD3_OK \<or> (\<exists>n. \<not> alloc stream n)) \<and>
    xd3_sizeof_output chain' = of_nat (length (chain_bytes chain'))"
proof -
  have "ret = XD3_OK \<or> (\<exists>n. \<not> alloc stream n)"
    using emit_bytes_total [OF assms(1,2), of bs] assms(3) by auto
  then show ?thesis
    using emit_bytes_emits [OF assms(1,2), of bs] assms(3)
    by (auto simp: emits_def sizeof_output_eq)
qed

theorem emit_bytes_appends_witness:
  "chain_bytes (snd (snd (xd3_emit_bytes outputs_zero
     [\<lparr>out_base = [1, 2], out_avail = 3\<rparr>] [3, 4, 5]))) = [1, 2, 3, 4, 5]"
proof -
  let ?c = "[\<lparr>out_base = [1, 2], out_avail = 3\<rparr>]"
  obtain ret s ch where e: "xd3_emit_bytes outputs_zero ?c [3, 4, 5] = (ret, s, ch)" by (metis prod_cases3)
  have "chain_ok ?c" by (simp add: chain_ok_def)
  moreover have "free_ok outputs_zero"
    by (simp add: free_ok_def outputs_zero_def xd3_stream.extend_def xd3_outputs.fields_def)
  moreover have "\<forall>n. alloc outputs_zero n"
    by (simp add: outputs_zero_def xd3_stream.extend_def stream_zero_def)
  ultimately have "chain_bytes ch = chain_bytes ?c @ [3, 4, 5]"
    using emit_bytes_appends [OF _ _ e] emit_bytes_total [of ?c outputs_zero "[3, 4, 5]"] e by auto
  then show ?thesis by (simp add: e chain_bytes_def)
qed

end
