(* ===== verification/Xd3_AddrCache.thy ===== *)
theory Xd3_AddrCache
  imports Xd3_Output
begin

text \<open>
  The VCDIFF address cache: the near and same arrays, the encoder's choice of an address mode and
  the decoder's inverse.  The two sides run the same \<open>xd3_update_cache\<close>, so a decoder that starts
  from the encoder's cache reads back every address and stays in step with it.
\<close>

section \<open>Definitions\<close>

text \<open>\<open>xd3_alloc_cache\<close>; fresh memory is shown as zeros, \<open>xd3_init_cache\<close> clears it before use.\<close>

definition xd3_alloc_cache :: "'a xd3_stream_scheme \<Rightarrow> xd3_rvalue \<times> 'a xd3_stream_scheme" where
  "xd3_alloc_cache stream =
     (let s = stream\<lparr>acache := (acache stream)\<lparr>near_array := [], same_array := []\<rparr>\<rparr>;
          near_n = unat (s_near (acache s)); same_n = unat (s_same (acache s) * 256);
          (near_ok, s) = (if s_near (acache s) > 0 then xd3_alloc s else (True, s)) in
      if \<not> near_ok then (ENOMEM, s)
      else
        let s = s\<lparr>acache := (acache s)\<lparr>near_array := replicate near_n 0\<rparr>\<rparr>;
            (same_ok, s) = (if s_same (acache s) > 0 then xd3_alloc s else (True, s)) in
        if \<not> same_ok then (ENOMEM, s)
        else (XD3_OK, s\<lparr>acache := (acache s)\<lparr>same_array := replicate same_n 0\<rparr>\<rparr>))"

definition xd3_init_cache :: "xd3_addr_cache \<Rightarrow> xd3_addr_cache" where
  "xd3_init_cache c =
     (let c = (if s_near c > 0
               then c\<lparr>near_array := replicate (unat (s_near c)) 0, next_slot := 0\<rparr> else c)
      in if s_same c > 0 then c\<lparr>same_array := replicate (unat (s_same c * 256)) 0\<rparr> else c)"

definition xd3_update_cache :: "xd3_addr_cache \<Rightarrow> usize_t \<Rightarrow> xd3_addr_cache" where
  "xd3_update_cache c addr =
     (let c = (if s_near c > 0
               then c\<lparr>near_array := (near_array c)[unat (next_slot c) := addr],
                      next_slot := (next_slot c + 1) mod s_near c\<rparr> else c)
      in if s_same c > 0
         then c\<lparr>same_array := (same_array c)[unat (addr mod (s_same c * 256)) := addr]\<rparr> else c)"

text \<open>
  \<open>SMALLEST_INT (x)\<close> jumps to \<open>good\<close> when \<open>x & ~127U\<close> is zero.  \<open>~127U\<close> is a 32-bit constant, so
  the bits above 31 of \<open>x\<close> are not tested.
\<close>

definition SMALLEST_INT :: "usize_t \<Rightarrow> bool" where
  "SMALLEST_INT x \<longleftrightarrow> x AND ucast (NOT 127 :: uint32) = 0"

text \<open>The loop over \<open>near_array[i]\<close>; the flag tells whether it left by \<open>goto good\<close>.\<close>

fun near_loop :: "usize_t list \<Rightarrow> usize_t \<Rightarrow> usize_t \<Rightarrow> usize_t \<Rightarrow> usize_t \<Rightarrow> bool \<times> usize_t \<times> usize_t" where
  "near_loop [] i addr bestd bestm = (False, bestd, bestm)"
| "near_loop (near # rest) i addr bestd bestm =
     (if addr \<ge> near \<and> addr - near < bestd then
        (if SMALLEST_INT (addr - near) then (True, addr - near, i + 2)
         else near_loop rest (i + 1) addr (addr - near) (i + 2))
      else near_loop rest (i + 1) addr bestd bestm)"

datatype addr_code =
    Addr_int usize_t usize_t
  | Addr_byte uint8 usize_t

definition choose_address :: "xd3_addr_cache \<Rightarrow> usize_t \<Rightarrow> usize_t \<Rightarrow> addr_code" where
  "choose_address c addr here =
     (if SMALLEST_INT addr then Addr_int addr VCD_SELF
      else
        let d = here - addr; nearer = d < addr;
            (bestd, bestm) = (if nearer then (d, VCD_HERE) else (addr, VCD_SELF)) in
        if nearer \<and> SMALLEST_INT d then Addr_int d VCD_HERE
        else
          case near_loop (take (unat (s_near c)) (near_array c)) 0 addr bestd bestm of
            (good, bestd, bestm) \<Rightarrow>
              if good then Addr_int bestd bestm
              else
                let d = addr mod (s_same c * 256) in
                if s_same c > 0 \<and> same_array c ! unat d = addr
                then Addr_byte (ucast (d mod 256)) (s_near c + 2 + d div 256)
                else Addr_int bestd bestm)"

definition xd3_encode_address ::
  "'a xd3_outputs_scheme \<Rightarrow> usize_t \<Rightarrow> usize_t \<Rightarrow> uint8 \<Rightarrow>
     xd3_rvalue \<times> 'a xd3_outputs_scheme \<times> uint8" where
  "xd3_encode_address stream addr here mode =
     (case choose_address (acache stream) addr here of
        Addr_int bestd bestm \<Rightarrow>
          (case xd3_to_section ADDR (\<lambda>s chain. xd3_emit_size s chain bestd) stream of
             (ret, s) \<Rightarrow>
               if ret \<noteq> XD3_OK then (ret, s, mode)
               else (XD3_OK, s\<lparr>acache := xd3_update_cache (acache s) addr\<rparr>, mode + ucast bestm))
      | Addr_byte bestd bestm \<Rightarrow>
          (case xd3_to_section ADDR (\<lambda>s chain. xd3_emit_byte s chain bestd) stream of
             (ret, s) \<Rightarrow>
               if ret \<noteq> XD3_OK then (ret, s, mode)
               else (XD3_OK, s\<lparr>acache := xd3_update_cache (acache s) addr\<rparr>, mode + ucast bestm)))"

text \<open>
  \<open>xd3_decode_address\<close>: the bytes \<open>*inpp .. max\<close> are the list; the result has the address and the
  bytes left.  An index outside the same array is undefined.
\<close>

definition decode_address_value ::
  "xd3_addr_cache \<Rightarrow> usize_t \<Rightarrow> usize_t \<Rightarrow> uint8 list \<Rightarrow> usize_t \<Rightarrow>
     xd3_rvalue \<times> string option \<times> uint8 list \<times> usize_t" where
  "decode_address_value c here mode inp val =
     (let same_start = 2 + s_near c in
      if mode < same_start then
        (case xd3_read_size inp of
           Inl m \<Rightarrow> (XD3_INVALID_INPUT, Some m, inp, val)
         | Inr (val, inp) \<Rightarrow>
             if mode = VCD_SELF then (XD3_OK, None, inp, val)
             else if mode = VCD_HERE then (XD3_OK, None, inp, here - val)
             else if length (near_array c) \<le> unat (mode - 2) then (C_UNDEFINED, None, inp, val)
             else (XD3_OK, None, inp, val + near_array c ! unat (mode - 2)))
      else
        case inp of
          [] \<Rightarrow> (XD3_INVALID_INPUT, Some ''address underflow'', inp, val)
        | b # inp' \<Rightarrow>
            let i = (mode - same_start) * 256 + ucast b in
            if length (same_array c) \<le> unat i then (C_UNDEFINED, None, inp, val)
            else (XD3_OK, None, inp', same_array c ! unat i))"

definition xd3_decode_address ::
  "'a xd3_stream_scheme \<Rightarrow> usize_t \<Rightarrow> usize_t \<Rightarrow> uint8 list \<Rightarrow> usize_t \<Rightarrow>
     xd3_rvalue \<times> 'a xd3_stream_scheme \<times> uint8 list \<times> usize_t" where
  "xd3_decode_address stream here mode inp val =
     (case decode_address_value (acache stream) here mode inp val of
        (ret, m, inp, val) \<Rightarrow>
          if ret \<noteq> XD3_OK then (ret, case m of Some _ \<Rightarrow> stream\<lparr>msg := m\<rparr> | None \<Rightarrow> stream, inp, val)
          else (XD3_OK, stream\<lparr>acache := xd3_update_cache (acache stream) val\<rparr>, inp, val))"

section \<open>The invariant of the cache\<close>

definition cache_ok :: "xd3_addr_cache \<Rightarrow> bool" where
  "cache_ok c \<longleftrightarrow> length (near_array c) = unat (s_near c) \<and>
     length (same_array c) = unat (s_same c) * 256 \<and>
     (s_near c > 0 \<longrightarrow> next_slot c < s_near c) \<and>
     unat (s_near c) + unat (s_same c) \<le> 240"

lemma same_size: "unat (s_same c) \<le> 240 \<Longrightarrow> unat (s_same c * 256) = unat (s_same c) * 256"
  by (subst unat_word_ariths) simp

lemma cache_ok_init:
  "unat (s_near c) + unat (s_same c) \<le> 240 \<Longrightarrow> length (near_array c) = unat (s_near c) \<Longrightarrow>
    length (same_array c) = unat (s_same c) * 256 \<Longrightarrow> cache_ok (xd3_init_cache c)"
  by (simp add: cache_ok_def xd3_init_cache_def Let_def same_size)

lemma cache_ok_update: "cache_ok c \<Longrightarrow> cache_ok (xd3_update_cache c addr)"
  by (auto simp: cache_ok_def xd3_update_cache_def Let_def word_mod_less_divisor)

lemma update_cache_sizes [simp]:
  "s_near (xd3_update_cache c addr) = s_near c" "s_same (xd3_update_cache c addr) = s_same c"
  by (simp_all add: xd3_update_cache_def Let_def)

section \<open>The encoded form\<close>

definition addr_bytes :: "addr_code \<Rightarrow> uint8 list" where
  "addr_bytes a = (case a of Addr_int d m \<Rightarrow> xd3_emit_size_bytes d | Addr_byte b m \<Rightarrow> [b])"

definition addr_mode :: "addr_code \<Rightarrow> usize_t" where
  "addr_mode a = (case a of Addr_int d m \<Rightarrow> m | Addr_byte b m \<Rightarrow> m)"

text \<open>The integer \<open>d\<close> in mode \<open>m\<close> stands for the address.\<close>

definition addr_denotes :: "xd3_addr_cache \<Rightarrow> usize_t \<Rightarrow> usize_t \<Rightarrow> usize_t \<Rightarrow> usize_t \<Rightarrow> bool" where
  "addr_denotes c here addr m d \<longleftrightarrow>
     m = VCD_SELF \<and> d = addr \<or>
     m = VCD_HERE \<and> d = here - addr \<or>
     (\<exists>i < unat (s_near c). m = of_nat i + 2 \<and> d = addr - near_array c ! i)"

lemma near_loop_denotes:
  assumes "near_loop ns i addr d0 m0 = (g, d, m)"
  shows "(d, m) = (d0, m0) \<or> (\<exists>k < length ns. m = i + of_nat k + 2 \<and> d = addr - ns ! k)"
  using assms
proof (induction ns i addr d0 m0 rule: near_loop.induct)
  case (2 near rest i addr bestd bestm)
  have step: "(\<exists>k < length rest. m = i + 1 + of_nat k + 2 \<and> d = addr - rest ! k) \<Longrightarrow>
      \<exists>k < length (near # rest). m = i + of_nat k + 2 \<and> d = addr - (near # rest) ! k"
    by (elim exE conjE) (rule_tac x = "Suc k" in exI, simp add: add.assoc)
  have here: "\<exists>k < length (near # rest). i + 2 = i + of_nat k + 2 \<and> addr - near = addr - (near # rest) ! k"
    by (intro exI [of _ 0]) simp
  show ?case
    using 2 step here by (auto split: if_splits)
qed simp

lemma choose_address_denotes:
  assumes "cache_ok c" and "choose_address c addr here = Addr_int d m"
  shows "addr_denotes c here addr m d"
proof -
  let ?ns = "take (unat (s_near c)) (near_array c)"
  have len: "length ?ns = unat (s_near c)" using assms(1) by (simp add: cache_ok_def)
  have *: "addr_denotes c here addr m d"
    if "near_loop ?ns 0 addr d0 m0 = (g, d, m)" and "addr_denotes c here addr m0 d0" for g d0 m0
    using near_loop_denotes [OF that(1)] that(2) len by (auto simp: addr_denotes_def)
  have d0: "addr_denotes c here addr VCD_SELF addr" "addr_denotes c here addr VCD_HERE (here - addr)"
    by (simp_all add: addr_denotes_def)
  show ?thesis
    using assms(2) d0 *
    by (auto simp: choose_address_def Let_def split: if_splits prod.splits)
qed

lemma choose_address_byte:
  assumes "choose_address c addr here = Addr_byte b m"
  shows "s_same c > 0 \<and> same_array c ! unat (addr mod (s_same c * 256)) = addr \<and>
    b = ucast (addr mod (s_same c * 256) mod 256) \<and> m = s_near c + 2 + addr mod (s_same c * 256) div 256"
  using assms by (auto simp: choose_address_def Let_def split: if_splits prod.splits)

section \<open>Decoding what was encoded\<close>

lemma same_start_nat: "cache_ok c \<Longrightarrow> unat (2 + s_near c) = 2 + unat (s_near c)"
  by (subst unat_plus_64) (auto simp: cache_ok_def)

lemma near_mode_nat: "i < 300 \<Longrightarrow> unat (of_nat i + 2 :: usize_t) = i + 2"
  using unat_of_nat_64 [of "i + 2"] by (simp add: add.commute)

lemma decode_address_int:
  assumes ok: "cache_ok (acache stream)" and den: "addr_denotes (acache stream) here addr m d"
  shows "xd3_decode_address stream here m (xd3_emit_size_bytes d @ rest) v =
    (XD3_OK, stream\<lparr>acache := xd3_update_cache (acache stream) addr\<rparr>, rest, addr) \<and>
    unat m < 2 + unat (s_near (acache stream))"
proof -
  let ?c = "acache stream"
  have start: "m < 2 + s_near ?c \<longleftrightarrow> unat m < 2 + unat (s_near ?c)"
    by (simp only: word_less_nat_alt same_start_nat [OF ok])
  from den consider (self) "m = 0" "d = addr" | (hre) "m = 1" "d = here - addr"
    | (near) i where "i < unat (s_near ?c)" "m = of_nat i + 2" "d = addr - near_array ?c ! i"
    unfolding addr_denotes_def by blast
  then show ?thesis
  proof cases
    case near
    have i: "i < 300" using near(1) ok by (simp add: cache_ok_def)
    have m: "unat m = i + 2" using near_mode_nat [OF i] near(2) by simp
    then have "m \<noteq> 0" and "m \<noteq> 1" by auto
    moreover have "unat (m - 2) = i"
      using near(2) unat_of_nat_64 [of i] i by simp
    ultimately show ?thesis
      using start m near(1,3) ok
      by (simp add: xd3_decode_address_def decode_address_value_def Let_def size_codec.read_emit cache_ok_def)
  qed (use start in \<open>simp_all add: xd3_decode_address_def decode_address_value_def Let_def size_codec.read_emit\<close>)
qed

lemma div_256_bound: "(a :: nat) < s * 256 \<Longrightarrow> a div 256 < s"
  by (simp add: less_mult_imp_div_less)

lemma decode_address_byte:
  assumes ok: "cache_ok (acache stream)" and ch: "choose_address (acache stream) addr here = Addr_byte b m"
  shows "xd3_decode_address stream here m (b # rest) v =
    (XD3_OK, stream\<lparr>acache := xd3_update_cache (acache stream) addr\<rparr>, rest, addr) \<and>
    unat m < 2 + unat (s_near (acache stream)) + unat (s_same (acache stream))"
proof -
  let ?c = "acache stream"
  let ?d = "addr mod (s_same ?c * 256)"
  note c = choose_address_byte [OF ch]
  have size: "unat (s_same ?c * 256) = unat (s_same ?c) * 256"
    using ok by (intro same_size) (simp add: cache_ok_def)
  have s0: "0 < unat (s_same ?c)" using c by (simp add: word_less_nat_alt)
  have d: "unat ?d < unat (s_same ?c) * 256"
    using s0 by (simp add: unat_mod size)
  have q: "unat (?d div 256) < unat (s_same ?c)"
    using div_256_bound [OF d] by (simp add: unat_div)
  have m: "unat m = 2 + unat (s_near ?c) + unat (?d div 256)"
  proof -
    have "unat (2 + s_near ?c + ?d div 256) = unat (2 + s_near ?c) + unat (?d div 256)"
      using q ok same_start_nat [OF ok] by (intro unat_plus_64) (simp add: cache_ok_def)
    then show ?thesis using c same_start_nat [OF ok] by (simp add: add.commute)
  qed
  then have notless: "\<not> m < 2 + s_near ?c"
    by (simp only: word_less_nat_alt same_start_nat [OF ok])
  have mm: "m - (2 + s_near ?c) = ?d div 256" using c by simp
  have low: "ucast b = ?d mod 256"
  proof -
    have "unat (?d mod 256) < 256" by (simp add: unat_mod)
    then have "(ucast (ucast (?d mod 256) :: uint8) :: usize_t) = ?d mod 256"
      by (simp add: word_unat_eq_iff unsigned_ucast_eq unsigned_take_bit_eq take_bit_nat_eq_self)
    then show ?thesis using c by simp
  qed
  have "(m - (2 + s_near ?c)) * 256 + ucast b = ?d"
    using mm low by (simp add: word_mod_div_equality)
  then show ?thesis
    using notless c d m q ok
    by (simp add: xd3_decode_address_def decode_address_value_def Let_def cache_ok_def)
qed

text \<open>Both forms at once, for the bytes and the mode the encoder chose.\<close>

lemma decode_choose_address:
  assumes "cache_ok (acache stream)" and a_def: "a = choose_address (acache stream) addr here"
  shows "xd3_decode_address stream here (addr_mode a) (addr_bytes a @ rest) v =
    (XD3_OK, stream\<lparr>acache := xd3_update_cache (acache stream) addr\<rparr>, rest, addr)"
    "unat (addr_mode a) < 2 + unat (s_near (acache stream)) + unat (s_same (acache stream))"
proof -
  have "xd3_decode_address stream here (addr_mode a) (addr_bytes a @ rest) v =
    (XD3_OK, stream\<lparr>acache := xd3_update_cache (acache stream) addr\<rparr>, rest, addr) \<and>
    unat (addr_mode a) < 2 + unat (s_near (acache stream)) + unat (s_same (acache stream))"
  proof (cases a)
    case (Addr_int d m)
    then have "addr_denotes (acache stream) here addr m d"
      using choose_address_denotes [OF assms(1)] by (simp add: a_def)
    from decode_address_int [OF assms(1) this, of rest v] show ?thesis
      by (simp add: Addr_int addr_mode_def addr_bytes_def)
  next
    case (Addr_byte b m)
    from decode_address_byte [OF assms(1)] Addr_byte show ?thesis
      by (simp add: addr_mode_def addr_bytes_def a_def)
  qed
  then show "xd3_decode_address stream here (addr_mode a) (addr_bytes a @ rest) v =
    (XD3_OK, stream\<lparr>acache := xd3_update_cache (acache stream) addr\<rparr>, rest, addr)"
    "unat (addr_mode a) < 2 + unat (s_near (acache stream)) + unat (s_same (acache stream))"
    by auto
qed

text \<open>The encoder writes those bytes, adds that mode and updates its cache in the same way.\<close>

lemma out_frame_acache: "out_frame (stream\<lparr>enc_chain := c\<rparr>) t \<Longrightarrow> acache t = acache stream"
  by (auto simp: out_frame_def)

lemma encode_address_facts:
  assumes ok: "sink_ok ADDR stream" and e: "xd3_encode_address stream addr here mode = (ret, s, mode')"
    and a_def: "a = choose_address (acache stream) addr here"
  shows "sink_ok ADDR s" "ret = XD3_OK \<or> ret = ENOMEM"
    "ret = XD3_OK \<Longrightarrow> sect_bytes ADDR s = sect_bytes ADDR stream @ addr_bytes a \<and>
      mode' = mode + ucast (addr_mode a) \<and> acache s = xd3_update_cache (acache stream) addr"
    "ret \<noteq> XD3_OK \<Longrightarrow> acache s = acache stream"
proof -
  have free: "free_ok stream" using ok by (simp add: sink_ok_def)
  have all: "sink_ok ADDR s \<and> (ret = XD3_OK \<or> ret = ENOMEM) \<and>
    (ret = XD3_OK \<longrightarrow> sect_bytes ADDR s = sect_bytes ADDR stream @ addr_bytes a \<and>
      mode' = mode + ucast (addr_mode a) \<and> acache s = xd3_update_cache (acache stream) addr) \<and>
    (ret \<noteq> XD3_OK \<longrightarrow> acache s = acache stream)"
  proof (cases a)
    case (Addr_int d m)
    have em: "chain_ok chain \<Longrightarrow> emits stream chain (xd3_emit_size_bytes d) (xd3_emit_size stream chain d)" for chain
      by (simp add: xd3_emit_size_def emit_bytes_emits free)
    obtain r t where t: "xd3_to_section ADDR (\<lambda>s chain. xd3_emit_size s chain d) stream = (r, t)" by fastforce
    note f = to_section_emits [where f = "\<lambda>s chain. xd3_emit_size s chain d", OF em ok t]
    have "acache t = acache stream" using f(4) by (rule out_frame_acache)
    then show ?thesis
      using e f Addr_int
      by (auto simp: xd3_encode_address_def a_def t addr_bytes_def addr_mode_def
          sink_ok_def sect_bytes_def free_ok_def split: if_splits)
  next
    case (Addr_byte b m)
    have em: "chain_ok chain \<Longrightarrow> emits stream chain [b] (xd3_emit_byte stream chain b)" for chain
      by (rule emit_byte_emits [OF _ free])
    obtain r t where t: "xd3_to_section ADDR (\<lambda>s chain. xd3_emit_byte s chain b) stream = (r, t)" by fastforce
    note f = to_section_emits [where f = "\<lambda>s chain. xd3_emit_byte s chain b", OF em ok t]
    have "acache t = acache stream" using f(4) by (rule out_frame_acache)
    then show ?thesis
      using e f Addr_byte
      by (auto simp: xd3_encode_address_def a_def t addr_bytes_def addr_mode_def
          sink_ok_def sect_bytes_def free_ok_def split: if_splits)
  qed
  then show "sink_ok ADDR s" "ret = XD3_OK \<or> ret = ENOMEM"
    "ret = XD3_OK \<Longrightarrow> sect_bytes ADDR s = sect_bytes ADDR stream @ addr_bytes a \<and>
      mode' = mode + ucast (addr_mode a) \<and> acache s = xd3_update_cache (acache stream) addr"
    "ret \<noteq> XD3_OK \<Longrightarrow> acache s = acache stream"
    by auto
qed

section \<open>Codecs that share a cache\<close>

text \<open>
  Encoder and decoder each keep a cache and update it alike.  One item is encoded to a mode and to
  bytes; the decoder knows the context of an item before it decodes it.
\<close>

locale cached_codec =
  fixes enc :: "'c \<Rightarrow> 'h \<Rightarrow> 'x \<Rightarrow> 'm \<times> uint8 list"
    and dec :: "'c \<Rightarrow> 'h \<Rightarrow> 'm \<Rightarrow> uint8 list \<Rightarrow> ('x \<times> uint8 list) option"
    and update :: "'c \<Rightarrow> 'x \<Rightarrow> 'c"
    and inv :: "'c \<Rightarrow> bool"
  assumes dec_enc: "inv c \<Longrightarrow> enc c h x = (m, bs) \<Longrightarrow> dec c h m (bs @ rest) = Some (x, rest)"
    and update_inv: "inv c \<Longrightarrow> inv (update c x)"
begin

fun enc_list :: "'c \<Rightarrow> ('h \<times> 'x) list \<Rightarrow> 'm list \<times> uint8 list" where
  "enc_list c [] = ([], [])"
| "enc_list c ((h, x) # hxs) =
     (fst (enc c h x) # fst (enc_list (update c x) hxs),
      snd (enc c h x) @ snd (enc_list (update c x) hxs))"

fun dec_list :: "'c \<Rightarrow> ('h \<times> 'm) list \<Rightarrow> uint8 list \<Rightarrow> ('x list \<times> uint8 list) option" where
  "dec_list c [] inp = Some ([], inp)"
| "dec_list c ((h, m) # hms) inp =
     (case dec c h m inp of
        None \<Rightarrow> None
      | Some (x, inp') \<Rightarrow>
          map_option (\<lambda>(xs, rest). (x # xs, rest)) (dec_list (update c x) hms inp'))"

lemma dec_enc_list:
  "inv c \<Longrightarrow> dec_list c (zip (map fst hxs) (fst (enc_list c hxs))) (snd (enc_list c hxs) @ rest) =
    Some (map snd hxs, rest)"
proof (induction c hxs rule: enc_list.induct)
  case (2 c h x hxs)
  then show ?case
    using dec_enc [of c h x "fst (enc c h x)" "snd (enc c h x)"] update_inv [of c x]
    by simp
qed simp

end

definition address_enc :: "xd3_addr_cache \<Rightarrow> usize_t \<Rightarrow> usize_t \<Rightarrow> usize_t \<times> uint8 list" where
  "address_enc c here addr = (addr_mode (choose_address c addr here), addr_bytes (choose_address c addr here))"

definition address_dec ::
  "xd3_addr_cache \<Rightarrow> usize_t \<Rightarrow> usize_t \<Rightarrow> uint8 list \<Rightarrow> (usize_t \<times> uint8 list) option" where
  "address_dec c here mode inp =
     (case xd3_decode_address (stream_zero\<lparr>acache := c\<rparr>) here mode inp 0 of
        (ret, s, rest, val) \<Rightarrow> if ret = XD3_OK then Some (val, rest) else None)"

lemma address_enc_proj [simp]:
  "fst (address_enc c here addr) = addr_mode (choose_address c addr here)"
  "snd (address_enc c here addr) = addr_bytes (choose_address c addr here)"
  by (simp_all add: address_enc_def)

interpretation address_codec: cached_codec address_enc address_dec xd3_update_cache cache_ok
proof unfold_locales
  fix c h x m bs rest
  assume "cache_ok c" and "address_enc c h x = (m, bs)"
  then show "address_dec c h m (bs @ rest) = Some (x, rest)"
    using decode_choose_address(1) [of "stream_zero\<lparr>acache := c\<rparr>" _ x h rest 0]
    by (auto simp: address_enc_def address_dec_def)
qed (rule cache_ok_update)

text \<open>The stream operations, item after item.\<close>

fun encode_addresses ::
  "'a xd3_outputs_scheme \<Rightarrow> (usize_t \<times> usize_t) list \<Rightarrow>
     xd3_rvalue \<times> 'a xd3_outputs_scheme \<times> uint8 list" where
  "encode_addresses stream [] = (XD3_OK, stream, [])"
| "encode_addresses stream ((here, addr) # rest) =
     (case xd3_encode_address stream addr here 0 of
        (ret, s, mode) \<Rightarrow>
          if ret \<noteq> XD3_OK then (ret, s, [])
          else case encode_addresses s rest of (ret, s, modes) \<Rightarrow> (ret, s, mode # modes))"

fun decode_addresses ::
  "'a xd3_stream_scheme \<Rightarrow> (usize_t \<times> uint8) list \<Rightarrow> uint8 list \<Rightarrow>
     xd3_rvalue \<times> 'a xd3_stream_scheme \<times> usize_t list \<times> uint8 list" where
  "decode_addresses stream [] inp = (XD3_OK, stream, [], inp)"
| "decode_addresses stream ((here, mode) # rest) inp =
     (case xd3_decode_address stream here (ucast mode) inp 0 of
        (ret, s, inp', addr) \<Rightarrow>
          if ret \<noteq> XD3_OK then (ret, s, [], inp')
          else case decode_addresses s rest inp' of
            (ret, s, addrs, inp'') \<Rightarrow> (ret, s, addr # addrs, inp''))"

lemma addr_mode_ucast:
  assumes "cache_ok c"
  shows "ucast (ucast (addr_mode (choose_address c addr here)) :: uint8) = addr_mode (choose_address c addr here)"
proof -
  have "unat (addr_mode (choose_address c addr here)) < 256"
    using decode_choose_address(2) [of "stream_zero\<lparr>acache := c\<rparr>" _ addr here] assms
    by (simp add: cache_ok_def)
  then show ?thesis
    by (simp add: word_unat_eq_iff unsigned_ucast_eq unsigned_take_bit_eq take_bit_nat_eq_self)
qed

lemma encode_addresses_facts:
  "sink_ok ADDR stream \<Longrightarrow> cache_ok (acache stream) \<Longrightarrow>
    encode_addresses stream hxs = (XD3_OK, s, modes) \<Longrightarrow>
    sect_bytes ADDR s = sect_bytes ADDR stream @ snd (address_codec.enc_list (acache stream) hxs) \<and>
    map ucast modes = fst (address_codec.enc_list (acache stream) hxs) \<and>
    acache s = foldl xd3_update_cache (acache stream) (map snd hxs)"
proof (induction stream hxs arbitrary: s modes rule: encode_addresses.induct)
  case (2 stream here addr rest)
  obtain ret t mode where t: "xd3_encode_address stream addr here 0 = (ret, t, mode)" by (metis prod_cases3)
  note f = encode_address_facts [OF 2(2) t refl]
  have ret: "ret = XD3_OK" using 2(4) t by (auto split: if_splits)
  obtain ms where ms: "encode_addresses t rest = (XD3_OK, s, ms)" "modes = mode # ms"
    using 2(4) t ret by (auto split: prod.splits)
  have "cache_ok (acache t)" using f(3) ret cache_ok_update [OF 2(3)] by simp
  from 2(1) [OF t [symmetric] refl _ f(1) this ms(1)] ret f(3)
  show ?case using addr_mode_ucast [OF 2(3)] by (simp add: ms(2))
qed simp

lemma address_dec_stream:
  assumes "address_dec (acache stream) here mode inp = Some (addr, rest)"
  shows "xd3_decode_address stream here mode inp 0 =
    (XD3_OK, stream\<lparr>acache := xd3_update_cache (acache stream) addr\<rparr>, rest, addr)"
  using assms
  by (auto simp: address_dec_def xd3_decode_address_def split: prod.splits if_splits)

lemma decode_addresses_facts:
  "length hs = length modes \<Longrightarrow>
    address_codec.dec_list (acache stream) (zip hs (map ucast modes)) inp = Some (addrs, rest) \<Longrightarrow>
    decode_addresses stream (zip hs modes) inp =
      (XD3_OK, stream\<lparr>acache := foldl xd3_update_cache (acache stream) addrs\<rparr>, addrs, rest)"
proof (induction hs modes arbitrary: stream inp addrs rule: list_induct2)
  case (Cons h hs m modes)
  then obtain a r as where *: "address_dec (acache stream) h (ucast m) inp = Some (a, r)"
    "address_codec.dec_list (xd3_update_cache (acache stream) a) (zip hs (map ucast modes)) r = Some (as, rest)"
    "addrs = a # as"
    by (auto split: option.splits)
  then show ?case
    using address_dec_stream [OF *(1)]
      Cons.IH [of "stream\<lparr>acache := xd3_update_cache (acache stream) a\<rparr>" r as]
    by simp
qed simp

lemma length_encode_addresses:
  "encode_addresses stream hxs = (XD3_OK, s, modes) \<Longrightarrow> length modes = length hxs"
proof (induction stream hxs arbitrary: s modes rule: encode_addresses.induct)
  case (2 stream here addr rest)
  then show ?case by (auto split: prod.splits if_splits)
qed simp

section \<open>The choice of the shortest form\<close>

lemma SMALLEST_INT_iff: "SMALLEST_INT x \<longleftrightarrow> unat (take_bit 32 x) < 128"
proof -
  have c: "ucast (NOT 127 :: uint32) = (mask 32 AND NOT (mask 7) :: usize_t)"
    by (simp add: mask_eq_exp_minus_1)
  have "x AND ucast (NOT 127 :: uint32) = take_bit 32 x AND NOT (mask 7)"
    unfolding c by (rule bit_word_eqI) (auto simp: bit_simps)
  then show ?thesis unfolding SMALLEST_INT_def by (simp only: and_not_mask_eq_0_iff) simp
qed

lemma near_loop_best:
  "near_loop ns i addr d0 m0 = (g, d, m) \<Longrightarrow> d \<le> d0 \<and>
    (g \<longrightarrow> SMALLEST_INT d) \<and> (\<not> g \<longrightarrow> (\<forall>n \<in> set ns. n \<le> addr \<longrightarrow> d \<le> addr - n))"
proof (induction ns i addr d0 m0 rule: near_loop.induct)
  case (2 near rest i addr bestd bestm)
  then show ?case by (auto split: if_splits)
qed simp

lemma length_emit_mono:
  assumes "a \<le> b"
  shows "length (xd3_emit_size_bytes a) \<le> length (xd3_emit_size_bytes b)"
proof -
  obtain k where k: "length (emit_integer b) = Suc k"
    using emit_integer_nonempty [of b] by (cases "emit_integer b") auto
  then have "unat b < 2 ^ (7 * Suc k)" using length_emit_integer_le [of b k] by simp
  then have "unat a < 2 ^ (7 * Suc k)" using assms by (simp add: word_le_nat_alt)
  then have "length (emit_integer a) \<le> Suc k" by (simp only: length_emit_integer_le)
  then show ?thesis by (simp add: xd3_emit_size_bytes_def xd3_emit_uint64_t_def k)
qed

lemma sub_wrap_ge: "addr < n \<Longrightarrow> addr \<le> addr - (n :: 64 word)"
proof -
  assume less: "addr < n"
  have "uint addr < uint n" using less by (simp add: word_less_def)
  moreover have "uint n < 2 ^ 64" using uint_lt2p [of n] by simp
  moreover have "uint (addr - n) = (uint addr - uint n) mod 2 ^ 64"
    by (simp add: uint_word_ariths)
  moreover have "(uint addr - uint n) mod 2 ^ 64 = (uint addr - uint n + 2 ^ 64) mod 2 ^ 64"
    by (simp only: mod_add_self2)
  moreover have "(uint addr - uint n + 2 ^ 64) mod 2 ^ 64 = uint addr - uint n + 2 ^ 64"
    using calculation(1,2) uint_ge_0 [of addr] by (intro mod_pos_pos_trivial) linarith+
  ultimately show ?thesis unfolding word_le_def by linarith
qed

lemma emit_size_small: "unat d < 128 \<Longrightarrow> length (xd3_emit_size_bytes d) = 1"
  using length_emit_integer_eqI [of d 0] by (simp add: xd3_emit_size_bytes_def xd3_emit_uint64_t_def)

lemma emit_size_ge_1: "1 \<le> length (xd3_emit_size_bytes d)"
  using emit_integer_nonempty [of d]
  by (cases "emit_integer d") (simp_all add: xd3_emit_size_bytes_def xd3_emit_uint64_t_def)

text \<open>An integer form is either small or at most every integer the address has.\<close>

lemma choose_address_best:
  assumes ok: "cache_ok c" and ch: "choose_address c addr here = Addr_int d m"
  shows "d \<le> addr" "SMALLEST_INT d \<or> (\<forall>m' d'. addr_denotes c here addr m' d' \<longrightarrow> d \<le> d')"
proof -
  let ?ns = "take (unat (s_near c)) (near_array c)"
  have ns: "?ns = near_array c" "length (near_array c) = unat (s_near c)"
    using ok by (simp_all add: cache_ok_def)
  have all: "d \<le> d'" if "d \<le> addr" "d \<le> here - addr" "\<forall>n \<in> set ?ns. n \<le> addr \<longrightarrow> d \<le> addr - n"
    "addr_denotes c here addr m' d'" for m' d'
    using that(4) unfolding addr_denotes_def
  proof (elim disjE conjE exE)
    fix i assume i: "i < unat (s_near c)" and d': "d' = addr - near_array c ! i"
    show "d \<le> d'"
    proof (cases "near_array c ! i \<le> addr")
      case True
      with i ns that(3) show ?thesis by (simp add: d' all_set_conv_all_nth)
    next
      case False
      then have "addr \<le> d'" using sub_wrap_ge d' by (simp add: not_le)
      with that(1) show ?thesis by (rule order.trans)
    qed
  qed (use that(1,2) in simp_all)
  have base: "(if here - addr < addr then here - addr else addr) \<le> addr"
    "(if here - addr < addr then here - addr else addr) \<le> here - addr"
    by (auto simp: not_less)
  have "d \<le> addr \<and> (SMALLEST_INT d \<or> (\<forall>m' d'. addr_denotes c here addr m' d' \<longrightarrow> d \<le> d'))"
  proof (cases "SMALLEST_INT addr")
    case True
    then show ?thesis using ch by (simp add: choose_address_def)
  next
    case big: False
    show ?thesis
    proof (cases "here - addr < addr \<and> SMALLEST_INT (here - addr)")
      case True
      then show ?thesis using ch big by (auto simp: choose_address_def Let_def)
    next
      case False
      let ?d0 = "if here - addr < addr then here - addr else addr"
      let ?m0 = "if here - addr < addr then VCD_HERE else VCD_SELF"
      obtain g d1 m1 where nl: "near_loop ?ns 0 addr ?d0 ?m0 = (g, d1, m1)" by (metis prod_cases3)
      have "d = d1"
        using ch big False nl
        by (auto simp: choose_address_def Let_def split: if_splits prod.splits)
      then have best: "d \<le> ?d0" "g \<longrightarrow> SMALLEST_INT d" "\<not> g \<longrightarrow> (\<forall>n \<in> set ?ns. n \<le> addr \<longrightarrow> d \<le> addr - n)"
        using near_loop_best [OF nl] by auto
      have le: "d \<le> addr" "d \<le> here - addr" using best(1) base by (meson order.trans)+
      show ?thesis
      proof (cases g)
        case True
        then show ?thesis using best le by blast
      next
        case False
        then show ?thesis using all [OF le] best(3) le(1) by blast
      qed
    qed
  qed
  then show "d \<le> addr" "SMALLEST_INT d \<or> (\<forall>m' d'. addr_denotes c here addr m' d' \<longrightarrow> d \<le> d')"
    by auto
qed

section \<open>Properties\<close>

text \<open>C9: addresses survive the cache.  Whatever addresses the encoder writes to the address section,
  in whatever modes it chooses, a decoder that starts from the same cache and is given the modes
  reads back exactly those addresses, uses up exactly the bytes written, and ends with the
  encoder's cache.\<close>

theorem address_roundtrip:
  assumes "sink_ok ADDR stream" and "cache_ok (acache stream)"
    and "encode_addresses stream hxs = (XD3_OK, stream', modes)"
    and "acache dec = acache stream"
  shows "\<exists>bs. sect_bytes ADDR stream' = sect_bytes ADDR stream @ bs \<and>
    decode_addresses dec (zip (map fst hxs) modes) (bs @ rest) =
      (XD3_OK, dec\<lparr>acache := acache stream'\<rparr>, map snd hxs, rest)"
proof -
  let ?e = "address_codec.enc_list (acache stream) hxs"
  note e = encode_addresses_facts [OF assms(1-3)]
  have "address_codec.dec_list (acache dec) (zip (map fst hxs) (map ucast modes)) (snd ?e @ rest) =
      Some (map snd hxs, rest)"
    using address_codec.dec_enc_list [OF assms(2), of hxs rest] e assms(4) by simp
  then have "decode_addresses dec (zip (map fst hxs) modes) (snd ?e @ rest) =
      (XD3_OK, dec\<lparr>acache := foldl xd3_update_cache (acache dec) (map snd hxs)\<rparr>, map snd hxs, rest)"
    using length_encode_addresses [OF assms(3)] by (intro decode_addresses_facts) simp_all
  then show ?thesis using e assms(4) by (intro exI [of _ "snd ?e"]) simp
qed

definition address_example :: xd3_outputs where
  "address_example = outputs_zero
     \<lparr>enc_chain := (\<lambda>_. [\<lparr>out_base = [], out_avail = 8\<rparr>]),
      acache := \<lparr>s_near = 2, s_same = 0, next_slot = 0, near_array = [0, 0], same_array = []\<rparr>\<rparr>"

theorem address_roundtrip_witness:
  "\<exists>s modes bs. encode_addresses address_example [(1000, 500), (2000, 510)] = (XD3_OK, s, modes) \<and>
    decode_addresses address_example (zip [1000, 2000] modes) bs =
      (XD3_OK, address_example\<lparr>acache := acache s\<rparr>, [500, 510], [])"
proof -
  let ?xs = "[(1000, 500), (2000, 510)]"
  obtain ret s modes where e: "encode_addresses address_example ?xs = (ret, s, modes)" by (metis prod_cases3)
  have "fst (encode_addresses address_example ?xs) = XD3_OK" by code_simp
  then have e: "encode_addresses address_example ?xs = (XD3_OK, s, modes)" using e by simp
  have "sink_ok ADDR address_example" by code_simp
  moreover have "cache_ok (acache address_example)" by code_simp
  ultimately show ?thesis
    using address_roundtrip [OF _ _ e refl, of "[]"] e by auto
qed



text \<open>Beyond that the constant \<open>~127U\<close> hides the high bits: for the address $2^{32}$ the search
  stops at once and writes five bytes where the distance takes one.\<close>

lemma choose_address_not_shortest:
  "addr_bytes (choose_address (xd3_init_cache acache_zero) 0x100000000 0x100000001) =
     xd3_emit_size_bytes 0x100000000 \<and>
   addr_denotes (xd3_init_cache acache_zero) 0x100000001 0x100000000 VCD_HERE 1 \<and>
   length (xd3_emit_size_bytes 0x100000000) = 5 \<and> length (xd3_emit_size_bytes 1) = 1"
  by (simp add: choose_address_def SMALLEST_INT_def addr_bytes_def addr_denotes_def
      length_emit_integer_eqI [of _ 4, simplified] length_emit_integer_eqI [of _ 0, simplified]
      xd3_emit_size_bytes_def xd3_emit_uint64_t_def)

end
