(* ===== verification/Xd3_Source.thy ===== *)
theory Xd3_Source
  imports Xd3_Types Xd3_Util
begin

text \<open>
  The source file as the library sees it: an application hands out one block at a time through
  \<open>getblk\<close>, and offsets are split into a block number and an offset on the block by a shift and a
  mask, for which \<open>xd3_set_source\<close> raises the block size to a power of two.
\<close>

section \<open>Definitions\<close>

definition xd3_source_eof :: "xd3_source \<Rightarrow> xoff_t" where
  "xd3_source_eof s = push_bit (unat (shiftby s)) (max_blkno s) + onlastblk s"

definition xd3_bytes_on_srcblk :: "xd3_source \<Rightarrow> xoff_t \<Rightarrow> usize_t" where
  "xd3_bytes_on_srcblk s blkno = (if blkno = max_blkno s then onlastblk s else blksize s)"

definition xd3_blksize_div :: "xoff_t \<Rightarrow> xd3_source \<Rightarrow> xoff_t \<times> usize_t" where
  "xd3_blksize_div offset s = (drop_bit (unat (shiftby s)) offset, offset AND maskby s)"

definition xd3_blksize_add :: "xoff_t \<Rightarrow> usize_t \<Rightarrow> xd3_source \<Rightarrow> usize_t \<Rightarrow> xoff_t \<times> usize_t" where
  "xd3_blksize_add blkno blkoff s add =
     (let blkoff = blkoff + add; blkdiff = drop_bit (unat (shiftby s)) blkoff in
      if blkdiff \<noteq> 0 then (blkno + blkdiff, blkoff AND maskby s) else (blkno, blkoff))"

text \<open>
  \<open>xd3_getblk\<close>.  The callback gets the source and returns its status and the source it has set up;
  without a callback the caller is asked for the block.  A null source is undefined.
\<close>

definition getblk_note :: "xd3_source \<Rightarrow> xoff_t \<Rightarrow> xd3_source" where
  "getblk_note s blkno =
     (let s = (if blkno > max_blkno s
               then let s = s\<lparr>max_blkno := blkno\<rparr> in
                 if onblk s = blksize s then s
                 else if \<not> eof_known s then s\<lparr>eof_known := True\<rparr> else s
               else s)
      in if blkno = max_blkno s then s\<lparr>onlastblk := onblk s\<rparr> else s)"

definition xd3_getblk :: "'a xd3_stream_scheme \<Rightarrow> xoff_t \<Rightarrow> xd3_rvalue \<times> 'a xd3_stream_scheme" where
  "xd3_getblk stream blkno =
     (case src stream of
        None \<Rightarrow> (C_UNDEFINED, stream)
      | Some s \<Rightarrow>
          if curblk s = None \<or> blkno \<noteq> curblkno s then
            let s = s\<lparr>getblkno := blkno\<rparr> in
            case getblk stream of
              None \<Rightarrow> (XD3_GETSRCBLK, stream\<lparr>src := Some s, msg := Some ''getblk source input''\<rparr>)
            | Some f \<Rightarrow>
                (case f s blkno of
                   (ret, s) \<Rightarrow>
                     if ret \<noteq> XD3_OK then (ret, stream\<lparr>src := Some s\<rparr>)
                     else (XD3_OK, stream\<lparr>src := Some (getblk_note s blkno)\<rparr>))
          else (XD3_OK, stream\<lparr>src := Some (getblk_note s blkno)\<rparr>))"

text \<open>
  \<open>xd3_set_source\<close>; the rounding of a size above $2^{63}$ does not return.
\<close>

definition XD3_MAXSRCWINSZ :: xoff_t where
  "XD3_MAXSRCWINSZ = push_bit 61 1"

definition xd3_set_source ::
  "'a xd3_stream_scheme \<Rightarrow> xd3_source \<Rightarrow> xd3_rvalue \<times> 'a xd3_stream_scheme" where
  "xd3_set_source stream s =
     (let s = s\<lparr>srclen := 0, srcbase := 0\<rparr>;
          blk = (if fst (xd3_check_pow2 (blksize s)) \<noteq> XD3_OK then xd3_pow2_roundup (blksize s)
                 else Some (blksize s)) in
      case blk of
        None \<Rightarrow> (C_DIVERGES, stream\<lparr>src := Some s\<rparr>)
      | Some b \<Rightarrow>
          let sh = snd (xd3_check_pow2 b);
              s = s\<lparr>blksize := b, shiftby := sh, maskby := push_bit (unat sh) 1 - 1\<rparr>;
              win = (if fst (xd3_check_pow2 (max_winsize s)) \<noteq> XD3_OK
                     then xd3_xoff_roundup (max_winsize s) else Some (max_winsize s)) in
          case win of
            None \<Rightarrow> (C_DIVERGES, stream\<lparr>src := Some s\<rparr>)
          | Some w \<Rightarrow>
              let s = s\<lparr>max_winsize := (if w < XD3_ALLOCSIZE then XD3_ALLOCSIZE else w)\<rparr> in
              if max_winsize s > XD3_MAXSRCWINSZ
              then (XD3_INVALID, stream\<lparr>src := Some s, msg := Some ''source max_winsize exceeds the maximum''\<rparr>)
              else (XD3_OK, stream\<lparr>src := Some s\<rparr>))"

definition xd3_set_source_and_size ::
  "'a xd3_stream_scheme \<Rightarrow> xd3_source \<Rightarrow> xoff_t \<Rightarrow> xd3_rvalue \<times> 'a xd3_stream_scheme" where
  "xd3_set_source_and_size stream user_source ssize =
     (case xd3_set_source stream user_source of
        (ret, st) \<Rightarrow>
          if ret = XD3_OK then
            case src st of
              None \<Rightarrow> (C_UNDEFINED, st)
            | Some s \<Rightarrow>
                case xd3_blksize_div ssize s of
                  (b, l) \<Rightarrow> (XD3_OK, st\<lparr>src := Some (s\<lparr>eof_known := True, max_blkno := b, onlastblk := l\<rparr>)\<rparr>)
          else (ret, st))"

section \<open>Block arithmetic\<close>

text \<open>What \<open>xd3_set_source\<close> establishes and every later operation keeps.\<close>

definition source_ok :: "xd3_source \<Rightarrow> bool" where
  "source_ok s \<longleftrightarrow> unat (shiftby s) < 64 \<and> blksize s = 2 ^ unat (shiftby s) \<and> maskby s = blksize s - 1"

text \<open>The block in memory is the one the fields describe.\<close>

definition block_ok :: "xd3_source \<Rightarrow> bool" where
  "block_ok s \<longleftrightarrow> (case curblk s of None \<Rightarrow> True
     | Some b \<Rightarrow> length b = unat (onblk s) \<and> onblk s \<le> blksize s)"

text \<open>The documented contract of the callback: it fills in the block and leaves the rest alone.\<close>

definition getblk_ok :: "(xd3_source \<Rightarrow> xoff_t \<Rightarrow> xd3_rvalue \<times> xd3_source) \<Rightarrow> bool" where
  "getblk_ok f \<longleftrightarrow> (\<forall>s blkno ret t. f s blkno = (ret, t) \<longrightarrow>
     blksize t = blksize s \<and> shiftby t = shiftby s \<and> maskby t = maskby s \<and>
     cpyoff_blocks t = cpyoff_blocks s \<and> cpyoff_blkoff t = cpyoff_blkoff s \<and>
     (block_ok s \<longrightarrow> block_ok t) \<and> ret \<notin> {C_UNDEFINED, C_DIVERGES, XD3_OUTPUT} \<and>
     (ret = XD3_OK \<longrightarrow> curblk t \<noteq> None \<and> curblkno t = blkno))"

lemma source_ok_blksize: "source_ok s \<Longrightarrow> unat (blksize s) = 2 ^ unat (shiftby s)"
  by (simp only: source_ok_def unat_pow2_64)

lemma blksize_div_nat:
  assumes "source_ok s" and "xd3_blksize_div offset s = (b, r)"
  shows "unat b = unat offset div unat (blksize s)" "unat r = unat offset mod unat (blksize s)"
proof -
  have r: "r = offset AND (2 ^ unat (shiftby s) - 1)" and b: "b = drop_bit (unat (shiftby s)) offset"
    using assms by (auto simp: xd3_blksize_div_def source_ok_def)
  show "unat b = unat offset div unat (blksize s)"
    by (simp only: b unat_drop_bit source_ok_blksize [OF assms(1)])
  show "unat r = unat offset mod unat (blksize s)"
    unfolding r source_ok_blksize [OF assms(1)]
    by (rule and_pow2_minus_1) (use assms(1) in \<open>simp add: source_ok_def\<close>)
qed

lemma blksize_add_nat:
  assumes ok: "source_ok s" and add: "xd3_blksize_add blkno blkoff s add = (b, r)"
    and no: "unat blkoff + unat add < 2 ^ 64"
  shows "unat r < unat (blksize s)" "unat r = (unat blkoff + unat add) mod unat (blksize s)"
    "b = blkno + of_nat ((unat blkoff + unat add) div unat (blksize s))"
proof -
  let ?B = "unat (blksize s)" and ?x = "blkoff + add"
  have x: "unat ?x = unat blkoff + unat add" using no by (rule unat_plus_64)
  have B: "?B = 2 ^ unat (shiftby s)" using ok by (rule source_ok_blksize)
  have d: "unat (drop_bit (unat (shiftby s)) ?x) = (unat blkoff + unat add) div ?B"
    by (simp only: unat_drop_bit x B)
  have m: "unat (?x AND maskby s) = (unat blkoff + unat add) mod ?B"
    unfolding x [symmetric] B
    using ok by (subst and_pow2_minus_1 [symmetric]) (simp_all add: source_ok_def)
  have pos: "0 < ?B" by (simp add: B)
  have "unat r = (unat blkoff + unat add) mod ?B \<and>
      b = blkno + of_nat ((unat blkoff + unat add) div ?B)"
  proof (cases "drop_bit (unat (shiftby s)) ?x = 0")
    case True
    then have small: "(unat blkoff + unat add) div ?B = 0" using d by simp
    then have "unat blkoff + unat add < ?B" using pos by (simp add: div_eq_0_iff)
    then show ?thesis using add True small x by (simp add: xd3_blksize_add_def Let_def)
  next
    case False
    have "drop_bit (unat (shiftby s)) ?x = of_nat ((unat blkoff + unat add) div ?B)"
      by (simp flip: d)
    then show ?thesis using add False m by (simp add: xd3_blksize_add_def Let_def)
  qed
  then show "unat r = (unat blkoff + unat add) mod ?B"
    "b = blkno + of_nat ((unat blkoff + unat add) div ?B)" "unat r < ?B"
    using pos by auto
qed

text \<open>Splitting an offset and adding to the parts is splitting the sum.\<close>

lemma blksize_div_add:
  assumes ok: "source_ok s" and div: "xd3_blksize_div offset s = (b0, r0)"
    and add: "xd3_blksize_add b0 r0 s add = (b, r)"
    and no: "unat offset + unat add < 2 ^ 64"
  shows "unat b * unat (blksize s) + unat r = unat offset + unat add" "unat r < unat (blksize s)"
proof -
  let ?B = "unat (blksize s)" and ?o = "unat offset"
  have pos: "0 < ?B" using source_ok_blksize [OF ok] by simp
  note d = blksize_div_nat [OF ok div]
  have le: "unat r0 \<le> ?o" using d(2) by simp
  with no have no': "unat r0 + unat add < 2 ^ 64" by linarith
  note a = blksize_add_nat [OF ok add no']
  let ?q = "(unat r0 + unat add) div ?B"
  have sum: "(?o div ?B + ?q) * ?B + (unat r0 + unat add) mod ?B = ?o + unat add"
  proof -
    have "?q * ?B + (unat r0 + unat add) mod ?B = unat r0 + unat add" by (rule div_mult_mod_eq)
    moreover have "?o div ?B * ?B + unat r0 = ?o" unfolding d(2) by (rule div_mult_mod_eq)
    ultimately show ?thesis unfolding add_mult_distrib by linarith
  qed
  have "?o div ?B + ?q \<le> (?o div ?B + ?q) * ?B" using pos by simp
  then have small: "?o div ?B + ?q < 2 ^ 64" using sum no by linarith
  have "unat b = ?o div ?B + ?q"
  proof -
    have q: "unat (of_nat ?q :: xoff_t) = ?q" using small by (intro unat_of_nat_64) linarith
    have "unat (b0 + of_nat ?q) = unat b0 + unat (of_nat ?q :: xoff_t)"
      using small by (intro unat_plus_64) (simp only: q d(1))
    then show ?thesis by (simp only: a(3) q d(1))
  qed
  then show "unat b * ?B + unat r = ?o + unat add" using sum a(2) by (simp only:)
  show "unat r < ?B" by (rule a(1))
qed

section \<open>Reading a block\<close>

lemma getblk_note_fields [simp]:
  "blksize (getblk_note s n) = blksize s" "shiftby (getblk_note s n) = shiftby s"
  "maskby (getblk_note s n) = maskby s" "curblk (getblk_note s n) = curblk s"
  "curblkno (getblk_note s n) = curblkno s" "onblk (getblk_note s n) = onblk s"
  "cpyoff_blocks (getblk_note s n) = cpyoff_blocks s"
  "cpyoff_blkoff (getblk_note s n) = cpyoff_blkoff s"
  by (simp_all add: getblk_note_def Let_def)

lemma getblk_note_ok [simp]:
  "source_ok (getblk_note s n) = source_ok s" "block_ok (getblk_note s n) = block_ok s"
  by (auto simp: source_ok_def block_ok_def split: option.splits)

definition src_ok :: "'a xd3_stream_scheme \<Rightarrow> bool" where
  "src_ok stream \<longleftrightarrow> (case src stream of None \<Rightarrow> True | Some s \<Rightarrow> source_ok s \<and> block_ok s) \<and>
     (case getblk stream of None \<Rightarrow> True | Some f \<Rightarrow> getblk_ok f)"

lemma xd3_getblk_ok:
  assumes ok: "src_ok stream" and s: "src stream = Some s" and g: "xd3_getblk stream blkno = (ret, st)"
  shows "\<exists>t m. st = stream\<lparr>src := Some t, msg := m\<rparr> \<and> source_ok t \<and> block_ok t \<and>
    blksize t = blksize s \<and> shiftby t = shiftby s \<and> maskby t = maskby s \<and>
    cpyoff_blocks t = cpyoff_blocks s \<and> cpyoff_blkoff t = cpyoff_blkoff s \<and>
    ret \<notin> {C_UNDEFINED, C_DIVERGES, XD3_OUTPUT} \<and> (ret = XD3_OK \<longrightarrow> curblk t \<noteq> None \<and> curblkno t = blkno)"
proof -
  have so: "source_ok s" "block_ok s" using ok s by (simp_all add: src_ok_def)
  then have so': "source_ok (s\<lparr>getblkno := blkno\<rparr>)" "block_ok (s\<lparr>getblkno := blkno\<rparr>)"
    by (auto simp: source_ok_def block_ok_def split: option.splits)
  show ?thesis
  proof (cases "curblk s = None \<or> blkno \<noteq> curblkno s")
    case miss: True
    show ?thesis
    proof (cases "getblk stream")
      case None
      then have "st = stream\<lparr>src := Some (s\<lparr>getblkno := blkno\<rparr>), msg := Some ''getblk source input''\<rparr> \<and>
          ret = XD3_GETSRCBLK"
        using g s miss by (simp add: xd3_getblk_def Let_def)
      then show ?thesis using so' by (intro exI conjI) (rule conjunct1, assumption, simp_all)
    next
      case (Some f)
      obtain r t where f: "f (s\<lparr>getblkno := blkno\<rparr>) blkno = (r, t)" by fastforce
      have "getblk_ok f" using ok Some by (simp add: src_ok_def)
      then have t: "blksize t = blksize s" "shiftby t = shiftby s" "maskby t = maskby s"
        "cpyoff_blocks t = cpyoff_blocks s" "cpyoff_blkoff t = cpyoff_blkoff s" "block_ok t"
        "r \<notin> {C_UNDEFINED, C_DIVERGES, XD3_OUTPUT}" "r = XD3_OK \<longrightarrow> curblk t \<noteq> None \<and> curblkno t = blkno"
        using f so'(2) unfolding getblk_ok_def by fastforce+
      have "source_ok t" using so(1) t(1-3) by (simp add: source_ok_def)
      moreover have "st = stream\<lparr>src := Some (if r = XD3_OK then getblk_note t blkno else t), msg := msg stream\<rparr> \<and> ret = r"
        using g s miss Some f by (auto simp: xd3_getblk_def Let_def)
      ultimately show ?thesis
        using t by (intro exI [of _ "if r = XD3_OK then getblk_note t blkno else t"] exI [of _ "msg stream"]) simp
    qed
  next
    case False
    then have "st = stream\<lparr>src := Some (getblk_note s blkno), msg := msg stream\<rparr> \<and> ret = XD3_OK"
      using g s by (auto simp: xd3_getblk_def)
    then show ?thesis
      using so False by (intro exI [of _ "getblk_note s blkno"] exI [of _ "msg stream"]) simp
  qed
qed

section \<open>The source file\<close>

text \<open>The application's side: the callback hands out the blocks of \<open>file\<close>.\<close>

definition block_of :: "uint8 list \<Rightarrow> nat \<Rightarrow> nat \<Rightarrow> uint8 list" where
  "block_of file bs n = take bs (drop (n * bs) file)"

definition holds_file :: "uint8 list \<Rightarrow> xd3_source \<Rightarrow> bool" where
  "holds_file file x \<longleftrightarrow> source_ok x \<and>
     (\<forall>b. curblk x = Some b \<longrightarrow> b = block_of file (unat (blksize x)) (unat (curblkno x)) \<and> length b = unat (onblk x))"

definition same_source :: "xd3_source \<Rightarrow> xd3_source \<Rightarrow> bool" where
  "same_source x y \<longleftrightarrow> blksize y = blksize x \<and> shiftby y = shiftby x \<and> maskby y = maskby x \<and>
     srclen y = srclen x \<and> srcbase y = srcbase x \<and> max_winsize y = max_winsize x"

definition serves :: "uint8 list \<Rightarrow> (xd3_source \<Rightarrow> xoff_t \<Rightarrow> xd3_rvalue \<times> xd3_source) \<Rightarrow> bool" where
  "serves file f \<longleftrightarrow> (\<forall>x blkno ret y. f x blkno = (ret, y) \<longrightarrow> same_source x y \<and>
     (holds_file file x \<longrightarrow> holds_file file y) \<and> ret \<notin> {C_UNDEFINED, C_DIVERGES} \<and>
     (ret = XD3_OK \<longrightarrow> curblk y \<noteq> None \<and> curblkno y = blkno))"

definition src_true :: "uint8 list \<Rightarrow> 'a xd3_stream_scheme \<Rightarrow> bool" where
  "src_true file s \<longleftrightarrow> length file < 2 ^ 62 \<and> (\<forall>x. src s = Some x \<longrightarrow> holds_file file x) \<and>
     (\<forall>f. getblk s = Some f \<longrightarrow> serves file f)"

lemma getblk_note_same [simp]: "same_source (getblk_note x n) = same_source x" "same_source x (getblk_note y n) = same_source x y"
  by (auto simp: fun_eq_iff same_source_def getblk_note_def Let_def)

lemma getblk_note_window [simp]:
  "srclen (getblk_note x n) = srclen x" "srcbase (getblk_note x n) = srcbase x"
  "max_winsize (getblk_note x n) = max_winsize x"
  by (simp_all add: getblk_note_def Let_def)

lemma getblk_note_holds [simp]: "holds_file file (getblk_note x n) = holds_file file x"
  by (simp add: holds_file_def)

lemma same_source_refl [simp]: "same_source x x"
  by (simp add: same_source_def)

lemma getblk_true:
  assumes ok: "src_true file s" and x: "src s = Some x" and g: "xd3_getblk s blkno = (ret, t)"
  obtains y m where "t = s\<lparr>src := Some y, msg := m\<rparr>" and "src_true file t" and "same_source x y"
    and "ret = XD3_OK \<longrightarrow> curblk y = Some (block_of file (unat (blksize x)) (unat blkno)) \<and>
      unat (onblk y) = length (block_of file (unat (blksize x)) (unat blkno))"
    and "ret \<notin> {C_UNDEFINED, C_DIVERGES}"
proof -
  have xh: "holds_file file x" using ok x by (simp add: src_true_def)
  have "source_ok (x\<lparr>getblkno := blkno\<rparr>) = source_ok x" by (simp add: source_ok_def)
  then have xh': "holds_file file (x\<lparr>getblkno := blkno\<rparr>)" using xh by (simp add: holds_file_def)
  show thesis
  proof (cases "curblk x = None \<or> blkno \<noteq> curblkno x")
    case miss: True
    show ?thesis
    proof (cases "getblk s")
      case None
      then have "t = s\<lparr>src := Some (x\<lparr>getblkno := blkno\<rparr>), msg := Some ''getblk source input''\<rparr>" "ret = XD3_GETSRCBLK"
        using g x miss by (simp_all add: xd3_getblk_def Let_def)
      then show ?thesis using xh' ok
        by (intro that [where y = "x\<lparr>getblkno := blkno\<rparr>" and m = "Some ''getblk source input''"]) (auto simp: src_true_def same_source_def)
    next
      case (Some f)
      obtain r y where f: "f (x\<lparr>getblkno := blkno\<rparr>) blkno = (r, y)" by fastforce
      have "serves file f" using ok Some by (simp add: src_true_def)
      then have y: "same_source (x\<lparr>getblkno := blkno\<rparr>) y" "holds_file file y" "r \<notin> {C_UNDEFINED, C_DIVERGES}"
          "r = XD3_OK \<longrightarrow> curblk y \<noteq> None \<and> curblkno y = blkno"
        using f xh' unfolding serves_def by blast+
      have "t = s\<lparr>src := Some (if r = XD3_OK then getblk_note y blkno else y), msg := msg s\<rparr> \<and> ret = r"
        using g x miss Some f by (auto simp: xd3_getblk_def Let_def)
      then show ?thesis using y ok
        by (intro that [where y = "if r = XD3_OK then getblk_note y blkno else y" and m = "msg s"]) (auto simp: src_true_def same_source_def holds_file_def)
    qed
  next
    case False
    then have "t = s\<lparr>src := Some (getblk_note x blkno), msg := msg s\<rparr>" "ret = XD3_OK"
      using g x by (auto simp: xd3_getblk_def)
    then show ?thesis using xh ok False
      by (intro that [where y = "getblk_note x blkno" and m = "msg s"]) (auto simp: src_true_def holds_file_def)
  qed
qed

text \<open>A byte of a block is a byte of the file.\<close>

lemma block_byte:
  assumes "i < length (block_of file bs n)"
  shows "i < bs \<and> n * bs + i < length file \<and> block_of file bs n ! i = file ! (n * bs + i)"
  using assms by (auto simp: block_of_def)

section \<open>Setting the source\<close>

lemma check_pow2_cases:
  "(\<exists>n < 64. v = 2 ^ n \<and> xd3_check_pow2 v = (XD3_OK, of_nat n)) \<or>
   (\<forall>n < 64. v \<noteq> 2 ^ n) \<and> xd3_check_pow2 v = (XD3_INTERNAL, 64)"
proof (cases "\<exists>n < 64. v = 2 ^ n")
  case True
  then obtain n where n: "n < 64" "v = 2 ^ n" by blast
  then show ?thesis using check_pow2_loop_hit [of 0 n 0] by (auto simp: xd3_check_pow2_def)
next
  case False
  then show ?thesis using check_pow2_loop_miss [of v 0 0] by (auto simp: xd3_check_pow2_def)
qed

text \<open>The size after the two steps ``check, round up'', for a block or a window.\<close>

lemma rounded_pow2:
  assumes "(if fst (xd3_check_pow2 v) \<noteq> XD3_OK then pow2_roundup_loop v 1 else Some v) = Some w"
  shows "v \<le> 2 ^ 63 \<and> v \<le> w \<and> (\<exists>n < 64. w = 2 ^ n \<and> xd3_check_pow2 w = (XD3_OK, of_nat n))"
  using check_pow2_cases [of v]
proof (elim disjE exE conjE)
  fix n :: nat assume "n < 64" "v = 2 ^ n" "xd3_check_pow2 v = (XD3_OK, of_nat n)"
  then show ?thesis using assms pow2_64_le_max by auto
next
  assume "xd3_check_pow2 v = (XD3_INTERNAL, 64)"
  with assms have w: "pow2_roundup_loop v 1 = Some w" by simp
  then have le: "v \<le> 2 ^ 63" using pow2_roundup_loop_large [of v] by (cases "v \<le> 2 ^ 63") (auto simp: not_le)
  from pow2_roundup_loop_small [OF this] obtain n where n: "n < 64" "w = 2 ^ n" "v \<le> 2 ^ n"
    using w by auto
  then show ?thesis
    using le check_pow2_loop_hit [of 0 n 0] by (auto simp: xd3_check_pow2_def)
qed

lemma rounded_pow2_None:
  "(if fst (xd3_check_pow2 v) \<noteq> XD3_OK then pow2_roundup_loop v 1 else Some v) = None \<longleftrightarrow> 2 ^ 63 < v"
proof (cases "v \<le> 2 ^ 63")
  case True
  then show ?thesis using pow2_roundup_loop_small [OF True] by auto
next
  case False
  then have big: "2 ^ 63 < v" by (simp only: not_le)
  from check_pow2_cases [of v] show ?thesis
    using big pow2_64_le_max pow2_roundup_loop_large [OF big]
    by (auto simp: not_le [symmetric])
qed

lemma mask_of_pow2: "n < 64 \<Longrightarrow> unat (of_nat n :: usize_t) = n"
  by (rule unat_of_nat_64) simp

lemma set_source_result:
  "xd3_set_source stream s =
    (if 2 ^ 63 < blksize s \<or> 2 ^ 63 < max_winsize s
     then (C_DIVERGES, snd (xd3_set_source stream s))
     else xd3_set_source stream s)"
  using rounded_pow2_None [of "blksize s"] rounded_pow2_None [of "max_winsize s"]
  by (auto simp: xd3_set_source_def Let_def xd3_pow2_roundup_def xd3_xoff_roundup_def
      split: option.splits simp del: not_None_eq)

lemma set_source_ok:
  assumes "xd3_set_source stream s = (ret, st)" and "blksize s \<le> 2 ^ 63" and "max_winsize s \<le> 2 ^ 63"
  shows "\<exists>t. src st = Some t \<and> source_ok t \<and> blksize s \<le> blksize t \<and> max_winsize s \<le> max_winsize t \<and>
    16384 \<le> max_winsize t \<and>
    ret = (if XD3_MAXSRCWINSZ < max_winsize t then XD3_INVALID else XD3_OK)"
proof -
  obtain b where b: "(if fst (xd3_check_pow2 (blksize s)) \<noteq> XD3_OK then pow2_roundup_loop (blksize s) 1
      else Some (blksize s)) = Some b"
    using rounded_pow2_None [of "blksize s"] assms(2) by (auto simp: not_le [symmetric])
  obtain w where w: "(if fst (xd3_check_pow2 (max_winsize s)) \<noteq> XD3_OK then pow2_roundup_loop (max_winsize s) 1
      else Some (max_winsize s)) = Some w"
    using rounded_pow2_None [of "max_winsize s"] assms(3) by (auto simp: not_le [symmetric])
  from rounded_pow2 [OF b] obtain n where n: "n < 64" "b = 2 ^ n" "xd3_check_pow2 b = (XD3_OK, of_nat n)"
    "blksize s \<le> b" by blast
  from rounded_pow2 [OF w] have wle: "max_winsize s \<le> w" by blast
  define t where "t = s\<lparr>srclen := 0, srcbase := 0, blksize := b, shiftby := of_nat n,
    maskby := 2 ^ n - 1, max_winsize := (if w < 16384 then 16384 else w)\<rparr>"
  have "source_ok t" using n(1,2) by (simp add: source_ok_def t_def mask_of_pow2)
  moreover have "src st = Some t \<and> ret = (if XD3_MAXSRCWINSZ < max_winsize t then XD3_INVALID else XD3_OK)"
    using assms(1) b w n
    by (auto simp: xd3_set_source_def Let_def xd3_pow2_roundup_def xd3_xoff_roundup_def t_def
        mask_of_pow2 push_bit_eq_mult split: if_splits)
  moreover have "blksize s \<le> blksize t" "max_winsize s \<le> max_winsize t" "16384 \<le> max_winsize t"
    using n(4) wle by (auto simp: t_def)
  ultimately show ?thesis by blast
qed

section \<open>Properties\<close>

text \<open>C27: setting a source makes its block size a power of two with the matching shift and mask, never
  smaller than requested, and its window at least one allocation unit; a window beyond the cap is
  refused, and the call does not return exactly when a requested size exceeds $2^{63}$.\<close>

theorem set_source_spec:
  "case xd3_set_source stream s of (ret, st) \<Rightarrow>
     (if 2 ^ 63 < blksize s \<or> 2 ^ 63 < max_winsize s then ret = C_DIVERGES
      else \<exists>t. src st = Some t \<and> source_ok t \<and> blksize s \<le> blksize t \<and>
        max_winsize s \<le> max_winsize t \<and> 16384 \<le> max_winsize t \<and>
        ret = (if XD3_MAXSRCWINSZ < max_winsize t then XD3_INVALID else XD3_OK))"
proof (cases "xd3_set_source stream s")
  case (Pair ret st)
  show ?thesis
  proof (cases "2 ^ 63 < blksize s \<or> 2 ^ 63 < max_winsize s")
    case True
    then have "fst (xd3_set_source stream s) = C_DIVERGES"
      using set_source_result [of stream s] by (metis fst_conv)
    then show ?thesis using Pair True by simp
  next
    case False
    then have "blksize s \<le> 2 ^ 63" and "max_winsize s \<le> 2 ^ 63" by (simp_all only: not_less de_Morgan_disj)
    from set_source_ok [OF Pair this] show ?thesis
      by (simp only: Pair prod.case False if_False)
  qed
qed

text \<open>C28: locating an address of the copy window by adding it to the split window offset gives the
  block and the offset on it of the sum, for every power-of-two block size, as long as the sum does
  not pass $2^{64}$.\<close>

theorem source_address_blocks:
  assumes "source_ok s" and "xd3_blksize_div offset s = (b0, r0)"
    and "xd3_blksize_add b0 r0 s addr = (b, r)" and "unat offset + unat addr < 2 ^ 64"
  shows "unat b * unat (blksize s) + unat r = unat offset + unat addr \<and> unat r < unat (blksize s)"
  using blksize_div_add [OF assms] by simp

definition source_example :: xd3_source where
  "source_example =
     \<lparr> blksize = 16, max_winsize = 16384, curblkno = 0, onblk = 4, curblk = Some [10, 20, 30, 40],
       srclen = 0, srcbase = 0, shiftby = 4, maskby = 15, cpyoff_blocks = 0, cpyoff_blkoff = 0,
       getblkno = 0, max_blkno = 0, onlastblk = 4, eof_known = True \<rparr>"

theorem source_address_blocks_witness:
  "xd3_blksize_add 2 5 source_example 30 = (4, 3)"
proof -
  have d: "xd3_blksize_div 37 source_example = (2, 5)" by code_simp
  have a: "xd3_blksize_add 2 5 source_example 30 = (4, 3)" by code_simp
  have "source_ok source_example" by (simp add: source_ok_def source_example_def)
  from source_address_blocks [OF this d a] show ?thesis using a by simp
qed

end
