(* ===== verification/Xd3_Second.thy ===== *)
theory Xd3_Second
  imports Xd3_Output Xd3_Util
begin

text \<open>
  What the secondary compressors share, \<open>xdelta3-second.h\<close>: the bit coder, the compressor's state of a
  section and the compression of a section by the encoder.  The compressors are a parameter, the
  \<open>sec_type\<close> of the stream.  Bits are written low bit of a byte first, the high bit of a value first.
\<close>

section \<open>The bit coder\<close>

record bit_state =
  cur_byte :: uint8
  cur_mask :: usize_t

definition BIT_STATE_ENCODE_INIT :: bit_state where
  "BIT_STATE_ENCODE_INIT = \<lparr>cur_byte = 0, cur_mask = 1\<rparr>"

definition BIT_STATE_DECODE_INIT :: bit_state where
  "BIT_STATE_DECODE_INIT = \<lparr>cur_byte = 0, cur_mask = 0x100\<rparr>"

definition xd3_bit_state_encode_init :: "bit_state \<Rightarrow> bit_state" where
  "xd3_bit_state_encode_init bits = bits\<lparr>cur_byte := 0, cur_mask := 1\<rparr>"

text \<open>
  \<open>xd3_decode_bits\<close>: with \<open>vmask\<close>, the value so far and the input left, a bit is taken, or, when the
  byte is used up, the next byte.  The result has the status, the bits, the input and the value;
  \<open>None\<close> is a loop that does not end.
\<close>

partial_function (option) decode_bits_loop ::
  "bit_state \<Rightarrow> usize_t \<Rightarrow> usize_t \<Rightarrow> uint8 list \<Rightarrow>
     (xd3_rvalue \<times> string option \<times> bit_state \<times> uint8 list \<times> usize_t) option" where
  "decode_bits_loop bits vmask val input =
     (if cur_mask bits = 0x100 then
        (case input of
           [] \<Rightarrow> Some (XD3_INTERNAL, Some ''secondary decoder end of input'', bits, [], val)
         | b # rest \<Rightarrow> decode_bits_loop \<lparr>cur_byte = b, cur_mask = 1\<rparr> vmask val rest)
      else
        let vmask = drop_bit 1 vmask;
            val = (if ucast (cur_byte bits) AND cur_mask bits \<noteq> 0 then val OR vmask else val);
            bits = bits\<lparr>cur_mask := push_bit 1 (cur_mask bits)\<rparr> in
        if vmask = 1 then Some (XD3_OK, None, bits, input, val)
        else decode_bits_loop bits vmask val input)"

declare decode_bits_loop.simps [code]

definition xd3_decode_bits ::
  "bit_state \<Rightarrow> uint8 list \<Rightarrow> nat \<Rightarrow> (xd3_rvalue \<times> string option \<times> bit_state \<times> uint8 list \<times> usize_t) option" where
  "xd3_decode_bits bits input nbits = decode_bits_loop bits (push_bit nbits 1) 0 input"

type_synonym 'a bit_emission = "xd3_rvalue \<times> 'a xd3_outputs_scheme \<times> xd3_output list \<times> bit_state"

definition xd3_encode_bit ::
  "'a xd3_outputs_scheme \<Rightarrow> xd3_output list \<Rightarrow> bit_state \<Rightarrow> usize_t \<Rightarrow> 'a bit_emission" where
  "xd3_encode_bit stream output bits b =
     (let bits = (if b \<noteq> 0 then bits\<lparr>cur_byte := cur_byte bits OR ucast (cur_mask bits)\<rparr> else bits) in
      if cur_mask bits = 0x80 then
        case xd3_emit_byte stream output (cur_byte bits) of
          (ret, s, chain) \<Rightarrow>
            if ret \<noteq> XD3_OK then (ret, s, chain, bits)
            else (XD3_OK, s, chain, bits\<lparr>cur_byte := 0, cur_mask := 1\<rparr>)
      else (XD3_OK, stream, output, bits\<lparr>cur_mask := push_bit 1 (cur_mask bits)\<rparr>))"

definition xd3_flush_bits ::
  "'a xd3_outputs_scheme \<Rightarrow> xd3_output list \<Rightarrow> bit_state \<Rightarrow>
     xd3_rvalue \<times> 'a xd3_outputs_scheme \<times> xd3_output list" where
  "xd3_flush_bits stream output bits =
     (if cur_mask bits = 1 then (XD3_OK, stream, output) else xd3_emit_byte stream output (cur_byte bits))"

partial_function (option) encode_bits_loop ::
  "'a xd3_outputs_scheme \<Rightarrow> xd3_output list \<Rightarrow> bit_state \<Rightarrow> usize_t \<Rightarrow> usize_t \<Rightarrow> 'a bit_emission option" where
  "encode_bits_loop stream output bits vmask val =
     (let vmask = drop_bit 1 vmask in
      case xd3_encode_bit stream output bits (val AND vmask) of
        (ret, s, chain, bits) \<Rightarrow>
          if ret \<noteq> XD3_OK then Some (ret, s, chain, bits)
          else if vmask \<noteq> 1 then encode_bits_loop s chain bits vmask val
          else Some (XD3_OK, s, chain, bits))"

declare encode_bits_loop.simps [code]

definition xd3_encode_bits ::
  "'a xd3_outputs_scheme \<Rightarrow> xd3_output list \<Rightarrow> bit_state \<Rightarrow> nat \<Rightarrow> usize_t \<Rightarrow> 'a bit_emission option" where
  "xd3_encode_bits stream output bits nbits val = encode_bits_loop stream output bits (push_bit nbits 1) val"

section \<open>The compressor of a section\<close>

definition sec_stream_of :: "xd3_section_type \<Rightarrow> 'a xd3_stream_scheme \<Rightarrow> uint8 list list option" where
  "sec_stream_of k s =
     (case k of DATA_SECTION \<Rightarrow> sec_stream_d s | INST_SECTION \<Rightarrow> sec_stream_i s | ADDR_SECTION \<Rightarrow> sec_stream_a s)"

definition set_sec_stream :: "xd3_section_type \<Rightarrow> uint8 list list option \<Rightarrow> 'a xd3_stream_scheme \<Rightarrow> 'a xd3_stream_scheme" where
  "set_sec_stream k h s =
     (case k of DATA_SECTION \<Rightarrow> s\<lparr>sec_stream_d := h\<rparr> | INST_SECTION \<Rightarrow> s\<lparr>sec_stream_i := h\<rparr>
      | ADDR_SECTION \<Rightarrow> s\<lparr>sec_stream_a := h\<rparr>)"

text \<open>\<open>xd3_get_secondary\<close>: the compressor's state of a section is made when it is first used.\<close>

definition xd3_get_secondary :: "xd3_section_type \<Rightarrow> 'a xd3_stream_scheme \<Rightarrow> xd3_rvalue \<times> 'a xd3_stream_scheme" where
  "xd3_get_secondary k s =
     (case sec_stream_of k s of
        Some _ \<Rightarrow> (XD3_OK, s)
      | None \<Rightarrow>
          (case sec_type s of
             None \<Rightarrow> (C_UNDEFINED, s)
           | Some t \<Rightarrow>
               (case xd3_alloc s of
                  (False, s) \<Rightarrow> (ENOMEM, s)
                | (True, s) \<Rightarrow> (sec_init t, set_sec_stream k (Some []) s))))"

section \<open>Compressing a section\<close>

definition sect_of_type :: "xd3_section_type \<Rightarrow> xd3_sect" where
  "sect_of_type k = (case k of DATA_SECTION \<Rightarrow> DATA | INST_SECTION \<Rightarrow> INST | ADDR_SECTION \<Rightarrow> ADDR)"

definition sec_cfg_of :: "xd3_section_type \<Rightarrow> 'a xd3_stream_scheme \<Rightarrow> xd3_sec_cfg" where
  "sec_cfg_of k s = (case k of DATA_SECTION \<Rightarrow> sec_data s | INST_SECTION \<Rightarrow> sec_inst s | ADDR_SECTION \<Rightarrow> sec_addr s)"

text \<open>
  \<open>xd3_encode_secondary\<close>; the result says whether the section was replaced, \<open>*did_it\<close>.  The
  compressor's output is emitted at once, after the original size.  \<open>secondary_emit\<close> fills the new
  chain; the pages that \<open>xd3_free_output\<close> returns to the allocator are dropped.
\<close>

definition secondary_emit ::
  "xd3_section_type \<Rightarrow> 'a xd3_outputs_scheme \<Rightarrow> xd3_output list \<Rightarrow>
     xd3_rvalue \<times> 'a xd3_outputs_scheme \<times> xd3_output list" where
  "secondary_emit k stream tmp_head =
     (let head = enc_chain stream (sect_of_type k); orig_size = xd3_sizeof_output head in
      case xd3_emit_size stream tmp_head orig_size of
        (ret, s, tmp) \<Rightarrow>
          if ret \<noteq> XD3_OK then (ret, s, tmp)
          else
            case (sec_type s, sec_stream_of k s) of
              (Some t, Some hist) \<Rightarrow>
                let input = concat (map out_base head) in
                (case sec_encode t hist (sec_cfg_of k s) input of
                   (ret, out) \<Rightarrow>
                     let s = set_sec_stream k (Some (hist @ [input])) s in
                     (case xd3_emit_bytes s tmp out of
                        (ret', s, tmp) \<Rightarrow> (if ret' \<noteq> XD3_OK then ret' else ret, s, tmp)))
            | _ \<Rightarrow> (C_UNDEFINED, s, tmp))"

definition xd3_encode_secondary ::
  "xd3_section_type \<Rightarrow> 'a xd3_outputs_scheme \<Rightarrow> xd3_rvalue \<times> 'a xd3_outputs_scheme \<times> bool" where
  "xd3_encode_secondary k stream =
     (let orig_size = xd3_sizeof_output (enc_chain stream (sect_of_type k)) in
      if orig_size < 10 then (XD3_OK, stream, False)
      else
        case xd3_get_secondary k stream of
          (ret, s) \<Rightarrow>
            if ret \<noteq> XD3_OK then (ret, s, False)
            else
              case xd3_alloc_output s of
                (None, s) \<Rightarrow> (ENOMEM, s, False)
              | (Some page, s) \<Rightarrow>
                  (case secondary_emit k s [page] of
                     (ret, s, tmp) \<Rightarrow>
                       if ret \<noteq> XD3_OK then (if ret = XD3_NOSECOND then XD3_OK else ret, s, False)
                       else if xd3_sizeof_output tmp < orig_size - 2 \<or> inefficient (sec_cfg_of k s)
                       then (XD3_OK, s\<lparr>enc_chain := (enc_chain s)(sect_of_type k := tmp)\<rparr>, True)
                       else (XD3_OK, s, False)))"

section \<open>Bits in and out\<close>

text \<open>The bits of a byte in the order they are written, and those of a value.\<close>

definition byte_bits :: "uint8 \<Rightarrow> bool list" where
  "byte_bits b = map (bit b) [0..<8]"

definition value_bits :: "nat \<Rightarrow> usize_t \<Rightarrow> bool list" where
  "value_bits n v = map (bit v) (rev [0..<n])"

text \<open>The bits an encoder's chain and state stand for, and those a decoder has still to read.\<close>

definition written :: "xd3_output list \<Rightarrow> 'a xd3_outputs_scheme \<Rightarrow> xd3_output list \<Rightarrow> bit_state \<Rightarrow> bool list \<Rightarrow> bool" where
  "written out s chain bits bs \<longleftrightarrow> chain_ok chain \<and> free_ok s \<and>
     (\<exists>bytes k. k < 8 \<and> chain_bytes chain = chain_bytes out @ bytes \<and> cur_mask bits = 2 ^ k \<and>
       (\<forall>i \<ge> k. \<not> bit (cur_byte bits) i) \<and>
       bs = concat (map byte_bits bytes) @ map (bit (cur_byte bits)) [0..<k])"

definition readable :: "bit_state \<Rightarrow> uint8 list \<Rightarrow> bool list \<Rightarrow> bool" where
  "readable bits input bs \<longleftrightarrow>
     (\<exists>k \<le> 8. cur_mask bits = 2 ^ k \<and> bs = map (bit (cur_byte bits)) [k..<8] @ concat (map byte_bits input))"

lemma pow2_8_less: "k \<le> 8 \<Longrightarrow> (2 :: usize_t) ^ k = 2 ^ m \<Longrightarrow> m \<le> 8 \<Longrightarrow> k = m"
  using pow2_64_inj [of k m] by simp

lemma mask_byte: "k < 8 \<Longrightarrow> (ucast ((2 :: usize_t) ^ k) :: uint8) = 2 ^ k"
  by (rule bit_word_eqI) (auto simp: bit_simps possible_bit_def)

lemma bit_below_8: "\<not> bit (b :: uint8) i" if "8 \<le> i"
  using that bit_imp_le_length [of b i] by auto

lemma encode_bit_written:
  assumes w: "written out s chain bits bs" and e: "xd3_encode_bit s chain bits b = (XD3_OK, s', chain', bits')"
  shows "written out s' chain' bits' (bs @ [b \<noteq> 0])"
proof -
  obtain bytes k where k: "k < 8" "chain_bytes chain = chain_bytes out @ bytes" "cur_mask bits = 2 ^ k"
      "\<forall>i \<ge> k. \<not> bit (cur_byte bits) i" and ok: "chain_ok chain" "free_ok s"
      and bs: "bs = concat (map byte_bits bytes) @ map (bit (cur_byte bits)) [0..<k]"
    using w by (auto simp: written_def)
  define c where "c = (if b \<noteq> 0 then cur_byte bits OR 2 ^ k else cur_byte bits)"
  have c: "bit c i \<longleftrightarrow> (if i < k then bit (cur_byte bits) i else i = k \<and> b \<noteq> 0)" for i
    using k(1,4) by (auto simp: c_def bit_simps possible_bit_def not_less)
  have low: "map (bit c) [0..<Suc k] = map (bit (cur_byte bits)) [0..<k] @ [b \<noteq> 0]"
    using c by simp
  have bits: "(if b \<noteq> 0 then bits\<lparr>cur_byte := cur_byte bits OR ucast (cur_mask bits)\<rparr> else bits) = bits\<lparr>cur_byte := c\<rparr>"
    using mask_byte [OF k(1)] k(3) by (simp add: c_def)
  show ?thesis
  proof (cases "k = 7")
    case True
    then have m: "cur_mask bits = 0x80" using k(3) by simp
    then have "xd3_emit_byte s chain c = (XD3_OK, s', chain')" and b': "bits' = bits\<lparr>cur_byte := 0, cur_mask := 1\<rparr>"
      using e unfolding xd3_encode_bit_def Let_def bits by (auto split: prod.splits if_splits)
    then have "chain_ok chain'" "free_ok s'" "chain_bytes chain' = chain_bytes chain @ [c]"
      using emit_byte_emits [OF ok, of c] by (auto simp: emits_def)
    moreover have "byte_bits c = map (bit (cur_byte bits)) [0..<k] @ [b \<noteq> 0]"
      using low True by (simp add: byte_bits_def eval_nat_numeral)
    ultimately show ?thesis
      unfolding written_def using k(2) bs b' by (intro conjI exI [of _ "bytes @ [c]"] exI [of _ 0]) simp_all
  next
    case False
    then have "(2 :: usize_t) ^ k \<noteq> 2 ^ 7" using pow2_8_less [of k 7] k(1) by auto
    then have "s' = s" "chain' = chain" "bits' = bits\<lparr>cur_byte := c, cur_mask := push_bit 1 (cur_mask bits)\<rparr>"
      using e k(3) unfolding xd3_encode_bit_def Let_def bits by (auto split: prod.splits if_splits)
    then show ?thesis
      unfolding written_def using k False ok bs low c
      by (intro conjI exI [of _ bytes] exI [of _ "Suc k"]) (auto simp: push_bit_eq_mult)
  qed
qed

lemma value_bits_Suc: "value_bits (Suc n) v = bit v n # value_bits n v"
  by (simp add: value_bits_def)

lemma and_pow2: "(v AND 2 ^ n \<noteq> 0) = bit (v :: usize_t) n"
  by (rule flag_and_flag)

lemma drop_pow2: "Suc n < 64 \<Longrightarrow> drop_bit 1 ((2 :: usize_t) ^ Suc n) = 2 ^ n"
  by (rule bit_word_eqI) (auto simp: bit_simps possible_bit_def)

lemma pow2_is_1: "n < 64 \<Longrightarrow> (2 :: usize_t) ^ n = 1 \<longleftrightarrow> n = 0"
  using pow2_64_inj [of n 0] by auto

lemma encode_bits_written:
  assumes "written out s chain bits bs" and "Suc n < 64"
    and "encode_bits_loop s chain bits (2 ^ Suc n) v = Some (XD3_OK, s', chain', bits')"
  shows "written out s' chain' bits' (bs @ value_bits (Suc n) v)"
  using assms
proof (induction n arbitrary: s chain bits bs)
  case 0
  obtain r t c b where e: "xd3_encode_bit s chain bits (v AND 2 ^ 0) = (r, t, c, b)" by (cases rule: prod_cases4)
  then have "xd3_encode_bit s chain bits (v AND 2 ^ 0) = (XD3_OK, s', chain', bits')"
    using 0(3) by (subst (asm) encode_bits_loop.simps) (auto simp: drop_pow2 [of 0, simplified] Let_def split: if_splits)
  from encode_bit_written [OF 0(1) this] show ?case
    using and_pow2 [of v 0] by (simp only: value_bits_Suc) (simp add: value_bits_def)
next
  case (Suc n)
  obtain r t c b where e: "xd3_encode_bit s chain bits (v AND 2 ^ Suc n) = (r, t, c, b)" by (cases rule: prod_cases4)
  have "(2 :: usize_t) ^ Suc n \<noteq> 1" using pow2_is_1 [of "Suc n"] Suc.prems(2) by simp
  then have r: "r = XD3_OK" and l: "encode_bits_loop t c b (2 ^ Suc n) v = Some (XD3_OK, s', chain', bits')"
    using Suc.prems(3) e drop_pow2 [OF Suc.prems(2)]
    by (subst (asm) encode_bits_loop.simps, auto simp: Let_def simp del: power_Suc split: if_splits)+
  have "written out t c b (bs @ [v AND 2 ^ Suc n \<noteq> 0])"
    by (rule encode_bit_written [OF Suc.prems(1)]) (use e r in simp)
  from Suc.IH [OF this _ l] Suc.prems(2) show ?case
    by (simp only: value_bits_Suc and_pow2) simp
qed

lemma readable_next:
  assumes "readable bits input (b # bs)"
  shows "cur_mask bits = 0x100 \<and> (\<exists>c rest. input = c # rest \<and> readable \<lparr>cur_byte = c, cur_mask = 1\<rparr> rest (b # bs)) \<or>
    cur_mask bits \<noteq> 0x100 \<and> (ucast (cur_byte bits) AND cur_mask bits \<noteq> 0) = b \<and>
    readable (bits\<lparr>cur_mask := push_bit 1 (cur_mask bits)\<rparr>) input bs"
proof -
  obtain k where k: "k \<le> 8" "cur_mask bits = 2 ^ k"
      and b: "b # bs = map (bit (cur_byte bits)) [k..<8] @ concat (map byte_bits input)"
    using assms by (auto simp: readable_def)
  show ?thesis
  proof (cases "k = 8")
    case True
    then obtain c rest where c: "input = c # rest" using b by (cases input) auto
    have "b # bs = map (bit c) [0..<8] @ concat (map byte_bits rest)"
      using b True c by (simp add: byte_bits_def)
    then have "readable \<lparr>cur_byte = c, cur_mask = 1\<rparr> rest (b # bs)"
      unfolding readable_def by (intro exI [of _ 0]) simp
    then show ?thesis using c k True by simp
  next
    case False
    then have l: "[k..<8] = k # [Suc k..<8]" using k(1) by (simp add: upt_rec)
    have m: "cur_mask bits \<noteq> 0x100" using pow2_8_less [of k 8] k False by auto
    have "bit (ucast (cur_byte bits) :: usize_t) k = bit (cur_byte bits) k"
      using k(1) by (simp add: bit_simps possible_bit_def)
    then have "(ucast (cur_byte bits) AND cur_mask bits \<noteq> 0) = b"
      using b l and_pow2 [of "ucast (cur_byte bits)" k] k(2) by simp
    moreover have "readable (bits\<lparr>cur_mask := push_bit 1 (cur_mask bits)\<rparr>) input bs"
      unfolding readable_def using k b l False by (intro exI [of _ "Suc k"]) (simp add: push_bit_eq_mult)
    ultimately show ?thesis using m by simp
  qed
qed

lemma decode_bits_byte:
  "decode_bits_loop bits vmask val (c # rest) = decode_bits_loop \<lparr>cur_byte = c, cur_mask = 1\<rparr> vmask val rest"
  if "cur_mask bits = 0x100"
  using that by (subst decode_bits_loop.simps) simp

lemma decode_bits_now:
  assumes m: "cur_mask bits \<noteq> 0x100" and r: "readable bits input (b # bs)"
  shows "\<exists>bits' input'. readable bits' input' bs \<and> (\<forall>vmask acc. decode_bits_loop bits vmask acc input =
      (let vm = drop_bit 1 vmask; val = (if b then acc OR vm else acc) in
       if vm = 1 then Some (XD3_OK, None, bits', input', val) else decode_bits_loop bits' vm val input'))"
proof -
  have "(ucast (cur_byte bits) AND cur_mask bits \<noteq> 0) = b" using readable_next [OF r] m by blast
  then have "decode_bits_loop bits vmask acc input =
      (let vm = drop_bit 1 vmask; val = (if b then acc OR vm else acc) in
       if vm = 1 then Some (XD3_OK, None, bits\<lparr>cur_mask := push_bit 1 (cur_mask bits)\<rparr>, input, val)
       else decode_bits_loop (bits\<lparr>cur_mask := push_bit 1 (cur_mask bits)\<rparr>) vm val input)" for vmask acc
    by (subst decode_bits_loop.simps) (simp add: m Let_def)
  then show ?thesis using readable_next [OF r] m by blast
qed

lemma decode_bits_step:
  assumes "readable bits input (b # bs)"
  shows "\<exists>bits' input'. readable bits' input' bs \<and> (\<forall>vmask acc. decode_bits_loop bits vmask acc input =
      (let vm = drop_bit 1 vmask; val = (if b then acc OR vm else acc) in
       if vm = 1 then Some (XD3_OK, None, bits', input', val) else decode_bits_loop bits' vm val input'))"
proof (cases "cur_mask bits = 0x100")
  case True
  then obtain c rest where c: "input = c # rest" and r: "readable \<lparr>cur_byte = c, cur_mask = 1\<rparr> rest (b # bs)"
    using readable_next [OF assms] by blast
  show ?thesis using decode_bits_now [OF _ r] by (simp add: c decode_bits_byte [OF True])
qed (rule decode_bits_now [OF _ assms])

lemma take_bit_high:
  "acc OR take_bit (Suc n) (v :: usize_t) = (if bit v n then acc OR 2 ^ n else acc) OR take_bit n v"
  by (rule bit_word_eqI) (auto simp: bit_simps less_Suc_eq)

lemma decode_bits_read:
  assumes "readable bits input (value_bits (Suc n) v @ bs)" and "Suc n < 64"
  shows "\<exists>bits' input'. decode_bits_loop bits (2 ^ Suc n) acc input =
      Some (XD3_OK, None, bits', input', acc OR take_bit (Suc n) v) \<and> readable bits' input' bs"
  using assms
proof (induction n arbitrary: bits input acc)
  case 0
  from 0(1) have "readable bits input (bit v 0 # bs)" by (simp add: value_bits_def)
  from decode_bits_step [OF this] show ?case
    using drop_pow2 [of 0] take_bit_high [of acc 0 v] by auto
next
  case (Suc n)
  from Suc.prems(1) have "readable bits input (bit v (Suc n) # value_bits (Suc n) v @ bs)"
    by (simp only: value_bits_Suc append_Cons)
  from decode_bits_step [OF this] obtain bits' input' where
    r: "readable bits' input' (value_bits (Suc n) v @ bs)" and
    l: "\<And>vmask acc. decode_bits_loop bits vmask acc input =
      (let vm = drop_bit 1 vmask; val = (if bit v (Suc n) then acc OR vm else acc) in
       if vm = 1 then Some (XD3_OK, None, bits', input', val) else decode_bits_loop bits' vm val input')"
    by blast
  have "(2 :: usize_t) ^ Suc n \<noteq> 1" using pow2_is_1 [of "Suc n"] Suc.prems(2) by simp
  then have "decode_bits_loop bits (2 ^ Suc (Suc n)) acc input =
      decode_bits_loop bits' (2 ^ Suc n) (if bit v (Suc n) then acc OR 2 ^ Suc n else acc) input'"
    by (simp only: l drop_pow2 [OF Suc.prems(2)] Let_def if_False)
  then show ?case
    using Suc.IH [OF r] Suc.prems(2) by (simp only: take_bit_high [of acc "Suc n" v])
qed

text \<open>A list of values, each of a width of its own, written and read one after the other.\<close>

fun encode_values ::
  "'a xd3_outputs_scheme \<Rightarrow> xd3_output list \<Rightarrow> bit_state \<Rightarrow> (nat \<times> usize_t) list \<Rightarrow> 'a bit_emission option" where
  "encode_values s chain bits [] = Some (XD3_OK, s, chain, bits)"
| "encode_values s chain bits ((n, v) # vs) =
     (case xd3_encode_bits s chain bits n v of
        None \<Rightarrow> None
      | Some (ret, s, chain, bits) \<Rightarrow>
          if ret \<noteq> XD3_OK then Some (ret, s, chain, bits) else encode_values s chain bits vs)"

fun decode_values :: "bit_state \<Rightarrow> uint8 list \<Rightarrow> nat list \<Rightarrow> usize_t list option" where
  "decode_values bits input [] = Some []"
| "decode_values bits input (n # ns) =
     (case xd3_decode_bits bits input n of
        Some (XD3_OK, _, bits, input, v) \<Rightarrow> map_option ((#) v) (decode_values bits input ns)
      | _ \<Rightarrow> None)"

definition width_ok :: "nat \<times> usize_t \<Rightarrow> bool" where
  "width_ok p = (0 < fst p \<and> fst p < 64 \<and> unat (snd p) < 2 ^ fst p)"

lemma encode_values_written:
  assumes "written out s chain bits bs" and "\<forall>p \<in> set vs. width_ok p"
    and "encode_values s chain bits vs = Some (XD3_OK, s', chain', bits')"
  shows "written out s' chain' bits' (bs @ concat (map (\<lambda>(n, v). value_bits n v) vs))"
  using assms
proof (induction vs arbitrary: s chain bits bs)
  case (Cons p vs)
  obtain n v where p: "p = (Suc n, v)" and n: "Suc n < 64"
    using Cons.prems(2) by (cases p, cases "fst p") (auto simp: width_ok_def)
  have m: "push_bit (Suc n) (1 :: usize_t) = 2 ^ Suc n" by (simp only: push_bit_eq_mult mult_1_left)
  from Cons.prems(3) obtain s1 c1 b1 where
    e: "encode_bits_loop s chain bits (2 ^ Suc n) v = Some (XD3_OK, s1, c1, b1)" and
    l: "encode_values s1 c1 b1 vs = Some (XD3_OK, s', chain', bits')"
    by (auto simp: p xd3_encode_bits_def m simp del: power_Suc split: option.splits if_splits)
  show ?case
    using Cons.IH [OF encode_bits_written [OF Cons.prems(1) n e] _ l] Cons.prems(2) by (simp add: p)
qed simp

lemma decode_values_read:
  assumes "readable bits input (concat (map (\<lambda>(n, v). value_bits n v) vs) @ bs)" and "\<forall>p \<in> set vs. width_ok p"
  shows "decode_values bits input (map fst vs) = Some (map snd vs)"
  using assms
proof (induction vs arbitrary: bits input)
  case (Cons p vs)
  obtain n v where p: "p = (Suc n, v)" and n: "Suc n < 64" and v: "unat v < 2 ^ Suc n"
    using Cons.prems(2) by (cases p, cases "fst p") (auto simp: width_ok_def)
  have m: "push_bit (Suc n) (1 :: usize_t) = 2 ^ Suc n" by (simp only: push_bit_eq_mult mult_1_left)
  have t: "take_bit (Suc n) v = v"
  proof (rule unsigned_word_eqI)
    show "unat (take_bit (Suc n) v) = unat v"
      by (simp only: unsigned_take_bit_eq, simp only: take_bit_eq_mod mod_less [OF v])
  qed
  from Cons.prems(1) have "readable bits input (value_bits (Suc n) v @ concat (map (\<lambda>(n, v). value_bits n v) vs) @ bs)"
    by (simp add: p)
  from decode_bits_read [OF this n, of 0] obtain bits' input' where
    d: "decode_bits_loop bits (2 ^ Suc n) 0 input = Some (XD3_OK, None, bits', input', v)" and
    r: "readable bits' input' (concat (map (\<lambda>(n, v). value_bits n v) vs) @ bs)"
    by (auto simp: t)
  show ?case
    using Cons.IH [OF r] Cons.prems(2) by (simp add: p xd3_decode_bits_def m d del: power_Suc)
qed simp


text \<open>With an allocator that never fails, the encoder writes every bit.\<close>

lemma encode_bit_total:
  assumes "written out s chain bits bs" and "\<forall>n. alloc s n"
  shows "\<exists>s' chain' bits'. xd3_encode_bit s chain bits b = (XD3_OK, s', chain', bits') \<and> alloc s' = alloc s"
proof -
  have "chain_ok chain" "free_ok s" using assms(1) by (auto simp: written_def)
  from emit_byte_total [OF this assms(2), of "cur_byte (if b \<noteq> 0 then bits\<lparr>cur_byte := cur_byte bits OR ucast (cur_mask bits)\<rparr> else bits)"]
  obtain t ch where e: "xd3_emit_byte s chain (cur_byte (if b \<noteq> 0 then bits\<lparr>cur_byte := cur_byte bits OR ucast (cur_mask bits)\<rparr> else bits)) =
      (XD3_OK, t, ch)" and al: "alloc t = alloc s" by blast
  show ?thesis
  proof (cases "cur_mask bits = 0x80")
    case True
    then show ?thesis using al e unfolding xd3_encode_bit_def Let_def by (cases "b = 0") simp_all
  qed (simp add: xd3_encode_bit_def Let_def)
qed

lemma encode_bits_total:
  assumes "written out s chain bits bs" and "\<forall>n. alloc s n" and "Suc n < 64"
  shows "\<exists>s' chain' bits'. encode_bits_loop s chain bits (2 ^ Suc n) v = Some (XD3_OK, s', chain', bits') \<and> alloc s' = alloc s"
  using assms
proof (induction n arbitrary: s chain bits bs)
  case 0
  from encode_bit_total [OF 0(1,2), of "v AND 2 ^ 0"] show ?case
    using drop_pow2 [of 0] by (subst encode_bits_loop.simps) auto
next
  case (Suc n)
  from encode_bit_total [OF Suc.prems(1,2), of "v AND 2 ^ Suc n"] obtain t c b where
    e: "xd3_encode_bit s chain bits (v AND 2 ^ Suc n) = (XD3_OK, t, c, b)" and al: "alloc t = alloc s" by blast
  have w: "written out t c b (bs @ [v AND 2 ^ Suc n \<noteq> 0])" by (rule encode_bit_written [OF Suc.prems(1) e])
  have "(2 :: usize_t) ^ Suc n \<noteq> 1" using pow2_is_1 [of "Suc n"] Suc.prems(3) by simp
  then have "encode_bits_loop s chain bits (2 ^ Suc (Suc n)) v = encode_bits_loop t c b (2 ^ Suc n) v"
    by (subst encode_bits_loop.simps)
      (simp only: drop_pow2 [OF Suc.prems(3)] Let_def e prod.case simp_thms if_False if_True)
  then show ?case using Suc.IH [OF w] Suc.prems(2,3) al by (metis Suc_lessD)
qed

lemma encode_values_total:
  assumes "written out s chain bits bs" and "\<forall>n. alloc s n" and "\<forall>p \<in> set vs. width_ok p"
  shows "\<exists>s' chain' bits'. encode_values s chain bits vs = Some (XD3_OK, s', chain', bits') \<and> alloc s' = alloc s"
  using assms
proof (induction vs arbitrary: s chain bits bs)
  case (Cons p vs)
  obtain n v where p: "p = (Suc n, v)" and n: "Suc n < 64"
    using Cons.prems(3) by (cases p, cases "fst p") (auto simp: width_ok_def)
  have m: "push_bit (Suc n) (1 :: usize_t) = 2 ^ Suc n" by (simp only: push_bit_eq_mult mult_1_left)
  obtain t c b where e: "encode_bits_loop s chain bits (2 ^ Suc n) v = Some (XD3_OK, t, c, b)" and al: "alloc t = alloc s"
    using encode_bits_total [OF Cons.prems(1,2) n] by blast
  show ?case
    using Cons.IH [OF encode_bits_written [OF Cons.prems(1) n e]] Cons.prems(2,3) al
    by (simp add: p xd3_encode_bits_def m e del: power_Suc)
qed simp

text \<open>C11: whatever widths are used, with an allocator that never fails the bit coder writes every value and
  flushes its last byte, and the decoder reads the values back, in the order they were written, from
  the bytes that were appended to the chain.
\<close>

theorem bits_roundtrip:
  assumes "chain_ok out" and "free_ok s" and "\<forall>n. alloc s n" and "\<forall>p \<in> set vs. width_ok p"
  shows "\<exists>s1 chain bits s2 chain2 bytes.
    encode_values s out BIT_STATE_ENCODE_INIT vs = Some (XD3_OK, s1, chain, bits) \<and>
    xd3_flush_bits s1 chain bits = (XD3_OK, s2, chain2) \<and>
    chain_bytes chain2 = chain_bytes out @ bytes \<and>
    decode_values BIT_STATE_DECODE_INIT bytes (map fst vs) = Some (map snd vs)"
proof -
  let ?bs = "concat (map (\<lambda>(n, v). value_bits n v) vs)"
  have w: "written out s out BIT_STATE_ENCODE_INIT []"
    using assms(1,2) by (auto simp: written_def BIT_STATE_ENCODE_INIT_def intro: exI [of _ 0])
  from encode_values_total [OF this assms(3,4)] obtain s1 chain bits where
    e: "encode_values s out BIT_STATE_ENCODE_INIT vs = Some (XD3_OK, s1, chain, bits)" and al: "\<forall>n. alloc s1 n"
    using assms(3) by auto
  from encode_values_written [OF w assms(4) e] obtain bytes k where
    ok: "chain_ok chain" "free_ok s1" and k: "k < 8" "cur_mask bits = 2 ^ k" and
    c: "chain_bytes chain = chain_bytes out @ bytes" and
    b: "?bs = concat (map byte_bits bytes) @ map (bit (cur_byte bits)) [0..<k]"
    by (auto simp: written_def)
  have init: "readable BIT_STATE_DECODE_INIT input (concat (map byte_bits input))" for input
    unfolding readable_def BIT_STATE_DECODE_INIT_def by (intro exI [of _ 8]) simp
  show ?thesis
  proof (cases "k = 0")
    case True
    then have "xd3_flush_bits s1 chain bits = (XD3_OK, s1, chain)" using k by (simp add: xd3_flush_bits_def)
    moreover have "readable BIT_STATE_DECODE_INIT bytes (?bs @ [])" using init [of bytes] b True by simp
    ultimately show ?thesis using decode_values_read [OF _ assms(4)] c e by blast
  next
    case False
    then have "(2 :: usize_t) ^ k \<noteq> 1" using pow2_is_1 [of k] k by simp
    then obtain s2 chain2 where f: "xd3_flush_bits s1 chain bits = (XD3_OK, s2, chain2)"
        and emit: "xd3_emit_byte s1 chain (cur_byte bits) = (XD3_OK, s2, chain2)"
      using emit_byte_total [OF ok al, of "cur_byte bits"] k by (auto simp: xd3_flush_bits_def)
    have "chain_bytes chain2 = chain_bytes out @ (bytes @ [cur_byte bits])"
      using emit_byte_emits [OF ok, of "cur_byte bits"] emit c by (auto simp: emits_def)
    moreover have "byte_bits (cur_byte bits) = map (bit (cur_byte bits)) [0..<k] @ map (bit (cur_byte bits)) [k..<8]"
      using k(1) by (simp only: byte_bits_def) (metis le_add_diff_inverse less_imp_le map_append upt_add_eq_append zero_le)
    then have "readable BIT_STATE_DECODE_INIT (bytes @ [cur_byte bits]) (?bs @ map (bit (cur_byte bits)) [k..<8])"
      using init [of "bytes @ [cur_byte bits]"] b by simp
    ultimately show ?thesis using decode_values_read [OF _ assms(4)] e f by blast
  qed
qed

theorem bits_roundtrip_witness:
  "\<exists>s1 chain bits s2 chain2 bytes.
    encode_values outputs_zero [\<lparr>out_base = [7], out_avail = 2\<rparr>] BIT_STATE_ENCODE_INIT [(3, 5), (20, 70000)] =
      Some (XD3_OK, s1, chain, bits) \<and>
    xd3_flush_bits s1 chain bits = (XD3_OK, s2, chain2) \<and> chain_bytes chain2 = 7 # bytes \<and>
    decode_values BIT_STATE_DECODE_INIT bytes [3, 20] = Some [5, 70000]"
proof -
  let ?c = "[\<lparr>out_base = [7], out_avail = 2\<rparr>]"
  have "chain_ok ?c" by (simp add: chain_ok_def)
  moreover have "free_ok outputs_zero"
    by (simp add: free_ok_def outputs_zero_def xd3_stream.extend_def xd3_outputs.fields_def)
  moreover have "\<forall>n. alloc outputs_zero n"
    by (simp add: outputs_zero_def xd3_stream.extend_def stream_zero_def)
  moreover have "\<forall>p \<in> set [(3, 5), (20, 70000)]. width_ok p" by (simp add: width_ok_def)
  ultimately show ?thesis
    using bits_roundtrip [of ?c outputs_zero "[(3, 5), (20, 70000)]"] by (simp add: chain_bytes_def)
qed

end
