(* ===== verification/Xd3_Decode.thy ===== *)
theory Xd3_Decode
  imports Xd3_AddrCache Xd3_Source Xd3_Adler32 Xd3_CodeTable Xd3_Second
begin

text \<open>
  The decoder, \<open>xdelta3-decode.h\<close>: the state machine \<open>xd3_decode_input\<close> over the header, the window
  header and the three sections, and the execution of the instructions of a window.  An access
  outside an object, through a null pointer or to freed memory is \<open>C_UNDEFINED\<close>; an \<open>XD3_ASSERT\<close>
  whose condition the code after it relies on is modelled as the same.
\<close>

section \<open>State\<close>

text \<open>
  A section of a window.  \<open>ds_buf\<close> holds the bytes from \<open>buf\<close> to \<open>buf_max\<close> (while the section is
  being filled, the bytes received).  \<open>ds_alloc1\<close> and \<open>ds_alloc2\<close> are the sizes of the buffers
  \<open>copied1\<close> and \<open>copied2\<close>, \<open>None\<close> for a null pointer.
\<close>

record xd3_desect =
  ds_buf :: "uint8 list"
  ds_size :: usize_t
  ds_pos :: usize_t
  ds_alloc1 :: "usize_t option"
  ds_alloc2 :: "usize_t option"

text \<open>
  An allocated window buffer: its size and the bytes written to it.  Buffers are named by numbers,
  so that two pointers can name one buffer; freed names are unmapped.  \<open>dec_magic\<close>, \<open>dec_cksum\<close>
  and \<open>dec_appheader\<close> hold the bytes received so far, so that \<open>dec_magicbytes\<close>, \<open>dec_cksumbytes\<close>
  and \<open>dec_appheadbytes\<close> are their lengths.
\<close>

record xd3_winbuf =
  wb_size :: usize_t
  wb_bytes :: "uint8 list"

record xd3_decoder = xd3_stream +
  dec_hdr_ind :: usize_t
  dec_win_ind :: usize_t
  dec_del_ind :: usize_t
  dec_magic :: "uint8 list"
  dec_secondid :: usize_t
  dec_codetblsz :: usize_t
  dec_appheadsz :: usize_t
  dec_appheader :: "uint8 list option"
  dec_cksum :: "uint8 list"
  dec_adler32 :: uint32
  dec_cpylen :: usize_t
  dec_cpyoff :: xoff_t
  dec_enclen :: usize_t
  dec_tgtlen :: usize_t
  dec_64part :: "64 word"
  dec_winstart :: xoff_t
  dec_window_count :: xoff_t
  dec_winbytes :: usize_t
  dec_hdrsize :: usize_t
  dec_tgtaddrbase :: "nat option \<times> usize_t"
  dec_position :: usize_t
  dec_maxpos :: usize_t
  dec_current1 :: xd3_hinst
  dec_current2 :: xd3_hinst
  next_out :: "nat option"
  dec_buffer :: "nat option"
  dec_lastwin :: "nat option"
  dec_lastlen :: usize_t
  dec_laststart :: xoff_t
  dec_lastspace :: usize_t
  dec_heap :: "nat \<Rightarrow> xd3_winbuf option"
  inst_sect :: xd3_desect
  addr_sect :: xd3_desect
  data_sect :: xd3_desect

definition desect_zero :: xd3_desect where
  "desect_zero = \<lparr>ds_buf = [], ds_size = 0, ds_pos = 0, ds_alloc1 = None, ds_alloc2 = None\<rparr>"

definition hinst_zero :: xd3_hinst where
  "hinst_zero = \<lparr>hi_type = 0, hi_size = 0, hi_addr = 0\<rparr>"

definition decoder_zero :: xd3_decoder where
  "decoder_zero = xd3_stream.extend stream_zero
     \<lparr> dec_hdr_ind = 0, dec_win_ind = 0, dec_del_ind = 0, dec_magic = [], dec_secondid = 0,
       dec_codetblsz = 0, dec_appheadsz = 0, dec_appheader = None, dec_cksum = [],
       dec_adler32 = 0, dec_cpylen = 0, dec_cpyoff = 0, dec_enclen = 0, dec_tgtlen = 0,
       dec_64part = 0, dec_winstart = 0, dec_window_count = 0, dec_winbytes = 0,
       dec_hdrsize = 0, dec_tgtaddrbase = (None, 0), dec_position = 0, dec_maxpos = 0,
       dec_current1 = hinst_zero, dec_current2 = hinst_zero, next_out = None,
       dec_buffer = None, dec_lastwin = None, dec_lastlen = 0, dec_laststart = 0,
       dec_lastspace = 0, dec_heap = (\<lambda>_. None), inst_sect = desect_zero,
       addr_sect = desect_zero, data_sect = desect_zero \<rparr>"

section \<open>Input\<close>

definition SRCORTGT :: "usize_t \<Rightarrow> bool" where
  "SRCORTGT x \<longleftrightarrow> x AND VCD_SRCORTGT = VCD_SOURCE \<or> x AND VCD_SRCORTGT = VCD_TARGET"

definition DECODE_INPUT :: "nat \<Rightarrow> xd3_decoder \<Rightarrow> xd3_decoder" where
  "DECODE_INPUT n s = s\<lparr>total_in := total_in s + of_nat n, next_in := drop n (next_in s)\<rparr>"

text \<open>The destination \<open>*val\<close> of a decoding function is given by the update that stores it.\<close>

definition xd3_decode_byte :: "(usize_t \<Rightarrow> xd3_decoder \<Rightarrow> xd3_decoder) \<Rightarrow> xd3_decoder \<Rightarrow>
    xd3_rvalue \<times> xd3_decoder" where
  "xd3_decode_byte store s =
     (case next_in s of
        [] \<Rightarrow> (XD3_INPUT, s\<lparr>msg := Some ''further input required''\<rparr>)
      | b # _ \<Rightarrow> (XD3_OK, DECODE_INPUT 1 (store (ucast b) s)))"

text \<open>\<open>xd3_decode_size\<close> and \<open>xd3_decode_offset\<close>, the resumable integer of the 64-bit build.\<close>

definition xd3_decode_uint64_t :: "(64 word \<Rightarrow> xd3_decoder \<Rightarrow> xd3_decoder) \<Rightarrow> xd3_decoder \<Rightarrow>
    xd3_rvalue \<times> xd3_decoder" where
  "xd3_decode_uint64_t store s =
     (case decode_integer UINT64_OFLOW_MASK (dec_64part s) (next_in s) of
        (ret, m, val, part, rest) \<Rightarrow>
          let s = (DECODE_INPUT (length (next_in s) - length rest) s)\<lparr>dec_64part := part\<rparr> in
          case val of Some v \<Rightarrow> (ret, store v s) | None \<Rightarrow> (ret, s\<lparr>msg := m\<rparr>))"

definition xd3_decode_size :: "(usize_t \<Rightarrow> xd3_decoder \<Rightarrow> xd3_decoder) \<Rightarrow> xd3_decoder \<Rightarrow>
    xd3_rvalue \<times> xd3_decoder" where
  "xd3_decode_size store s = xd3_decode_uint64_t store s"

definition xd3_decode_offset :: "(xoff_t \<Rightarrow> xd3_decoder \<Rightarrow> xd3_decoder) \<Rightarrow> xd3_decoder \<Rightarrow>
    xd3_rvalue \<times> xd3_decoder" where
  "xd3_decode_offset store s = xd3_decode_uint64_t store s"

text \<open>The loop of \<open>xd3_decode_bytes\<close>: \<open>buf\<close> holds the bytes before \<open>*pos\<close>.\<close>

function decode_bytes_loop :: "nat \<Rightarrow> uint8 list \<Rightarrow> uint8 list \<Rightarrow> xd3_rvalue \<times> uint8 list \<times> uint8 list" where
  "decode_bytes_loop sz buf inp =
     (if length buf < sz then
        if inp = [] then (XD3_INPUT, buf, inp)
        else let n = min (sz - length buf) (length inp) in
          decode_bytes_loop sz (buf @ take n inp) (drop n inp)
      else (XD3_OK, buf, inp))"
  by pat_completeness auto

termination decode_bytes_loop
  by (relation "measure (\<lambda>(sz, buf, inp). sz - length buf)")
    (auto simp: min_def simp flip: length_greater_0_conv)

declare decode_bytes_loop.simps [simp del]

definition xd3_decode_bytes :: "(xd3_decoder \<Rightarrow> uint8 list) \<Rightarrow> (uint8 list \<Rightarrow> xd3_decoder \<Rightarrow> xd3_decoder) \<Rightarrow>
    usize_t \<Rightarrow> xd3_decoder \<Rightarrow> xd3_rvalue \<times> xd3_decoder" where
  "xd3_decode_bytes buf store sz s =
     (case decode_bytes_loop (unat sz) (buf s) (next_in s) of
        (ret, b, rest) \<Rightarrow>
          let s = store b (DECODE_INPUT (length (next_in s) - length rest) s) in
          (ret, if ret = XD3_INPUT then s\<lparr>msg := Some ''further input required''\<rparr> else s))"

definition xd3_decode_init_window :: "xd3_decoder \<Rightarrow> xd3_rvalue \<times> xd3_decoder" where
  "xd3_decode_init_window s =
     (XD3_OK, s\<lparr>dec_cpylen := 0, dec_cpyoff := 0, dec_cksum := [],
        acache := xd3_init_cache (acache s)\<rparr>)"

section \<open>Buffers\<close>

text \<open>
  \<open>xd3_decode_setup_buffers\<close>: a \<open>VCD_TARGET\<close> window is refused before anything is done with it.
  The buffer of the \<open>n\<close>-th allocation is named \<open>n\<close>.
\<close>

definition free_winbuf :: "nat option \<Rightarrow> xd3_decoder \<Rightarrow> xd3_decoder" where
  "free_winbuf p s = (case p of None \<Rightarrow> s | Some i \<Rightarrow> s\<lparr>dec_heap := (dec_heap s)(i := None)\<rparr>)"

definition xd3_decode_setup_buffers :: "xd3_decoder \<Rightarrow> xd3_rvalue \<times> xd3_decoder" where
  "xd3_decode_setup_buffers s =
     (if dec_win_ind s AND VCD_TARGET \<noteq> 0
      then (XD3_UNIMPLEMENTED, s\<lparr>msg := Some ''VCD_TARGET not implemented''\<rparr>)
      else
        xd3_try
          (if space_out s < dec_tgtlen s then
             let s = (free_winbuf (dec_buffer s) s)
                       \<lparr>space_out := xd3_round_blksize (dec_tgtlen s) XD3_ALLOCSIZE\<rparr>;
                 i = alloc_cnt s in
             case xd3_alloc s of
               (False, s) \<Rightarrow> (ENOMEM, s\<lparr>dec_buffer := None\<rparr>)
             | (True, s) \<Rightarrow>
                 (XD3_OK, s\<lparr>dec_heap := (dec_heap s)(i := Some \<lparr>wb_size = space_out s, wb_bytes = []\<rparr>),
                    dec_buffer := Some i, next_out := Some i\<rparr>)
           else (XD3_OK, s))
          (\<lambda>s. (XD3_OK, s\<lparr>dec_tgtaddrbase := (next_out s, dec_cpylen s)\<rparr>)))"

definition xd3_decode_allocate ::
  "xd3_decoder \<Rightarrow> usize_t \<Rightarrow> usize_t option \<Rightarrow> xd3_rvalue \<times> xd3_decoder \<times> usize_t option" where
  "xd3_decode_allocate s sz buf_alloc =
     (let keep = (case buf_alloc of None \<Rightarrow> None | Some a \<Rightarrow> if a < sz then None else Some a) in
      case keep of
        Some a \<Rightarrow> (XD3_OK, s, Some a)
      | None \<Rightarrow>
          (case xd3_alloc s of
             (False, s) \<Rightarrow> (ENOMEM, s, None)
           | (True, s) \<Rightarrow> (XD3_OK, s, Some (xd3_round_blksize sz XD3_ALLOCSIZE))))"

section \<open>Sections\<close>

fun sect_of :: "xd3_section_type \<Rightarrow> xd3_decoder \<Rightarrow> xd3_desect" where
  "sect_of DATA_SECTION s = data_sect s"
| "sect_of INST_SECTION s = inst_sect s"
| "sect_of ADDR_SECTION s = addr_sect s"

fun set_sect :: "xd3_section_type \<Rightarrow> xd3_desect \<Rightarrow> xd3_decoder \<Rightarrow> xd3_decoder" where
  "set_sect DATA_SECTION d s = s\<lparr>data_sect := d\<rparr>"
| "set_sect INST_SECTION d s = s\<lparr>inst_sect := d\<rparr>"
| "set_sect ADDR_SECTION d s = s\<lparr>addr_sect := d\<rparr>"

text \<open>
  \<open>xd3_decode_section\<close>: \<open>section_take\<close> moves \<open>n\<close> bytes of the input into the section and
  \<open>section_done\<close> is the code after it.
\<close>

definition section_take :: "xd3_section_type \<Rightarrow> nat \<Rightarrow> xd3_decoder \<Rightarrow> xd3_decoder" where
  "section_take k n s =
     (let d = sect_of k s;
          buf = (if ds_pos d = 0 then [] else ds_buf d) @ take n (next_in s)
      in DECODE_INPUT n (set_sect k (d\<lparr>ds_buf := buf, ds_pos := ds_pos d + of_nat n\<rparr>)
           (s\<lparr>dec_winbytes := dec_winbytes s + of_nat n\<rparr>)))"

definition section_done ::
  "xd3_section_type \<Rightarrow> xd3_decode_state \<Rightarrow> xd3_decoder \<Rightarrow> xd3_rvalue \<times> xd3_decoder" where
  "section_done k nstate s =
     (let d = sect_of k s in
      if ds_pos d < ds_size d then (XD3_INPUT, s\<lparr>msg := Some ''further input required''\<rparr>)
      else (XD3_OK, set_sect k (d\<lparr>ds_buf := (if ds_size d = 0 then [] else ds_buf d), ds_pos := 0\<rparr>)
             (s\<lparr>dec_state := nstate\<rparr>)))"

definition xd3_decode_section ::
  "xd3_section_type \<Rightarrow> xd3_decode_state \<Rightarrow> bool \<Rightarrow> xd3_decoder \<Rightarrow> xd3_rvalue \<times> xd3_decoder" where
  "xd3_decode_section k nstate copy s =
     (let d = sect_of k s in
      if ds_pos d < ds_size d then
        if next_in s = [] then (XD3_INPUT, s)
        else if \<not> copy \<and> ds_pos d = 0 then
          if length (next_in s) < unat (ds_size d) then (C_UNDEFINED, s)
          else section_done k nstate (section_take k (unat (ds_size d)) s)
        else
          let n = min (unat (ds_size d - ds_pos d)) (length (next_in s)) in
          xd3_try
            (if ds_pos d = 0 then
               case xd3_decode_allocate s (ds_size d) (ds_alloc1 d) of
                 (ret, s, a) \<Rightarrow> (ret, set_sect k (d\<lparr>ds_alloc1 := a\<rparr>) s)
             else (XD3_OK, s))
            (\<lambda>s. case ds_alloc1 (sect_of k s) of
               None \<Rightarrow> (C_UNDEFINED, s)
             | Some a \<Rightarrow>
                 if unat (ds_pos d) + n > unat a then (C_UNDEFINED, s)
                 else section_done k nstate (section_take k n s))
      else section_done k nstate s)"

section \<open>Instructions\<close>

text \<open>\<open>xd3_decode_parse_halfinst\<close>, on the instruction \<open>inst\<close> points to.\<close>

definition halfinst_size :: "xd3_decoder \<Rightarrow> xd3_hinst \<Rightarrow> xd3_rvalue \<times> xd3_decoder \<times> xd3_hinst" where
  "halfinst_size s inst =
     (if hi_size inst = 0 then
        case xd3_read_size (ds_buf (inst_sect s)) of
          Inl m \<Rightarrow> (XD3_INVALID_INPUT, s\<lparr>msg := Some m\<rparr>, inst)
        | Inr (v, rest) \<Rightarrow> (XD3_OK, s\<lparr>inst_sect := (inst_sect s)\<lparr>ds_buf := rest\<rparr>\<rparr>, inst\<lparr>hi_size := v\<rparr>)
      else (XD3_OK, s, inst))"

definition halfinst_address :: "xd3_decoder \<Rightarrow> xd3_hinst \<Rightarrow> xd3_rvalue \<times> xd3_decoder \<times> xd3_hinst" where
  "halfinst_address s inst =
     (if hi_type inst \<ge> XD3_CPY then
        case xd3_decode_address s (dec_position s) (ucast (hi_type inst - XD3_CPY))
               (ds_buf (addr_sect s)) (hi_addr inst) of
          (ret, s, rest, addr) \<Rightarrow>
            let s = s\<lparr>addr_sect := (addr_sect s)\<lparr>ds_buf := rest\<rparr>\<rparr>; inst = inst\<lparr>hi_addr := addr\<rparr> in
            if ret \<noteq> XD3_OK then (ret, s, inst)
            else if addr \<ge> dec_position s
            then (XD3_INVALID_INPUT, s\<lparr>msg := Some ''address too large''\<rparr>, inst)
            else if addr < dec_cpylen s \<and> addr + hi_size inst > dec_cpylen s
            then (XD3_INVALID_INPUT, s\<lparr>msg := Some ''size too large''\<rparr>, inst)
            else (XD3_OK, s, inst)
      else (XD3_OK, s, inst))"

definition halfinst_advance :: "xd3_decoder \<Rightarrow> xd3_hinst \<Rightarrow> xd3_rvalue \<times> xd3_decoder \<times> xd3_hinst" where
  "halfinst_advance s inst =
     (if dec_position s + hi_size inst > dec_maxpos s
      then (XD3_INVALID_INPUT, s\<lparr>msg := Some ''size too large''\<rparr>, inst)
      else (XD3_OK, s\<lparr>dec_position := dec_position s + hi_size inst\<rparr>, inst))"

definition xd3_decode_parse_halfinst ::
  "xd3_decoder \<Rightarrow> xd3_hinst \<Rightarrow> xd3_rvalue \<times> xd3_decoder \<times> xd3_hinst" where
  "xd3_decode_parse_halfinst s inst =
     xd3_try (halfinst_size s inst) (\<lambda>(s, inst).
       xd3_try (halfinst_address s inst) (\<lambda>(s, inst). halfinst_advance s inst))"

definition parse_current1 :: "xd3_decoder \<Rightarrow> xd3_rvalue \<times> xd3_decoder" where
  "parse_current1 s =
     (case xd3_decode_parse_halfinst s (dec_current1 s) of (ret, s, h) \<Rightarrow> (ret, s\<lparr>dec_current1 := h\<rparr>))"

definition parse_current2 :: "xd3_decoder \<Rightarrow> xd3_rvalue \<times> xd3_decoder" where
  "parse_current2 s =
     (case xd3_decode_parse_halfinst s (dec_current2 s) of (ret, s, h) \<Rightarrow> (ret, s\<lparr>dec_current2 := h\<rparr>))"

definition xd3_decode_instruction :: "xd3_decoder \<Rightarrow> xd3_rvalue \<times> xd3_decoder" where
  "xd3_decode_instruction s =
     (case ds_buf (inst_sect s) of
        [] \<Rightarrow> (XD3_INVALID_INPUT, s\<lparr>msg := Some ''instruction underflow''\<rparr>)
      | b # rest \<Rightarrow>
          if length (code_table s) \<le> unat b then (C_UNDEFINED, s)
          else
            let inst = code_table s ! unat b;
                s = s\<lparr>inst_sect := (inst_sect s)\<lparr>ds_buf := rest\<rparr>,
                      dec_current1 := (dec_current1 s)\<lparr>hi_type := type1 inst, hi_size := ucast (size1 inst)\<rparr>,
                      dec_current2 := (dec_current2 s)\<lparr>hi_type := type2 inst, hi_size := ucast (size2 inst)\<rparr>\<rparr>
            in xd3_try (if type1 inst \<noteq> XD3_NOOP then parse_current1 s else (XD3_OK, s))
                 (\<lambda>s. if type2 inst \<noteq> XD3_NOOP then parse_current2 s else (XD3_OK, s)))"

section \<open>Output\<close>

text \<open>The bytes \<open>next_out[0] .. next_out[avail_out - 1]\<close>, when they are there.\<close>

definition out_bytes :: "xd3_decoder \<Rightarrow> uint8 list option" where
  "out_bytes s =
     (if avail_out s = 0 then Some []
      else case next_out s of
        None \<Rightarrow> None
      | Some i \<Rightarrow>
          (case dec_heap s i of
             None \<Rightarrow> None
           | Some b \<Rightarrow> if length (wb_bytes b) < unat (avail_out s) then None
                       else Some (take (unat (avail_out s)) (wb_bytes b))))"

text \<open>
  Writing \<open>bs\<close> at \<open>next_out + avail_out\<close> and advancing \<open>avail_out\<close>.  The buffer must be allocated,
  the bytes before must have been written and the bytes must fit.  Bytes behind \<open>avail_out\<close> are
  dropped: nothing reads them.
\<close>

definition out_write :: "uint8 list \<Rightarrow> xd3_decoder \<Rightarrow> xd3_rvalue \<times> xd3_decoder" where
  "out_write bs s =
     (if bs = [] then (XD3_OK, s)
      else
        case out_bytes s of
          None \<Rightarrow> (C_UNDEFINED, s)
        | Some old \<Rightarrow>
            (case next_out s of
               None \<Rightarrow> (C_UNDEFINED, s)
             | Some i \<Rightarrow>
                 (case dec_heap s i of
                    None \<Rightarrow> (C_UNDEFINED, s)
                  | Some b \<Rightarrow>
                      if length old + length bs > unat (wb_size b) then (C_UNDEFINED, s)
                      else (XD3_OK, s\<lparr>dec_heap := (dec_heap s)(i := Some (b\<lparr>wb_bytes := old @ bs\<rparr>)),
                                       avail_out := avail_out s + of_nat (length bs)\<rparr>))))"

text \<open>
  The byte loop of an overlapping copy: \<open>n\<close> times the byte at \<open>i\<close> is appended; the list is the
  window written so far, so that bytes written by the loop are read by it.
\<close>

fun copy_overlap :: "uint8 list \<Rightarrow> nat \<Rightarrow> nat \<Rightarrow> uint8 list option" where
  "copy_overlap win i 0 = Some win"
| "copy_overlap win i (Suc n) =
     (if i < length win then copy_overlap (win @ [win ! i]) (Suc i) n else None)"

definition output_run :: "xd3_decoder \<Rightarrow> xd3_hinst \<Rightarrow> xd3_rvalue \<times> xd3_decoder \<times> xd3_hinst" where
  "output_run s inst =
     (case ds_buf (data_sect s) of
        [] \<Rightarrow> (XD3_INVALID_INPUT, s\<lparr>msg := Some ''data underflow''\<rparr>, inst)
      | b # rest \<Rightarrow>
          xd3_try (case out_write (replicate (unat (hi_size inst)) b) s of (ret, s) \<Rightarrow> (ret, s, inst))
            (\<lambda>(s, inst). (XD3_OK, s\<lparr>data_sect := (data_sect s)\<lparr>ds_buf := rest\<rparr>\<rparr>, inst\<lparr>hi_type := XD3_NOOP\<rparr>)))"

definition output_add :: "xd3_decoder \<Rightarrow> xd3_hinst \<Rightarrow> xd3_rvalue \<times> xd3_decoder \<times> xd3_hinst" where
  "output_add s inst =
     (let n = unat (hi_size inst); data = ds_buf (data_sect s) in
      if hi_size inst = 0 then (XD3_OK, s, inst\<lparr>hi_type := XD3_NOOP\<rparr>)
      else if data = [] \<or> n > length data
      then (XD3_INVALID_INPUT, s\<lparr>msg := Some ''data underflow''\<rparr>, inst)
      else
        xd3_try (case out_write (take n data) s of (ret, s) \<Rightarrow> (ret, s, inst))
          (\<lambda>(s, inst). (XD3_OK, s\<lparr>data_sect := (data_sect s)\<lparr>ds_buf := drop n data\<rparr>\<rparr>,
             inst\<lparr>hi_type := XD3_NOOP\<rparr>)))"

text \<open>A copy from the source: at most what is left of one block.\<close>

definition block_part :: "usize_t \<Rightarrow> usize_t \<Rightarrow> xd3_hinst \<Rightarrow> usize_t \<times> xd3_hinst" where
  "block_part bsize blkoff inst =
     (if blkoff + hi_size inst \<le> bsize
      then (hi_size inst, inst\<lparr>hi_type := XD3_NOOP, hi_size := 0\<rparr>)
      else (bsize - blkoff,
            inst\<lparr>hi_size := hi_size inst - (bsize - blkoff),
                 hi_addr := hi_addr inst + (bsize - blkoff)\<rparr>))"

definition output_source_copy :: "xd3_decoder \<Rightarrow> xd3_hinst \<Rightarrow> xd3_rvalue \<times> xd3_decoder \<times> xd3_hinst" where
  "output_source_copy s inst =
     (case src s of
        None \<Rightarrow> (C_UNDEFINED, s, inst)
      | Some source \<Rightarrow>
          (case xd3_blksize_add (cpyoff_blocks source) (cpyoff_blkoff source) source (hi_addr inst) of
             (block, blkoff) \<Rightarrow>
               let bsize = blksize source in
               if blkoff \<ge> bsize then (C_UNDEFINED, s, inst)
               else
                 case xd3_getblk s block of
                   (ret, s) \<Rightarrow>
                     if ret = XD3_TOOFARBACK
                     then (XD3_INTERNAL, s\<lparr>msg := Some ''non-seekable source in decode''\<rparr>, inst)
                     else if ret \<noteq> XD3_OK then (ret, s, inst)
                     else
                       case src s of
                         None \<Rightarrow> (C_UNDEFINED, s, inst)
                       | Some source \<Rightarrow>
                           (case curblk source of
                              None \<Rightarrow> (C_UNDEFINED, s, inst)
                            | Some blk \<Rightarrow>
                                if onblk source \<noteq> bsize \<and> blkoff + hi_size inst > onblk source
                                then (XD3_INVALID_INPUT, s\<lparr>msg := Some ''source file too short''\<rparr>, inst)
                                else
                                  case block_part bsize blkoff inst of
                                    (n, inst) \<Rightarrow>
                                      if length blk < unat blkoff + unat n then (C_UNDEFINED, s, inst)
                                      else case out_write (take (unat n) (drop (unat blkoff) blk)) s of
                                        (ret, s) \<Rightarrow> (ret, s, inst))))"

text \<open>A copy within the target window, from \<open>dec_tgtaddrbase + inst->addr\<close>.\<close>

definition output_target_copy :: "xd3_decoder \<Rightarrow> xd3_hinst \<Rightarrow> xd3_rvalue \<times> xd3_decoder \<times> xd3_hinst" where
  "output_target_copy s inst =
     (let inst' = inst\<lparr>hi_type := XD3_NOOP, hi_size := 0\<rparr>;
          start = hi_addr inst - snd (dec_tgtaddrbase s) in
      if fst (dec_tgtaddrbase s) \<noteq> next_out s then (C_UNDEFINED, s, inst')
      else
        case out_bytes s of
          None \<Rightarrow> (C_UNDEFINED, s, inst')
        | Some win \<Rightarrow>
            (case copy_overlap win (unat start) (unat (hi_size inst)) of
               None \<Rightarrow> (C_UNDEFINED, s, inst')
             | Some win' \<Rightarrow>
                 (case out_write (drop (length win) win') s of (ret, s) \<Rightarrow> (ret, s, inst'))))"

definition xd3_decode_output_halfinst ::
  "xd3_decoder \<Rightarrow> xd3_hinst \<Rightarrow> xd3_rvalue \<times> xd3_decoder \<times> xd3_hinst" where
  "xd3_decode_output_halfinst s inst =
     (if USIZE_T_OVERFLOW (avail_out s) (hi_size inst) \<or> avail_out s + hi_size inst > space_out s
      then (XD3_INVALID_INPUT, s\<lparr>msg := Some ''overflow while decoding''\<rparr>, inst)
      else if hi_type inst = XD3_RUN then output_run s inst
      else if hi_type inst = XD3_ADD then output_add s inst
      else if hi_addr inst < dec_cpylen s then
        if dec_win_ind s AND VCD_TARGET \<noteq> 0
        then (XD3_UNIMPLEMENTED, s\<lparr>msg := Some ''VCD_TARGET not implemented''\<rparr>,
              inst\<lparr>hi_size := 0, hi_type := XD3_NOOP\<rparr>)
        else output_source_copy s inst
      else output_target_copy s inst)"

section \<open>The loops of a window\<close>

lemma out_write_frame:
  "out_write bs s = (ret, t) \<Longrightarrow> \<exists>h a. t = s\<lparr>dec_heap := h, avail_out := a\<rparr>"
  by (auto simp: out_write_def split: if_splits option.splits intro: exI [of _ "dec_heap s"])
    (rule exI [of _ "dec_heap s"], rule exI [of _ "avail_out s"], simp)+

lemma getblk_frame:
  "xd3_getblk (s :: xd3_decoder) blkno = (ret, t) \<Longrightarrow> \<exists>x m. t = s\<lparr>src := x, msg := m\<rparr>"
proof -
  assume g: "xd3_getblk s blkno = (ret, t)"
  have same: "\<exists>x' m'. u = u\<lparr>src := x', msg := m'\<rparr>" for u :: xd3_decoder
    by (rule exI [of _ "src u"], rule exI [of _ "msg u"]) simp
  have one: "\<exists>x' m'. s\<lparr>src := x\<rparr> = s\<lparr>src := x', msg := m'\<rparr>" for x
    by (rule exI [of _ x], rule exI [of _ "msg s"]) simp
  have two: "\<exists>x' m'. s\<lparr>src := x, msg := m\<rparr> = s\<lparr>src := x', msg := m'\<rparr>" for x m
    by blast
  show ?thesis
    using g by (auto simp: xd3_getblk_def Let_def same one two split: option.splits if_splits prod.splits)
qed

text \<open>What executing half an instruction may change of the stream.\<close>

definition exec_frame :: "xd3_decoder \<Rightarrow> xd3_decoder \<Rightarrow> bool" where
  "exec_frame s t \<longleftrightarrow> (\<exists>h a x m d. t = s\<lparr>dec_heap := h, avail_out := a, src := x, msg := m, data_sect := d\<rparr>)"

lemma exec_frame_refl [simp]: "exec_frame s s"
  unfolding exec_frame_def
  by (rule exI [of _ "dec_heap s"], rule exI [of _ "avail_out s"], rule exI [of _ "src s"],
      rule exI [of _ "msg s"], rule exI [of _ "data_sect s"]) simp

lemma exec_frame_trans: "exec_frame s t \<Longrightarrow> exec_frame t u \<Longrightarrow> exec_frame s u"
  unfolding exec_frame_def by (elim exE) (intro exI, simp)

lemma exec_frame_msg [simp]: "exec_frame s (t\<lparr>msg := m\<rparr>) \<longleftrightarrow> exec_frame s t"
proof
  assume "exec_frame s (t\<lparr>msg := m\<rparr>)"
  moreover have "exec_frame (t\<lparr>msg := m\<rparr>) t"
    unfolding exec_frame_def
    by (rule exI [of _ "dec_heap t"], rule exI [of _ "avail_out t"], rule exI [of _ "src t"],
      rule exI [of _ "msg t"], rule exI [of _ "data_sect t"]) simp
  ultimately show "exec_frame s t" by (rule exec_frame_trans)
next
  assume "exec_frame s t"
  moreover have "exec_frame t (t\<lparr>msg := m\<rparr>)"
    unfolding exec_frame_def
    by (rule exI [of _ "dec_heap t"], rule exI [of _ "avail_out t"], rule exI [of _ "src t"],
      rule exI [of _ m], rule exI [of _ "data_sect t"]) simp
  ultimately show "exec_frame s (t\<lparr>msg := m\<rparr>)" by (rule exec_frame_trans)
qed

lemma exec_frame_data [simp]: "exec_frame s t \<Longrightarrow> exec_frame s (t\<lparr>data_sect := d\<rparr>)"
proof (erule exec_frame_trans)
  show "exec_frame t (t\<lparr>data_sect := d\<rparr>)"
    unfolding exec_frame_def
    by (rule exI [of _ "dec_heap t"], rule exI [of _ "avail_out t"], rule exI [of _ "src t"],
      rule exI [of _ "msg t"], rule exI [of _ d]) simp
qed

lemma out_write_exec_frame: "out_write bs s = (ret, t) \<Longrightarrow> exec_frame s t"
proof -
  assume "out_write bs s = (ret, t)"
  then obtain h a where "t = s\<lparr>dec_heap := h, avail_out := a\<rparr>" using out_write_frame by blast
  then show ?thesis
    unfolding exec_frame_def
    by (intro exI [of _ h] exI [of _ a] exI [of _ "src s"] exI [of _ "msg s"] exI [of _ "data_sect s"]) simp
qed

lemma getblk_exec_frame: "xd3_getblk s blkno = (ret, t) \<Longrightarrow> exec_frame s t"
proof -
  assume "xd3_getblk s blkno = (ret, t)"
  then obtain x m where "t = s\<lparr>src := x, msg := m\<rparr>" using getblk_frame by blast
  then show ?thesis
    unfolding exec_frame_def
    by (intro exI [of _ "dec_heap s"] exI [of _ "avail_out s"] exI [of _ x] exI [of _ m] exI [of _ "data_sect s"]) simp
qed

lemma output_source_copy_frame:
  "output_source_copy s inst = (ret, t, inst') \<Longrightarrow> exec_frame s t"
  by (auto simp: output_source_copy_def Let_def split: option.splits prod.splits if_splits
      dest!: getblk_exec_frame out_write_exec_frame intro: exec_frame_trans)

lemma output_halfinst_frame:
  "xd3_decode_output_halfinst s inst = (ret, t, inst') \<Longrightarrow> exec_frame s t"
  by (auto simp: xd3_decode_output_halfinst_def output_run_def output_add_def output_target_copy_def
      Let_def xd3_try_def split: option.splits prod.splits if_splits list.splits
      dest!: output_source_copy_frame out_write_exec_frame)

text \<open>An executed half instruction is finished, or has become smaller.\<close>

lemma block_part_cases:
  assumes "block_part bsize blkoff inst = (n, inst')" and lt: "blkoff < bsize"
  shows "n = hi_size inst \<and> inst' = inst\<lparr>hi_type := XD3_NOOP, hi_size := 0\<rparr> \<or>
    unat n = unat bsize - unat blkoff \<and> unat n \<le> unat (hi_size inst) \<and> 0 < unat n \<and>
    inst' = inst\<lparr>hi_size := hi_size inst - n, hi_addr := hi_addr inst + n\<rparr>"
proof (cases "blkoff + hi_size inst \<le> bsize")
  case True
  then show ?thesis using assms by (simp add: block_part_def)
next
  case False
  have lt': "unat blkoff < unat bsize" using lt by (simp add: word_less_nat_alt)
  have "unat bsize < unat (blkoff + hi_size inst)" using False by (simp add: word_less_nat_alt not_le)
  also have "\<dots> \<le> unat blkoff + unat (hi_size inst)" by (simp add: unat_word_ariths)
  finally have "unat bsize - unat blkoff \<le> unat (hi_size inst)" by linarith
  moreover have "unat (bsize - blkoff) = unat bsize - unat blkoff"
    using lt' by (simp add: unat_sub word_le_nat_alt)
  ultimately show ?thesis using assms False lt' by (auto simp: block_part_def)
qed

lemma block_part_progress:
  assumes "block_part bsize blkoff inst = (n, inst')" and "blkoff < bsize"
  shows "hi_type inst' = XD3_NOOP \<or> hi_size inst' < hi_size inst"
  using block_part_cases [OF assms]
proof (elim disjE conjE)
  assume "unat n \<le> unat (hi_size inst)" and "0 < unat n"
    and i: "inst' = inst\<lparr>hi_size := hi_size inst - n, hi_addr := hi_addr inst + n\<rparr>"
  then have "hi_size inst - n < hi_size inst"
    by (simp add: word_less_nat_alt unat_sub word_le_nat_alt)
  then show ?thesis by (simp add: i)
qed simp

lemma output_source_copy_progress:
  assumes "output_source_copy s inst = (XD3_OK, t, inst')"
  shows "hi_type inst' = XD3_NOOP \<or> hi_size inst' < hi_size inst"
  using assms
  by (auto simp: output_source_copy_def Let_def not_le split: option.splits prod.splits if_splits
      dest: block_part_progress)

lemma output_halfinst_progress:
  assumes "xd3_decode_output_halfinst s inst = (XD3_OK, t, inst')"
  shows "hi_type inst' = XD3_NOOP \<or> hi_size inst' < hi_size inst"
  using assms
  by (auto simp: xd3_decode_output_halfinst_def output_run_def output_add_def output_target_copy_def
      Let_def xd3_try_def split: option.splits prod.splits if_splits list.splits
      dest!: output_source_copy_progress)

text \<open>\<open>while (inst->type != XD3_NOOP)\<close>, for either half.\<close>

function output_halfinst_loop :: "xd3_decoder \<Rightarrow> xd3_hinst \<Rightarrow> xd3_rvalue \<times> xd3_decoder \<times> xd3_hinst" where
  "output_halfinst_loop s inst =
     (if hi_type inst \<noteq> XD3_NOOP then
        xd3_try (xd3_decode_output_halfinst s inst) (\<lambda>(s, inst). output_halfinst_loop s inst)
      else (XD3_OK, s, inst))"
  by pat_completeness auto

termination output_halfinst_loop
  by (relation "measure (\<lambda>(s, inst). if hi_type inst = XD3_NOOP then 0 else Suc (unat (hi_size inst)))")
    (auto dest!: output_halfinst_progress simp: word_less_nat_alt)

declare output_halfinst_loop.simps [simp del]

lemma output_halfinst_loop_frame:
  "output_halfinst_loop s inst = (ret, t, inst') \<Longrightarrow> exec_frame s t"
proof (induction s inst rule: output_halfinst_loop.induct)
  case (1 s inst)
  obtain r u h where o: "xd3_decode_output_halfinst s inst = (r, u, h)" by (metis prod_cases3)
  note f = output_halfinst_frame [OF o]
  show ?case
  proof (cases "hi_type inst \<noteq> XD3_NOOP \<and> r = XD3_OK")
    case True
    then have "output_halfinst_loop u h = (ret, t, inst')"
      using 1(2) o by (subst (asm) output_halfinst_loop.simps) simp
    then show ?thesis using 1(1) True o f exec_frame_trans by blast
  next
    case False
    then show ?thesis
      using 1(2) o f by (subst (asm) output_halfinst_loop.simps) (auto simp: xd3_try_def split: if_splits)
  qed
qed

lemma output_halfinst_loop_noop:
  "output_halfinst_loop s inst = (XD3_OK, t, inst') \<Longrightarrow> hi_type inst' = XD3_NOOP"
proof (induction s inst rule: output_halfinst_loop.induct)
  case (1 s inst)
  show ?case
  proof (cases "hi_type inst = XD3_NOOP")
    case True
    then show ?thesis using 1(2) by (simp add: output_halfinst_loop.simps)
  next
    case False
    then obtain u h where o: "xd3_decode_output_halfinst s inst = (XD3_OK, u, h)"
      "output_halfinst_loop u h = (XD3_OK, t, inst')"
      using 1(2) by (subst (asm) output_halfinst_loop.simps) (auto simp: xd3_try_OK_iff)
    then show ?thesis using 1(1) False by blast
  qed
qed

definition output_current1 :: "xd3_decoder \<Rightarrow> xd3_rvalue \<times> xd3_decoder" where
  "output_current1 s =
     (case output_halfinst_loop s (dec_current1 s) of (ret, s, h) \<Rightarrow> (ret, s\<lparr>dec_current1 := h\<rparr>))"

definition output_current2 :: "xd3_decoder \<Rightarrow> xd3_rvalue \<times> xd3_decoder" where
  "output_current2 s =
     (case output_halfinst_loop s (dec_current2 s) of (ret, s, h) \<Rightarrow> (ret, s\<lparr>dec_current2 := h\<rparr>))"

text \<open>What parsing an instruction may change, and how far it reads.\<close>

lemma read_integer_suffix:
  "read_integer oflow val inp = Inr (v, rest) \<Longrightarrow> length rest < length inp"
  by (induction oflow val inp rule: read_integer.induct)
    (auto simp: Let_def split: if_splits dest: less_SucI)

lemma read_size_suffix: "xd3_read_size inp = Inr (v, rest) \<Longrightarrow> length rest < length inp"
  unfolding xd3_read_size_def xd3_read_uint64_t_def by (rule read_integer_suffix)

lemma decode_address_frame:
  "xd3_decode_address (s :: xd3_decoder) here mode inp v = (ret, t, rest, addr) \<Longrightarrow>
    \<exists>m c. t = s\<lparr>msg := m, acache := c\<rparr>"
proof -
  assume d: "xd3_decode_address s here mode inp v = (ret, t, rest, addr)"
  have *: "\<exists>m' c'. s = s\<lparr>msg := m', acache := c'\<rparr>"
    by (rule exI [of _ "msg s"], rule exI [of _ "acache s"]) simp
  have m: "\<exists>m' c'. s\<lparr>msg := m\<rparr> = s\<lparr>msg := m', acache := c'\<rparr>" for m
    by (rule exI [of _ m], rule exI [of _ "acache s"]) simp
  have c: "\<exists>m' c'. s\<lparr>acache := c\<rparr> = s\<lparr>msg := m', acache := c'\<rparr>" for c
    by (rule exI [of _ "msg s"], rule exI [of _ c]) simp
  show ?thesis
    using d * m c by (auto simp: xd3_decode_address_def split: prod.splits if_splits option.splits)
qed

definition parse_frame :: "xd3_decoder \<Rightarrow> xd3_decoder \<Rightarrow> bool" where
  "parse_frame s t \<longleftrightarrow>
     (\<exists>m c i a p. t = s\<lparr>msg := m, acache := c, inst_sect := (inst_sect s)\<lparr>ds_buf := i\<rparr>,
        addr_sect := (addr_sect s)\<lparr>ds_buf := a\<rparr>, dec_position := p\<rparr> \<and>
        length i \<le> length (ds_buf (inst_sect s)))"

lemma parse_frameI:
  "t = s\<lparr>msg := m, acache := c, inst_sect := (inst_sect s)\<lparr>ds_buf := i\<rparr>,
      addr_sect := (addr_sect s)\<lparr>ds_buf := a\<rparr>, dec_position := p\<rparr> \<Longrightarrow>
    length i \<le> length (ds_buf (inst_sect s)) \<Longrightarrow> parse_frame s t"
  unfolding parse_frame_def by blast

lemma parse_frame_trans: "parse_frame s t \<Longrightarrow> parse_frame t u \<Longrightarrow> parse_frame s u"
  unfolding parse_frame_def by (elim exE conjE) (intro exI conjI, simp, simp)

lemma parse_frame_refl [simp]: "parse_frame s s"
  by (rule parse_frameI [where m = "msg s" and c = "acache s" and i = "ds_buf (inst_sect s)"
        and a = "ds_buf (addr_sect s)" and p = "dec_position s"]) simp_all

lemma parse_frame_steps:
  "parse_frame s (s\<lparr>msg := m\<rparr>)" "parse_frame s (s\<lparr>dec_position := p\<rparr>)"
  "parse_frame s (s\<lparr>addr_sect := (addr_sect s)\<lparr>ds_buf := a\<rparr>\<rparr>)"
  "parse_frame s (s\<lparr>msg := m, acache := c\<rparr>)"
  "length i \<le> length (ds_buf (inst_sect s)) \<Longrightarrow>
    parse_frame s (s\<lparr>inst_sect := (inst_sect s)\<lparr>ds_buf := i\<rparr>\<rparr>)"
proof -
  show "parse_frame s (s\<lparr>msg := m\<rparr>)"
    by (rule parse_frameI [where m = m and c = "acache s" and i = "ds_buf (inst_sect s)"
        and a = "ds_buf (addr_sect s)" and p = "dec_position s"]) simp_all
  show "parse_frame s (s\<lparr>dec_position := p\<rparr>)"
    by (rule parse_frameI [where m = "msg s" and c = "acache s" and i = "ds_buf (inst_sect s)"
        and a = "ds_buf (addr_sect s)" and p = p]) simp_all
  show "parse_frame s (s\<lparr>addr_sect := (addr_sect s)\<lparr>ds_buf := a\<rparr>\<rparr>)"
    by (rule parse_frameI [where m = "msg s" and c = "acache s" and i = "ds_buf (inst_sect s)"
        and a = a and p = "dec_position s"]) simp_all
  show "parse_frame s (s\<lparr>msg := m, acache := c\<rparr>)"
    by (rule parse_frameI [where m = m and c = c and i = "ds_buf (inst_sect s)"
        and a = "ds_buf (addr_sect s)" and p = "dec_position s"]) simp_all
  show "length i \<le> length (ds_buf (inst_sect s)) \<Longrightarrow>
      parse_frame s (s\<lparr>inst_sect := (inst_sect s)\<lparr>ds_buf := i\<rparr>\<rparr>)"
    by (rule parse_frameI [where m = "msg s" and c = "acache s" and i = i
        and a = "ds_buf (addr_sect s)" and p = "dec_position s"]) simp_all
qed

lemma halfinst_size_frame: "halfinst_size s inst = (ret, t, h) \<Longrightarrow> parse_frame s t"
  by (auto simp: halfinst_size_def parse_frame_steps split: if_splits sum.splits
      dest!: read_size_suffix intro!: parse_frame_steps(5))

lemma halfinst_address_frame:
  assumes "halfinst_address s inst = (ret, t, h)"
  shows "parse_frame s t"
proof (cases "hi_type inst \<ge> XD3_CPY")
  case True
  obtain r u rest addr where d: "xd3_decode_address s (dec_position s)
      (ucast (hi_type inst - XD3_CPY)) (ds_buf (addr_sect s)) (hi_addr inst) = (r, u, rest, addr)"
    by (metis prod_cases4)
  let ?v = "u\<lparr>addr_sect := (addr_sect u)\<lparr>ds_buf := rest\<rparr>\<rparr>"
  have "parse_frame s u" using decode_address_frame [OF d] parse_frame_steps(4) by blast
  then have v: "parse_frame s ?v" by (rule parse_frame_trans) (rule parse_frame_steps(3))
  have "t = ?v \<or> (\<exists>m. t = ?v\<lparr>msg := m\<rparr>)"
    using assms True d by (auto simp: halfinst_address_def Let_def split: if_split_asm)
  then show ?thesis using v parse_frame_trans parse_frame_steps(1) by blast
next
  case False
  then show ?thesis using assms by (simp add: halfinst_address_def)
qed

lemma halfinst_advance_frame: "halfinst_advance s inst = (ret, t, h) \<Longrightarrow> parse_frame s t"
  by (auto simp: halfinst_advance_def parse_frame_steps split: if_splits)

lemma parse_halfinst_frame:
  assumes "xd3_decode_parse_halfinst s inst = (ret, t, h)"
  shows "parse_frame s t"
proof -
  obtain r1 s1 h1 where 1: "halfinst_size s inst = (r1, s1, h1)" by (metis prod_cases3)
  obtain r2 s2 h2 where 2: "halfinst_address s1 h1 = (r2, s2, h2)" by (metis prod_cases3)
  obtain r3 s3 h3 where 3: "halfinst_advance s2 h2 = (r3, s3, h3)" by (metis prod_cases3)
  note f = halfinst_size_frame [OF 1] halfinst_address_frame [OF 2] halfinst_advance_frame [OF 3]
  have "parse_frame s s1" "parse_frame s s2" "parse_frame s s3"
    using f parse_frame_trans by blast+
  then show ?thesis
    using assms 1 2 3
    by (auto simp: xd3_decode_parse_halfinst_def xd3_try_def split: if_splits)
qed

lemma decode_instruction_consumes:
  assumes "xd3_decode_instruction s = (XD3_OK, t)"
  shows "length (ds_buf (inst_sect t)) < length (ds_buf (inst_sect s))"
proof -
  obtain b rest where b: "ds_buf (inst_sect s) = b # rest"
    using assms by (cases "ds_buf (inst_sect s)") (auto simp: xd3_decode_instruction_def)
  have le: "length (ds_buf (inst_sect u)) \<le> length (ds_buf (inst_sect v))"
    if "parse_frame v u" for u v using that by (auto simp: parse_frame_def)
  let ?i = "code_table s ! unat b"
  define s1 where "s1 = s\<lparr>inst_sect := (inst_sect s)\<lparr>ds_buf := rest\<rparr>,
      dec_current1 := (dec_current1 s)\<lparr>hi_type := type1 ?i, hi_size := ucast (size1 ?i)\<rparr>,
      dec_current2 := (dec_current2 s)\<lparr>hi_type := type2 ?i, hi_size := ucast (size2 ?i)\<rparr>\<rparr>"
  have s1: "length (ds_buf (inst_sect s1)) = length rest" by (simp add: s1_def)
  obtain s2 where s2: "(if type1 ?i \<noteq> XD3_NOOP then parse_current1 s1 else (XD3_OK, s1)) = (XD3_OK, s2)"
    "(if type2 ?i \<noteq> XD3_NOOP then parse_current2 s2 else (XD3_OK, s2)) = (XD3_OK, t)"
    using assms b by (auto simp: xd3_decode_instruction_def Let_def xd3_try_OK_iff s1_def split: if_split_asm)
  have 1: "length (ds_buf (inst_sect s2)) \<le> length (ds_buf (inst_sect s1))"
    using s2(1) by (auto simp: parse_current1_def split: if_splits prod.splits dest!: parse_halfinst_frame le)
  have 2: "length (ds_buf (inst_sect t)) \<le> length (ds_buf (inst_sect s2))"
    using s2(2) by (auto simp: parse_current2_def split: if_splits prod.splits dest!: parse_halfinst_frame le)
  show ?thesis using 1 2 s1 b by simp
qed

lemma output_current_frame:
  "output_current1 s = (ret, t) \<Longrightarrow> inst_sect t = inst_sect s \<and> dec_current2 t = dec_current2 s"
  "output_current2 s = (ret, t) \<Longrightarrow> inst_sect t = inst_sect s \<and> dec_current1 t = dec_current1 s"
  by (auto simp: output_current1_def output_current2_def exec_frame_def split: prod.splits
      dest!: output_halfinst_loop_frame)

lemma output_current_noop:
  "output_current1 s = (XD3_OK, t) \<Longrightarrow> hi_type (dec_current1 t) = XD3_NOOP"
  "output_current2 s = (XD3_OK, t) \<Longrightarrow> hi_type (dec_current2 t) = XD3_NOOP"
  by (auto simp: output_current1_def output_current2_def split: prod.splits
      dest: output_halfinst_loop_noop)

text \<open>
  The loop of \<open>xd3_decode_emit\<close>.  It ends: a round without a pending instruction consumes a byte of
  the instruction section, and after a round nothing is pending.
\<close>

definition insts_pending :: "xd3_decoder \<Rightarrow> bool" where
  "insts_pending s \<longleftrightarrow> hi_type (dec_current1 s) \<noteq> XD3_NOOP \<or> hi_type (dec_current2 s) \<noteq> XD3_NOOP"

function decode_emit_loop :: "xd3_decoder \<Rightarrow> xd3_rvalue \<times> xd3_decoder" where
  "decode_emit_loop s =
     (if ds_buf (inst_sect s) \<noteq> [] \<or> insts_pending s then
        xd3_try (if \<not> insts_pending s then xd3_decode_instruction s else (XD3_OK, s))
          (\<lambda>s. xd3_try (output_current1 s)
            (\<lambda>s. xd3_try (output_current2 s) (\<lambda>s. decode_emit_loop s)))
      else (XD3_OK, s))"
  by pat_completeness auto

lemma decode_emit_round:
  assumes "(if \<not> insts_pending s then xd3_decode_instruction s else (XD3_OK, s)) = (XD3_OK, s1)"
    and "output_current1 s1 = (XD3_OK, s2)" and "output_current2 s2 = (XD3_OK, s3)"
  shows "\<not> insts_pending s3"
    "if insts_pending s then inst_sect s3 = inst_sect s
     else length (ds_buf (inst_sect s3)) < length (ds_buf (inst_sect s))"
proof -
  have "inst_sect s3 = inst_sect s1" "dec_current1 s3 = dec_current1 s2"
    using output_current_frame(1) [OF assms(2)] output_current_frame(2) [OF assms(3)] by simp_all
  then show "if insts_pending s then inst_sect s3 = inst_sect s
     else length (ds_buf (inst_sect s3)) < length (ds_buf (inst_sect s))"
    using assms(1) decode_instruction_consumes by (auto split: if_splits)
  show "\<not> insts_pending s3"
    using output_current_noop(1) [OF assms(2)] output_current_noop(2) [OF assms(3)]
      \<open>dec_current1 s3 = _\<close> by (simp add: insts_pending_def)
qed

termination decode_emit_loop
proof (relation "measure (\<lambda>s. 2 * length (ds_buf (inst_sect s)) + (if insts_pending s then 1 else 0))",
    goal_cases)
  case prems: (2 s s1 s2 s3)
  from decode_emit_round [OF prems(2) prems(3) prems(4)] prems(1) show ?case
    by (auto split: if_splits)
qed simp

declare decode_emit_loop.simps [simp del]

definition xd3_decode_finish_window :: "xd3_decoder \<Rightarrow> xd3_rvalue \<times> xd3_decoder" where
  "xd3_decode_finish_window s =
     (XD3_OUTPUT, s\<lparr>dec_winbytes := 0, dec_state := DEC_FINISH,
        data_sect := (data_sect s)\<lparr>ds_pos := 0\<rparr>, inst_sect := (inst_sect s)\<lparr>ds_pos := 0\<rparr>,
        addr_sect := (addr_sect s)\<lparr>ds_pos := 0\<rparr>\<rparr>)"

definition emit_checks :: "xd3_decoder \<Rightarrow> xd3_rvalue \<times> xd3_decoder" where
  "emit_checks s =
     (if avail_out s \<noteq> dec_tgtlen s
      then (XD3_INVALID_INPUT, s\<lparr>msg := Some ''wrong window length''\<rparr>)
      else if ds_buf (data_sect s) \<noteq> []
      then (XD3_INVALID_INPUT, s\<lparr>msg := Some ''extra data section''\<rparr>)
      else if ds_buf (addr_sect s) \<noteq> []
      then (XD3_INVALID_INPUT, s\<lparr>msg := Some ''extra address section''\<rparr>)
      else if dec_win_ind s AND VCD_ADLER32 \<noteq> 0 \<and> flags s AND XD3_ADLER32_NOVER = 0 then
        (case out_bytes s of
           None \<Rightarrow> (C_UNDEFINED, s)
         | Some bs \<Rightarrow>
             if adler32 1 bs \<noteq> dec_adler32 s
             then (XD3_INVALID_INPUT, s\<lparr>msg := Some ''target window checksum mismatch: the supplied source likely does not match the one used to create this patch''\<rparr>)
             else (XD3_OK, s))
      else (XD3_OK, s))"

definition xd3_decode_emit :: "xd3_decoder \<Rightarrow> xd3_rvalue \<times> xd3_decoder" where
  "xd3_decode_emit s =
     xd3_try (decode_emit_loop s) (\<lambda>s. xd3_try (emit_checks s) xd3_decode_finish_window)"

section \<open>Secondary compression\<close>

text \<open>\<open>xd3_decode_secondary\<close>; an output beyond \<open>output_end\<close> would be a fault of the compressor.\<close>

definition secondary_run :: "xd3_section_type \<Rightarrow> xd3_decoder \<Rightarrow> xd3_rvalue \<times> xd3_decoder" where
  "secondary_run k s =
     (let d = sect_of k s in
     case xd3_read_size (ds_buf d) of
       Inl m \<Rightarrow> (XD3_INVALID_INPUT, s\<lparr>msg := Some m\<rparr>)
     | Inr (dec_size, buf) \<Rightarrow>
         (case xd3_decode_allocate s dec_size (ds_alloc2 d) of
            (ret, s, a) \<Rightarrow>
              let s = set_sect k (d\<lparr>ds_buf := buf, ds_alloc2 := a\<rparr>) s in
              if ret \<noteq> XD3_OK then (ret, s)
              else if dec_size = 0
              then (XD3_INVALID_INPUT, s\<lparr>msg := Some ''secondary decoder invalid output size''\<rparr>)
              else
                case (sec_type s, sec_stream_of k s) of
                  (Some t, Some hist) \<Rightarrow>
                    (case sec_decode t hist buf dec_size of
                       (ret, used, out) \<Rightarrow>
                         let s = set_sec_stream k (Some (hist @ [buf])) s in
                         if ret \<noteq> XD3_OK then (ret, s)
                         else if used \<noteq> length buf
                         then (XD3_INTERNAL, s\<lparr>msg := Some ''secondary decoder finished with unused input''\<rparr>)
                         else if length out > unat dec_size then (C_UNDEFINED, s)
                         else if length out \<noteq> unat dec_size
                         then (XD3_INTERNAL, s\<lparr>msg := Some ''secondary decoder short output''\<rparr>)
                         else (XD3_OK, set_sect k ((sect_of k s)\<lparr>ds_buf := out, ds_size := dec_size\<rparr>) s))
                | _ \<Rightarrow> (C_UNDEFINED, s)))"

definition xd3_decode_secondary :: "xd3_section_type \<Rightarrow> xd3_decoder \<Rightarrow> xd3_rvalue \<times> xd3_decoder" where
  "xd3_decode_secondary k s = xd3_try (xd3_get_secondary k s) (secondary_run k)"

definition xd3_decode_secondary_sections :: "xd3_decoder \<Rightarrow> xd3_rvalue \<times> xd3_decoder" where
  "xd3_decode_secondary_sections s =
     xd3_try (if dec_del_ind s AND VCD_DATACOMP \<noteq> 0 then xd3_decode_secondary DATA_SECTION s else (XD3_OK, s))
       (\<lambda>s. xd3_try (if dec_del_ind s AND VCD_INSTCOMP \<noteq> 0 then xd3_decode_secondary INST_SECTION s else (XD3_OK, s))
         (\<lambda>s. if dec_del_ind s AND VCD_ADDRCOMP \<noteq> 0 then xd3_decode_secondary ADDR_SECTION s else (XD3_OK, s)))"

section \<open>The three sections of a window\<close>

text \<open>The \<open>switch\<close> of \<open>xd3_decode_sections\<close>, entered at the state and falling through.\<close>

definition sections_addr :: "bool \<Rightarrow> xd3_decoder \<Rightarrow> xd3_rvalue \<times> xd3_decoder" where
  "sections_addr copy s = xd3_decode_section ADDR_SECTION DEC_EMIT copy s"

definition sections_inst :: "bool \<Rightarrow> xd3_decoder \<Rightarrow> xd3_rvalue \<times> xd3_decoder" where
  "sections_inst copy s = xd3_try (xd3_decode_section INST_SECTION DEC_ADDR copy s) (sections_addr copy)"

definition sections_data :: "bool \<Rightarrow> xd3_decoder \<Rightarrow> xd3_rvalue \<times> xd3_decoder" where
  "sections_data copy s = xd3_try (xd3_decode_section DATA_SECTION DEC_INST copy s) (sections_inst copy)"

definition xd3_decode_sections :: "xd3_decoder \<Rightarrow> xd3_rvalue \<times> xd3_decoder" where
  "xd3_decode_sections s =
     (if flags s AND XD3_JUST_HDR \<noteq> 0 then xd3_decode_finish_window s
      else if USIZE_T_OVERFLOW (ds_size (inst_sect s)) (ds_size (addr_sect s))
      then (XD3_INTERNAL, s\<lparr>msg := Some ''decoder section size overflow''\<rparr>)
      else if USIZE_T_OVERFLOW (ds_size (inst_sect s) + ds_size (addr_sect s)) (ds_size (data_sect s))
      then (XD3_INTERNAL, s\<lparr>msg := Some ''decoder section size overflow''\<rparr>)
      else
        let need = ds_size (inst_sect s) + ds_size (addr_sect s) + ds_size (data_sect s);
            more = need - dec_winbytes s;
            n = min (unat more) (length (next_in s));
            copy = (n \<noteq> unat more) in
        if flags s AND XD3_SKIP_WINDOW \<noteq> 0 then
          let s = (DECODE_INPUT n s)\<lparr>dec_winbytes := dec_winbytes s + of_nat n\<rparr> in
          if copy then (XD3_INPUT, s\<lparr>msg := Some ''further input required''\<rparr>)
          else xd3_decode_finish_window s
        else
          xd3_try
            (case dec_state s of
               DEC_DATA \<Rightarrow> sections_data copy s
             | DEC_INST \<Rightarrow> sections_inst copy s
             | DEC_ADDR \<Rightarrow> sections_addr copy s
             | _ \<Rightarrow> (XD3_INVALID_INPUT, s\<lparr>msg := Some ''internal error''\<rparr>))
            (\<lambda>s. xd3_try (xd3_decode_secondary_sections s)
              (\<lambda>s. if flags s AND XD3_SKIP_EMIT \<noteq> 0 then xd3_decode_finish_window s
                   else xd3_decode_setup_buffers s)))"

end
