(* ===== verification/Xd3_Decode_Input.thy ===== *)
theory Xd3_Decode_Input
  imports Xd3_Decode
begin

text \<open>
  \<open>xd3_decode_input\<close>: the state machine over the file header, the window headers and the windows.
  Each \<open>case\<close> of its \<open>switch\<close> is a function that ends by calling the next one where the source
  falls through, so they are declared from the last to the first.  The argument \<open>secs\<close> is the
  build's choice of secondary compressors, by their IDs.
\<close>

section \<open>The cases\<close>

text \<open>\<open>BYTE_CASE\<close>, \<open>SIZE_CASE\<close> and \<open>OFFSET_CASE\<close>: read when the condition holds, then go on.\<close>

definition BYTE_CASE :: "bool \<Rightarrow> (usize_t \<Rightarrow> xd3_decoder \<Rightarrow> xd3_decoder) \<Rightarrow> xd3_decode_state \<Rightarrow>
    xd3_decoder \<Rightarrow> xd3_rvalue \<times> xd3_decoder" where
  "BYTE_CASE cond store nstate s =
     xd3_try (if cond then xd3_decode_byte store s else (XD3_OK, s))
       (\<lambda>s. (XD3_OK, s\<lparr>dec_state := nstate\<rparr>))"

definition SIZE_CASE :: "bool \<Rightarrow> (usize_t \<Rightarrow> xd3_decoder \<Rightarrow> xd3_decoder) \<Rightarrow> xd3_decode_state \<Rightarrow>
    xd3_decoder \<Rightarrow> xd3_rvalue \<times> xd3_decoder" where
  "SIZE_CASE cond store nstate s =
     xd3_try (if cond then xd3_decode_size store s else (XD3_OK, s))
       (\<lambda>s. (XD3_OK, s\<lparr>dec_state := nstate\<rparr>))"

definition OFFSET_CASE :: "bool \<Rightarrow> (xoff_t \<Rightarrow> xd3_decoder \<Rightarrow> xd3_decoder) \<Rightarrow> xd3_decode_state \<Rightarrow>
    xd3_decoder \<Rightarrow> xd3_rvalue \<times> xd3_decoder" where
  "OFFSET_CASE cond store nstate s =
     xd3_try (if cond then xd3_decode_offset store s else (XD3_OK, s))
       (\<lambda>s. (XD3_OK, s\<lparr>dec_state := nstate\<rparr>))"

definition case_finish :: "xd3_decoder \<Rightarrow> xd3_rvalue \<times> xd3_decoder" where
  "case_finish s =
     (let s = (if dec_win_ind s AND VCD_TARGET \<noteq> 0 then
                 (if dec_lastwin s = None
                  then s\<lparr>dec_lastwin := next_out s, dec_lastspace := space_out s\<rparr>
                  else s\<lparr>dec_lastwin := next_out s, next_out := dec_lastwin s,
                         dec_lastspace := space_out s, space_out := dec_lastspace s\<rparr>)
               else s)
      in (XD3_WINFINISH, s\<lparr>dec_lastlen := dec_tgtlen s, dec_laststart := dec_winstart s,
            dec_window_count := dec_window_count s + 1, dec_state := DEC_WININD\<rparr>))"

definition emit_and_count :: "xd3_decoder \<Rightarrow> xd3_rvalue \<times> xd3_decoder" where
  "emit_and_count s =
     (case xd3_decode_emit s of
        (ret, s) \<Rightarrow> (ret, if ret = XD3_OUTPUT then s\<lparr>total_out := total_out s + avail_out s\<rparr> else s))"

definition case_emit :: "xd3_decoder \<Rightarrow> xd3_rvalue \<times> xd3_decoder" where
  "case_emit s =
     (if dec_win_ind s AND VCD_SOURCE \<noteq> 0 then
        (case src s of
           None \<Rightarrow> (XD3_INVALID_INPUT, s\<lparr>msg := Some ''source input required''\<rparr>)
         | Some x \<Rightarrow>
             (case xd3_blksize_div (dec_cpyoff s) x of
                (b, r) \<Rightarrow> emit_and_count (s\<lparr>src := Some (x\<lparr>cpyoff_blocks := b, cpyoff_blkoff := r\<rparr>)\<rparr>)))
      else emit_and_count s)"

definition case_sections :: "xd3_decoder \<Rightarrow> xd3_rvalue \<times> xd3_decoder" where
  "case_sections s = xd3_try (xd3_decode_sections s) case_emit"

definition case_cksum :: "xd3_decoder \<Rightarrow> xd3_rvalue \<times> xd3_decoder" where
  "case_cksum s =
     xd3_try
       (if dec_win_ind s AND VCD_ADLER32 \<noteq> 0 then
          xd3_try (xd3_decode_bytes dec_cksum (\<lambda>b s. s\<lparr>dec_cksum := b\<rparr>) 4 s)
            (\<lambda>s. (XD3_OK, s\<lparr>dec_adler32 := foldl (\<lambda>a b. push_bit 8 a OR ucast b) (dec_adler32 s) (take 4 (dec_cksum s))\<rparr>))
        else (XD3_OK, s))
       (\<lambda>s.
          let s = s\<lparr>dec_state := DEC_DATA\<rparr>;
              enclen_check = 1 +
                ucast (xd3_sizeof_size (dec_tgtlen s) + xd3_sizeof_size (ds_size (data_sect s)) +
                  xd3_sizeof_size (ds_size (inst_sect s)) + xd3_sizeof_size (ds_size (addr_sect s))) +
                ds_size (data_sect s) + ds_size (inst_sect s) + ds_size (addr_sect s) +
                (if dec_win_ind s AND VCD_ADLER32 \<noteq> 0 then 4 else 0) in
          if dec_enclen s \<noteq> enclen_check
          then (XD3_INVALID_INPUT, s\<lparr>msg := Some ''incorrect encoding length (redundent)''\<rparr>)
          else if current_window s = 0 then (XD3_GOTHEADER, s) else (XD3_WINSTART, s))"

definition case_addrlen :: "xd3_decoder \<Rightarrow> xd3_rvalue \<times> xd3_decoder" where
  "case_addrlen s =
     xd3_try (SIZE_CASE True (\<lambda>v s. s\<lparr>addr_sect := (addr_sect s)\<lparr>ds_size := v\<rparr>\<rparr>) DEC_CKSUM s) case_cksum"

definition case_instlen :: "xd3_decoder \<Rightarrow> xd3_rvalue \<times> xd3_decoder" where
  "case_instlen s =
     xd3_try (SIZE_CASE True (\<lambda>v s. s\<lparr>inst_sect := (inst_sect s)\<lparr>ds_size := v\<rparr>\<rparr>) DEC_ADDRLEN s) case_addrlen"

definition case_datalen :: "xd3_decoder \<Rightarrow> xd3_rvalue \<times> xd3_decoder" where
  "case_datalen s =
     xd3_try (SIZE_CASE True (\<lambda>v s. s\<lparr>data_sect := (data_sect s)\<lparr>ds_size := v\<rparr>\<rparr>) DEC_INSTLEN s) case_instlen"

definition case_delind :: "xd3_decoder \<Rightarrow> xd3_rvalue \<times> xd3_decoder" where
  "case_delind s =
     xd3_try (BYTE_CASE True (\<lambda>v s. s\<lparr>dec_del_ind := v\<rparr>) DEC_DATALEN s) (\<lambda>s.
       if dec_del_ind s AND ucast (NOT 7 :: uint32) \<noteq> 0
       then (XD3_INVALID_INPUT, s\<lparr>msg := Some ''unrecognized delta indicator bits set''\<rparr>)
       else if dec_del_ind s \<noteq> 0 \<and> sec_type s = None
       then (XD3_INVALID_INPUT, s\<lparr>msg := Some ''invalid delta indicator bits set''\<rparr>)
       else case_datalen s)"

definition case_tgtlen :: "xd3_decoder \<Rightarrow> xd3_rvalue \<times> xd3_decoder" where
  "case_tgtlen s =
     xd3_try (SIZE_CASE True (\<lambda>v s. s\<lparr>dec_tgtlen := v\<rparr>) DEC_DELIND s) (\<lambda>s.
       if USIZE_T_OVERFLOW (dec_cpylen s) (dec_tgtlen s)
       then (XD3_INVALID_INPUT, s\<lparr>msg := Some ''decoder target window overflows a usize_t''\<rparr>)
       else if dec_tgtlen s > XD3_HARDMAXWINSIZE
       then (XD3_INVALID_INPUT, s\<lparr>msg := Some ''hard window size exceeded''\<rparr>)
       else case_delind (s\<lparr>dec_maxpos := dec_cpylen s + dec_tgtlen s\<rparr>))"

definition case_enclen :: "xd3_decoder \<Rightarrow> xd3_rvalue \<times> xd3_decoder" where
  "case_enclen s = xd3_try (SIZE_CASE True (\<lambda>v s. s\<lparr>dec_enclen := v\<rparr>) DEC_TGTLEN s) case_tgtlen"

definition case_cpyoff :: "xd3_decoder \<Rightarrow> xd3_rvalue \<times> xd3_decoder" where
  "case_cpyoff s =
     xd3_try (OFFSET_CASE (SRCORTGT (dec_win_ind s)) (\<lambda>v s. s\<lparr>dec_cpyoff := v\<rparr>) DEC_ENCLEN s) (\<lambda>s.
       if XOFF_T_OVERFLOW (dec_cpyoff s) (dec_cpylen s)
       then (XD3_INVALID_INPUT, s\<lparr>msg := Some ''decoder copy window overflows a file offset''\<rparr>)
       else if dec_win_ind s AND VCD_TARGET \<noteq> 0 \<and> dec_cpyoff s + dec_cpylen s > dec_winstart s
       then (XD3_INVALID_INPUT, s\<lparr>msg := Some ''VCD_TARGET window out of bounds''\<rparr>)
       else case_enclen s)"

definition case_cpylen :: "xd3_decoder \<Rightarrow> xd3_rvalue \<times> xd3_decoder" where
  "case_cpylen s =
     xd3_try (SIZE_CASE (SRCORTGT (dec_win_ind s)) (\<lambda>v s. s\<lparr>dec_cpylen := v\<rparr>) DEC_CPYOFF s)
       (\<lambda>s. case_cpyoff (s\<lparr>dec_position := dec_cpylen s\<rparr>))"

definition case_winind :: "xd3_decoder \<Rightarrow> xd3_rvalue \<times> xd3_decoder" where
  "case_winind s =
     xd3_try (xd3_decode_byte (\<lambda>v s. s\<lparr>dec_win_ind := v\<rparr>) s) (\<lambda>s.
       let s = s\<lparr>current_window := dec_window_count s\<rparr> in
       if XOFF_T_OVERFLOW (dec_winstart s) (dec_tgtlen s)
       then (XD3_INVALID_INPUT, s\<lparr>msg := Some ''decoder file offset overflow''\<rparr>)
       else
         let s = s\<lparr>dec_winstart := dec_winstart s + dec_tgtlen s\<rparr> in
         if dec_win_ind s AND ucast (NOT 7 :: uint32) \<noteq> 0
         then (XD3_INVALID_INPUT, s\<lparr>msg := Some ''unrecognized window indicator bits set''\<rparr>)
         else xd3_try (xd3_decode_init_window s) (\<lambda>s. case_cpylen (s\<lparr>dec_state := DEC_CPYLEN\<rparr>)))"

definition case_appdat :: "xd3_decoder \<Rightarrow> xd3_rvalue \<times> xd3_decoder" where
  "case_appdat s =
     xd3_try
       (if dec_hdr_ind s AND VCD_APPHEADER \<noteq> 0 then
          if USIZE_T_OVERFLOW (dec_appheadsz s) 1
          then (XD3_INVALID_INPUT, s\<lparr>msg := Some ''exceptional appheader size''\<rparr>)
          else
            xd3_try
              (if dec_appheader s = None then
                 (case xd3_alloc s of
                    (False, s) \<Rightarrow> (ENOMEM, s)
                  | (True, s) \<Rightarrow> (XD3_OK, s\<lparr>dec_appheader := Some []\<rparr>))
               else (XD3_OK, s))
              (\<lambda>s. xd3_decode_bytes (\<lambda>s. the (dec_appheader s)) (\<lambda>b s. s\<lparr>dec_appheader := Some b\<rparr>)
                 (dec_appheadsz s) s)
        else (XD3_OK, s))
       (\<lambda>s. case_winind (s\<lparr>dec_hdrsize := total_in s, dec_state := DEC_WININD\<rparr>))"

definition case_applen :: "xd3_decoder \<Rightarrow> xd3_rvalue \<times> xd3_decoder" where
  "case_applen s =
     xd3_try (SIZE_CASE (dec_hdr_ind s AND VCD_APPHEADER \<noteq> 0) (\<lambda>v s. s\<lparr>dec_appheadsz := v\<rparr>) DEC_APPDAT s)
       case_appdat"

definition case_tabdat :: "xd3_decoder \<Rightarrow> xd3_rvalue \<times> xd3_decoder" where
  "case_tabdat s =
     (if dec_hdr_ind s AND VCD_CODETABLE \<noteq> 0
      then (XD3_UNIMPLEMENTED, s\<lparr>msg := Some ''VCD_CODETABLE support was removed''\<rparr>)
      else
        let s = s\<lparr>acache := (acache s)\<lparr>s_near := ucast (near_modes rfc3284_code_table_desc),
                                        s_same := ucast (same_modes rfc3284_code_table_desc)\<rparr>,
                  code_table := xd3_rfc3284_code_table\<rparr>
        in xd3_try (xd3_alloc_cache s) (\<lambda>s. case_applen (s\<lparr>dec_state := DEC_APPLEN\<rparr>)))"

definition case_same :: "xd3_decoder \<Rightarrow> xd3_rvalue \<times> xd3_decoder" where
  "case_same s =
     xd3_try (BYTE_CASE (dec_hdr_ind s AND VCD_CODETABLE \<noteq> 0)
         (\<lambda>v s. s\<lparr>acache := (acache s)\<lparr>s_same := v\<rparr>\<rparr>) DEC_TABDAT s) case_tabdat"

definition case_near :: "xd3_decoder \<Rightarrow> xd3_rvalue \<times> xd3_decoder" where
  "case_near s =
     xd3_try (BYTE_CASE (dec_hdr_ind s AND VCD_CODETABLE \<noteq> 0)
         (\<lambda>v s. s\<lparr>acache := (acache s)\<lparr>s_near := v\<rparr>\<rparr>) DEC_SAME s) case_same"

definition case_tablen :: "xd3_decoder \<Rightarrow> xd3_rvalue \<times> xd3_decoder" where
  "case_tablen s =
     xd3_try (SIZE_CASE (dec_hdr_ind s AND VCD_CODETABLE \<noteq> 0) (\<lambda>v s. s\<lparr>dec_codetblsz := v\<rparr>) DEC_NEAR s)
       (\<lambda>s. if dec_hdr_ind s AND VCD_CODETABLE \<noteq> 0 then
              if dec_codetblsz s \<le> 2 then (ENOMEM, s\<lparr>msg := Some ''invalid code table size''\<rparr>)
              else case_near (s\<lparr>dec_codetblsz := dec_codetblsz s - 2\<rparr>)
            else case_near s)"

definition case_secondid :: "(usize_t \<Rightarrow> xd3_sec_type option) \<Rightarrow> xd3_decoder \<Rightarrow> xd3_rvalue \<times> xd3_decoder" where
  "case_secondid secs s =
     (if dec_hdr_ind s AND VCD_SECONDARY \<noteq> 0 then
        xd3_try (BYTE_CASE True (\<lambda>v s. s\<lparr>dec_secondid := v\<rparr>) DEC_TABLEN s) (\<lambda>s.
          xd3_try
            (if dec_secondid s = 16 then choose_secondary secs 16 ''FGK Adaptive Huffman'' s
             else if dec_secondid s = 1 then choose_secondary secs 1 ''DJW Static Huffman'' s
             else if dec_secondid s = 2 then choose_secondary secs 2 ''LZMA'' s
             else (XD3_INVALID_INPUT, s\<lparr>msg := Some ''unknown secondary compressor ID''\<rparr>))
            case_tablen)
      else case_tablen s)"

definition case_hdrind :: "(usize_t \<Rightarrow> xd3_sec_type option) \<Rightarrow> xd3_decoder \<Rightarrow> xd3_rvalue \<times> xd3_decoder" where
  "case_hdrind secs s =
     xd3_try (xd3_decode_byte (\<lambda>v s. s\<lparr>dec_hdr_ind := v\<rparr>) s) (\<lambda>s.
       if dec_hdr_ind s AND ucast (NOT 7 :: uint32) \<noteq> 0
       then (XD3_INVALID_INPUT, s\<lparr>msg := Some ''unrecognized header indicator bits set''\<rparr>)
       else case_secondid secs (s\<lparr>dec_state := DEC_SECONDID\<rparr>))"

definition case_vchead :: "(usize_t \<Rightarrow> xd3_sec_type option) \<Rightarrow> xd3_decoder \<Rightarrow> xd3_rvalue \<times> xd3_decoder" where
  "case_vchead secs s =
     xd3_try (xd3_decode_bytes dec_magic (\<lambda>b s. s\<lparr>dec_magic := b\<rparr>) 4 s) (\<lambda>s.
       if take 3 (dec_magic s) \<noteq> [0xd6, 0xc3, 0xc4]
       then (XD3_INVALID_INPUT, s\<lparr>msg := Some ''not a VCDIFF input''\<rparr>)
       else if dec_magic s ! 3 \<noteq> 0
       then (XD3_INVALID_INPUT, s\<lparr>msg := Some ''VCDIFF input version > 0 is not supported''\<rparr>)
       else case_hdrind secs (s\<lparr>dec_state := DEC_HDRIND\<rparr>))"

section \<open>The function\<close>

definition xd3_decode_input ::
  "(usize_t \<Rightarrow> xd3_sec_type option) \<Rightarrow> xd3_decoder \<Rightarrow> xd3_rvalue \<times> xd3_decoder" where
  "xd3_decode_input secs s =
     (if enc_state s \<noteq> ENC_INIT
      then (XD3_INVALID_INPUT, s\<lparr>msg := Some ''encoder/decoder transition''\<rparr>)
      else
        case dec_state s of
          DEC_VCHEAD \<Rightarrow> case_vchead secs s
        | DEC_HDRIND \<Rightarrow> case_hdrind secs s
        | DEC_SECONDID \<Rightarrow> case_secondid secs s
        | DEC_TABLEN \<Rightarrow> case_tablen s
        | DEC_NEAR \<Rightarrow> case_near s
        | DEC_SAME \<Rightarrow> case_same s
        | DEC_TABDAT \<Rightarrow> case_tabdat s
        | DEC_APPLEN \<Rightarrow> case_applen s
        | DEC_APPDAT \<Rightarrow> case_appdat s
        | DEC_WININD \<Rightarrow> case_winind s
        | DEC_CPYLEN \<Rightarrow> case_cpylen s
        | DEC_CPYOFF \<Rightarrow> case_cpyoff s
        | DEC_ENCLEN \<Rightarrow> case_enclen s
        | DEC_TGTLEN \<Rightarrow> case_tgtlen s
        | DEC_DELIND \<Rightarrow> case_delind s
        | DEC_DATALEN \<Rightarrow> case_datalen s
        | DEC_INSTLEN \<Rightarrow> case_instlen s
        | DEC_ADDRLEN \<Rightarrow> case_addrlen s
        | DEC_CKSUM \<Rightarrow> case_cksum s
        | DEC_DATA \<Rightarrow> case_sections s
        | DEC_INST \<Rightarrow> case_sections s
        | DEC_ADDR \<Rightarrow> case_sections s
        | DEC_EMIT \<Rightarrow> case_emit s
        | DEC_FINISH \<Rightarrow> case_finish s
        | DEC_ABORTED \<Rightarrow> (XD3_INVALID_INPUT, s\<lparr>msg := Some ''invalid state''\<rparr>))"

text \<open>The application header, once it has been received.\<close>

fun before_winind :: "xd3_decode_state \<Rightarrow> bool" where
  "before_winind st \<longleftrightarrow> st \<in> {DEC_VCHEAD, DEC_HDRIND, DEC_SECONDID, DEC_TABLEN, DEC_NEAR, DEC_SAME,
     DEC_TABDAT, DEC_APPLEN, DEC_APPDAT}"

definition xd3_get_appheader ::
  "xd3_decoder \<Rightarrow> xd3_rvalue \<times> xd3_decoder \<times> uint8 list option \<times> usize_t" where
  "xd3_get_appheader s =
     (if before_winind (dec_state s)
      then (XD3_INTERNAL, s\<lparr>msg := Some ''application header not available''\<rparr>, None, 0)
      else (XD3_OK, s, dec_appheader s, dec_appheadsz s))"

end
