(* ===== verification/Xd3_Decode_Safe.thy ===== *)
theory Xd3_Decode_Safe
  imports Xd3_Decode_Input
begin

text \<open>
  Safety of the decoder: whatever bytes it is given, and however they are cut, \<open>xd3_decode_input\<close>
  never accesses memory it does not own and never fails to return, as long as the application keeps
  the documented contract.  The invariant follows the states of the machine.
\<close>

section \<open>Executing an instruction\<close>

text \<open>The window buffer is allocated with the size the stream records, and holds what was output.\<close>

definition win_ok :: "xd3_decoder \<Rightarrow> bool" where
  "win_ok s \<longleftrightarrow>
     (case next_out s of None \<Rightarrow> space_out s = 0
      | Some i \<Rightarrow> (case dec_heap s i of None \<Rightarrow> False | Some b \<Rightarrow> wb_size b = space_out s)) \<and>
     out_bytes s \<noteq> None \<and> avail_out s \<le> space_out s \<and> space_out s \<le> XD3_HARDMAXWINSIZE"

definition src_ready :: "xd3_decoder \<Rightarrow> bool" where
  "src_ready s \<longleftrightarrow> (case src s of None \<Rightarrow> False
     | Some x \<Rightarrow> xd3_blksize_div (dec_cpyoff s) x = (cpyoff_blocks x, cpyoff_blkoff x))"

definition exec_pre :: "xd3_decoder \<Rightarrow> bool" where
  "exec_pre s \<longleftrightarrow> src_ok s \<and> win_ok s \<and> dec_tgtaddrbase s = (next_out s, dec_cpylen s) \<and>
     dec_win_ind s AND VCD_TARGET = 0 \<and> unat (dec_cpyoff s) + unat (dec_cpylen s) < 2 ^ 64 \<and>
     (dec_cpylen s \<noteq> 0 \<longrightarrow> src_ready s)"

text \<open>A copy starts in the copy window, or in the part of the target window already written.\<close>

definition copy_ok :: "usize_t \<Rightarrow> usize_t \<Rightarrow> xd3_hinst \<Rightarrow> bool" where
  "copy_ok cpylen avail h \<longleftrightarrow>
     (hi_type h \<ge> XD3_CPY \<longrightarrow> hi_addr h < cpylen \<or> hi_addr h - cpylen < avail)"

definition pend :: "xd3_hinst \<Rightarrow> usize_t" where
  "pend h = (if hi_type h = XD3_NOOP then 0 else hi_size h)"

lemma out_bytes_length: "out_bytes s = Some bs \<Longrightarrow> length bs = unat (avail_out s)"
  by (auto simp: out_bytes_def split: if_splits option.splits)

lemma out_write_ok:
  assumes "win_ok s" and "unat (avail_out s) + length bs \<le> unat (space_out s)"
    and "out_write bs s = (ret, t)"
  shows "ret = XD3_OK" "win_ok t" "avail_out t = avail_out s + of_nat (length bs)"
    "out_bytes s = Some old \<Longrightarrow> out_bytes t = Some (old @ bs)"
    "\<exists>h a. t = s\<lparr>dec_heap := h, avail_out := a\<rparr>"
proof -
  show fr: "\<exists>h a. t = s\<lparr>dec_heap := h, avail_out := a\<rparr>" using out_write_frame [OF assms(3)] .
  have "ret = XD3_OK \<and> win_ok t \<and> avail_out t = avail_out s + of_nat (length bs) \<and>
    (\<forall>old. out_bytes s = Some old \<longrightarrow> out_bytes t = Some (old @ bs))"
  proof (cases "bs = []")
    case True
    then show ?thesis using assms by (simp add: out_write_def)
  next
    case False
    then have pos: "0 < length bs" by simp
    then have "space_out s \<noteq> 0" using assms(2) by auto
    then obtain i b where ib: "next_out s = Some i" "dec_heap s i = Some b" "wb_size b = space_out s"
      using assms(1) by (auto simp: win_ok_def split: option.splits)
    obtain old where old: "out_bytes s = Some old" using assms(1) by (auto simp: win_ok_def)
    note len = out_bytes_length [OF old]
    have sum: "unat (avail_out s + of_nat (length bs)) = unat (avail_out s) + length bs"
    proof -
      have "unat (avail_out s) + length bs < 2 ^ 64"
        using assms(2) unat_bound_64 [of "space_out s"] by linarith
      then show ?thesis by (simp add: unat_word_ariths unat_of_nat)
    qed
    define t' where "t' = s\<lparr>dec_heap := (dec_heap s)(i := Some (b\<lparr>wb_bytes := old @ bs\<rparr>)),
        avail_out := avail_out s + of_nat (length bs)\<rparr>"
    have "out_write bs s = (XD3_OK, t')"
      using False old ib len assms(2) by (simp add: out_write_def t'_def)
    then have t: "ret = XD3_OK" "t = t'" using assms(3) by simp_all
    have ob: "out_bytes t' = Some (old @ bs)"
      using ib(1) sum len pos by (auto simp: out_bytes_def t'_def unat_eq_0 [symmetric])
    have "avail_out t' \<le> space_out t'" using sum assms(2) by (simp add: t'_def word_le_nat_alt)
    moreover have "space_out s \<le> XD3_HARDMAXWINSIZE" using assms(1) by (simp add: win_ok_def)
    ultimately show ?thesis using t ob old ib by (simp add: win_ok_def) (simp add: t'_def)
  qed
  then show "ret = XD3_OK" "win_ok t" "avail_out t = avail_out s + of_nat (length bs)"
    "out_bytes s = Some old \<Longrightarrow> out_bytes t = Some (old @ bs)" by auto
qed

lemma copy_overlap_length:
  "i < length win \<or> n = 0 \<Longrightarrow> \<exists>bs. copy_overlap win i n = Some (win @ bs) \<and> length bs = n"
proof (induction win i n rule: copy_overlap.induct)
  case (2 win i n)
  then have "i < length win" by simp
  moreover from this have "Suc i < length (win @ [win ! i]) \<or> n = 0" by simp
  ultimately obtain bs where "copy_overlap (win @ [win ! i]) (Suc i) n = Some ((win @ [win ! i]) @ bs)" "length bs = n"
    using 2(1) by blast
  then show ?case using \<open>i < length win\<close> by (intro exI [of _ "win ! i # bs"]) simp
qed simp

section \<open>One half instruction\<close>

text \<open>The conditions look at ten fields only.\<close>

lemma out_bytes_cong:
  "next_out t = next_out s \<Longrightarrow> dec_heap t = dec_heap s \<Longrightarrow> avail_out t = avail_out s \<Longrightarrow>
    out_bytes t = out_bytes s"
  by (simp add: out_bytes_def cong: option.case_cong if_cong)

lemma win_ok_cong:
  "next_out t = next_out s \<Longrightarrow> dec_heap t = dec_heap s \<Longrightarrow> avail_out t = avail_out s \<Longrightarrow>
    space_out t = space_out s \<Longrightarrow> win_ok t = win_ok s"
  using out_bytes_cong [of t s] by (simp add: win_ok_def cong: option.case_cong)

lemma exec_pre_cong:
  assumes "src t = src s" "getblk t = getblk s" "next_out t = next_out s" "dec_heap t = dec_heap s"
    "space_out t = space_out s" "avail_out t = avail_out s" "dec_tgtaddrbase t = dec_tgtaddrbase s"
    "dec_cpylen t = dec_cpylen s" "dec_cpyoff t = dec_cpyoff s" "dec_win_ind t = dec_win_ind s"
  shows "exec_pre t = exec_pre s"
  using assms win_ok_cong [of t s]
  by (simp add: exec_pre_def src_ok_def src_ready_def cong: option.case_cong)

lemma exec_pre_upd [simp]:
  "exec_pre (s\<lparr>msg := m\<rparr>) = exec_pre s" "exec_pre (s\<lparr>data_sect := d\<rparr>) = exec_pre s"
  "exec_pre (s\<lparr>dec_current1 := h\<rparr>) = exec_pre s" "exec_pre (s\<lparr>dec_current2 := h\<rparr>) = exec_pre s"
  by (rule exec_pre_cong; simp)+

lemma exec_pre_write:
  assumes "exec_pre s" and "unat (avail_out s) + length bs \<le> unat (space_out s)"
    and "out_write bs s = (ret, t)"
  shows "ret = XD3_OK \<and> exec_pre t \<and> avail_out t = avail_out s + of_nat (length bs) \<and>
    dec_cpylen t = dec_cpylen s"
proof -
  have w: "win_ok s" using assms(1) by (simp add: exec_pre_def)
  note ok = out_write_ok [OF w assms(2,3)]
  obtain h a where "t = s\<lparr>dec_heap := h, avail_out := a\<rparr>" using ok(5) by blast
  then show ?thesis using assms(1) ok(1-3)
    by (simp add: exec_pre_def src_ok_def src_ready_def cong: option.case_cong)
qed

lemma exec_pre_getblk:
  assumes "exec_pre s" and "src s = Some x" and "xd3_getblk s blkno = (ret, t)"
  obtains y m where "t = s\<lparr>src := Some y, msg := m\<rparr>" and "exec_pre t" and "block_ok y"
    and "blksize y = blksize x" and "ret \<notin> {C_UNDEFINED, C_DIVERGES, XD3_OUTPUT}"
    and "ret = XD3_OK \<Longrightarrow> \<exists>b. curblk y = Some b"
proof -
  have "src_ok s" using assms(1) by (simp add: exec_pre_def)
  from xd3_getblk_ok [OF this assms(2,3)] obtain y m where y: "t = s\<lparr>src := Some y, msg := m\<rparr>"
    "source_ok y" "block_ok y" "blksize y = blksize x" "shiftby y = shiftby x" "maskby y = maskby x"
    "cpyoff_blocks y = cpyoff_blocks x" "cpyoff_blkoff y = cpyoff_blkoff x"
    "ret \<notin> {C_UNDEFINED, C_DIVERGES, XD3_OUTPUT}" "ret = XD3_OK \<longrightarrow> curblk y \<noteq> None" by blast
  have "exec_pre t" using assms(1,2) y
    using win_ok_cong [of t s] by (simp add: exec_pre_def src_ok_def src_ready_def xd3_blksize_div_def)
  then show ?thesis using that y by auto
qed

lemma exec_pre_win: "exec_pre s \<Longrightarrow> \<exists>bs. out_bytes s = Some bs \<and> length bs = unat (avail_out s)"
  using out_bytes_length by (fastforce simp: exec_pre_def win_ok_def)

text \<open>What a safe execution of half an instruction promises.\<close>

definition half_ok ::
  "xd3_decoder \<Rightarrow> xd3_hinst \<Rightarrow> xd3_rvalue \<times> xd3_decoder \<times> xd3_hinst \<Rightarrow> bool" where
  "half_ok s inst res \<longleftrightarrow>
     (case res of (ret, t, h) \<Rightarrow>
        ret \<notin> {C_UNDEFINED, C_DIVERGES, XD3_OUTPUT} \<and> exec_pre t \<and>
        avail_out t + pend h = avail_out s + pend inst \<and> copy_ok (dec_cpylen s) (avail_out t) h)"

lemma half_ok_fail:
  "exec_pre s \<Longrightarrow> copy_ok (dec_cpylen s) (avail_out s) inst \<Longrightarrow>
    ret \<notin> {C_UNDEFINED, C_DIVERGES, XD3_OUTPUT} \<Longrightarrow> half_ok s inst (ret, s\<lparr>msg := m\<rparr>, inst)"
  by (simp add: half_ok_def)

lemma half_ok_same:
  "exec_pre s \<Longrightarrow> copy_ok (dec_cpylen s) (avail_out s) inst \<Longrightarrow>
    ret \<notin> {C_UNDEFINED, C_DIVERGES, XD3_OUTPUT} \<Longrightarrow> half_ok s inst (ret, s, inst)"
  by (simp add: half_ok_def)

lemma copy_ok_noop [simp]: "copy_ok c a (h\<lparr>hi_type := 0\<rparr>)"
  by (simp add: copy_ok_def)

lemma pend_noop [simp]: "pend (h\<lparr>hi_type := 0\<rparr>) = 0"
  by (simp add: pend_def)

lemma space_check:
  assumes "\<not> (USIZE_T_OVERFLOW a n \<or> a + n > space)"
  shows "unat a + unat n \<le> unat space"
proof -
  have "unat a + unat n < 2 ^ 64" using assms by (simp add: USIZE_T_OVERFLOW_iff)
  then have "unat (a + n) = unat a + unat n" by (rule unat_plus_64)
  moreover have "unat (a + n) \<le> unat space" using assms by (simp add: word_le_nat_alt [symmetric] not_less)
  ultimately show ?thesis by simp
qed

lemma output_run_ok:
  assumes "exec_pre s" and "copy_ok (dec_cpylen s) (avail_out s) inst" and "hi_type inst \<noteq> XD3_NOOP"
    and "unat (avail_out s) + unat (hi_size inst) \<le> unat (space_out s)"
  shows "half_ok s inst (output_run s inst)"
proof (cases "ds_buf (data_sect s)")
  case Nil
  then show ?thesis using half_ok_fail [OF assms(1,2)] by (simp add: output_run_def)
next
  case (Cons b rest)
  obtain r t where w: "out_write (replicate (unat (hi_size inst)) b) s = (r, t)" by fastforce
  from exec_pre_write [OF assms(1) _ w] assms(3,4) Cons w show ?thesis
    by (simp add: output_run_def half_ok_def pend_def)
qed

lemma output_add_ok:
  assumes "exec_pre s" and "copy_ok (dec_cpylen s) (avail_out s) inst" and "hi_type inst \<noteq> XD3_NOOP"
    and "unat (avail_out s) + unat (hi_size inst) \<le> unat (space_out s)"
  shows "half_ok s inst (output_add s inst)"
proof -
  let ?d = "ds_buf (data_sect s)" and ?n = "unat (hi_size inst)"
  consider (zero) "hi_size inst = 0" | (short) "hi_size inst \<noteq> 0" "?d = [] \<or> ?n > length ?d"
    | (go) "hi_size inst \<noteq> 0" "\<not> (?d = [] \<or> ?n > length ?d)" by blast
  then show ?thesis
  proof cases
    case zero
    then show ?thesis using assms by (simp add: output_add_def half_ok_def pend_def)
  next
    case short
    then show ?thesis using half_ok_fail [OF assms(1,2)] by (simp add: output_add_def Let_def)
  next
    case go
    obtain r t where w: "out_write (take ?n ?d) s = (r, t)" by fastforce
    have "length (take ?n ?d) = ?n" using go by simp
    with exec_pre_write [OF assms(1) _ w] assms(3,4) go w show ?thesis
      by (simp add: output_add_def Let_def half_ok_def pend_def)
  qed
qed

lemma output_target_copy_ok:
  assumes "exec_pre s" and "copy_ok (dec_cpylen s) (avail_out s) inst" and "XD3_CPY \<le> hi_type inst"
    and "unat (avail_out s) + unat (hi_size inst) \<le> unat (space_out s)"
    and "\<not> hi_addr inst < dec_cpylen s"
  shows "half_ok s inst (output_target_copy s inst)"
proof -
  obtain win where win: "out_bytes s = Some win" "length win = unat (avail_out s)"
    using exec_pre_win [OF assms(1)] by blast
  let ?st = "hi_addr inst - dec_cpylen s"
  have "?st < avail_out s" using assms(2,3,5) by (simp add: copy_ok_def)
  then have "unat ?st < length win \<or> unat (hi_size inst) = 0" by (simp add: win word_less_nat_alt)
  from copy_overlap_length [OF this] obtain bs where
    bs: "copy_overlap win (unat ?st) (unat (hi_size inst)) = Some (win @ bs)" "length bs = unat (hi_size inst)"
    by blast
  obtain r t where w: "out_write bs s = (r, t)" by fastforce
  have base: "dec_tgtaddrbase s = (next_out s, dec_cpylen s)" using assms(1) by (simp add: exec_pre_def)
  have nz: "hi_type inst \<noteq> XD3_NOOP" using assms(3) by auto
  show ?thesis
    using exec_pre_write [OF assms(1) _ w] assms(4) win bs w base nz
    by (simp add: output_target_copy_def Let_def half_ok_def pend_def copy_ok_def)
qed

lemma copy_type_cases: "(ty :: uint8) = XD3_NOOP \<or> ty = XD3_ADD \<or> ty = XD3_RUN \<or> XD3_CPY \<le> ty"
proof (cases "unat ty < 3")
  case True
  then have "unat ty = 0 \<or> unat ty = 1 \<or> unat ty = 2" by arith
  then show ?thesis by (auto simp: word_unat_eq_iff)
next
  case False
  then show ?thesis by (simp add: word_le_nat_alt)
qed

section \<open>A copy from the source\<close>

lemma source_ok_blksize_le: "source_ok x \<Longrightarrow> unat (blksize x) \<le> 2 ^ 63"
proof -
  assume "source_ok x"
  then have "unat (blksize x) = 2 ^ unat (shiftby x)" and "unat (shiftby x) \<le> 63"
    using source_ok_blksize by (auto simp: source_ok_def)
  then show ?thesis by (simp only:) (rule power_increasing, simp_all)
qed

text \<open>What is left of a copy cut at the end of a block still starts in one of the two windows.\<close>

lemma copy_ok_advance:
  fixes addr cpylen avail n :: usize_t
  assumes "addr < cpylen" and "unat avail + unat n < 2 ^ 64"
  shows "addr + n < cpylen \<or> addr + n - cpylen < avail + n"
proof -
  define d where "d = cpylen - addr"
  have d: "unat d = unat cpylen - unat addr" "unat addr < unat cpylen"
    using assms(1) by (simp_all add: d_def unat_sub word_less_nat_alt word_le_nat_alt)
  show ?thesis
  proof (cases "unat n < unat d")
    case True
    then have "unat addr + unat n < unat cpylen" using d by linarith
    moreover from this have "unat (addr + n) = unat addr + unat n"
      using unat_bound_64 [of cpylen] by (intro unat_plus_64) linarith
    ultimately show ?thesis by (simp add: word_less_nat_alt)
  next
    case False
    then have "unat (n - d) = unat n - unat d" by (intro unat_sub) (simp add: word_le_nat_alt)
    moreover have e: "addr + n - cpylen = n - d" by (simp add: d_def)
    ultimately have "unat (addr + n - cpylen) < unat n" using d False unfolding e by linarith
    moreover have "unat (avail + n) = unat avail + unat n" using assms(2) by (rule unat_plus_64)
    ultimately show ?thesis unfolding word_less_nat_alt by linarith
  qed
qed

lemma block_part_fits:
  assumes part: "block_part bsize blkoff inst = (n, h)" and lt: "blkoff < bsize"
    and len: "length blk = unat onb" and onb: "onb \<le> bsize"
    and bs: "unat bsize \<le> 2 ^ 63" and sz: "unat (hi_size inst) \<le> 2 ^ 62"
    and enough: "\<not> (onb \<noteq> bsize \<and> blkoff + hi_size inst > onb)"
  shows "unat blkoff + unat n \<le> length blk"
proof -
  have lt': "unat blkoff < unat bsize" using lt by (simp add: word_less_nat_alt)
  then have "unat blkoff + unat (hi_size inst) < 2 ^ 64" using bs sz by simp
  then have sum: "unat (blkoff + hi_size inst) = unat blkoff + unat (hi_size inst)" by (rule unat_plus_64)
  show ?thesis
  proof (cases "onb = bsize")
    case True
    then show ?thesis
      using part len lt' sum by (auto simp: block_part_def unat_sub word_le_nat_alt split: if_splits)
  next
    case False
    with enough have "unat blkoff + unat (hi_size inst) \<le> unat onb"
      using sum by (simp add: word_le_nat_alt not_less)
    moreover from this have "blkoff + hi_size inst \<le> bsize"
      using onb sum by (simp add: word_le_nat_alt)
    ultimately show ?thesis using part len by (simp add: block_part_def)
  qed
qed

lemma half_ok_part:
  assumes w: "out_write bs s = (r, t)" and pre: "exec_pre s"
    and fit: "unat (avail_out s) + unat (hi_size inst) \<le> unat (space_out s)"
    and part: "block_part bsize blkoff inst = (n, h)" and len: "length bs = unat n" and lt: "blkoff < bsize"
    and addr: "hi_addr inst < dec_cpylen s" and ty: "XD3_CPY \<le> hi_type inst"
  shows "half_ok s inst (r, t, h)"
proof -
  have le: "unat n \<le> unat (hi_size inst)" using block_part_cases [OF part lt] by auto
  then have "unat (avail_out s) + length bs \<le> unat (space_out s)" using fit len by linarith
  from exec_pre_write [OF pre this w] have t: "r = XD3_OK" "exec_pre t" "avail_out t = avail_out s + n"
    using len by simp_all
  have "unat (avail_out s) + unat n < 2 ^ 64"
    using le fit unat_bound_64 [of "space_out s"] by linarith
  from copy_ok_advance [OF addr this] have adv:
    "hi_addr inst + n < dec_cpylen s \<or> hi_addr inst + n - dec_cpylen s < avail_out t" by (simp add: t)
  have nz: "hi_type inst \<noteq> XD3_NOOP" using ty by auto
  show ?thesis
    using block_part_cases [OF part lt] adv t nz by (auto simp: half_ok_def pend_def copy_ok_def)
qed

lemma output_source_copy_ok:
  assumes pre: "exec_pre s" and cp: "copy_ok (dec_cpylen s) (avail_out s) inst" and ty: "XD3_CPY \<le> hi_type inst"
    and fit: "unat (avail_out s) + unat (hi_size inst) \<le> unat (space_out s)"
    and addr: "hi_addr inst < dec_cpylen s"
  shows "half_ok s inst (output_source_copy s inst)"
proof -
  have cl: "dec_cpylen s \<noteq> 0" using addr by auto
  then obtain x where x: "src s = Some x"
    "xd3_blksize_div (dec_cpyoff s) x = (cpyoff_blocks x, cpyoff_blkoff x)"
    using pre by (auto simp: exec_pre_def src_ready_def split: option.splits)
  have so: "source_ok x" using pre x(1) by (simp add: exec_pre_def src_ok_def)
  obtain b r where add: "xd3_blksize_add (cpyoff_blocks x) (cpyoff_blkoff x) x (hi_addr inst) = (b, r)" by fastforce
  have "unat (dec_cpyoff s) + unat (hi_addr inst) < 2 ^ 64"
    using pre addr by (simp add: exec_pre_def word_less_nat_alt)
  from blksize_div_add [OF so x(2) add this] have r: "r < blksize x" by (simp add: word_less_nat_alt)
  then have rf: "(blksize x \<le> r) = False" by (simp add: not_le)
  obtain ret u where g: "xd3_getblk s b = (ret, u)" by fastforce
  from exec_pre_getblk [OF pre x(1) g] obtain y m where y: "u = s\<lparr>src := Some y, msg := m\<rparr>" "exec_pre u"
    "block_ok y" "blksize y = blksize x" "ret \<notin> {C_UNDEFINED, C_DIVERGES, XD3_OUTPUT}"
    "ret = XD3_OK \<Longrightarrow> \<exists>b. curblk y = Some b" by (rule exec_pre_getblk [OF pre x(1) g]) (rule that)
  have fld: "dec_cpylen u = dec_cpylen s" "avail_out u = avail_out s" "space_out u = space_out s" "src u = Some y"
    by (simp_all add: y(1))
  have cp_u: "copy_ok (dec_cpylen u) (avail_out u) inst" using cp by (simp only: fld)
  have keep: "half_ok u inst res \<Longrightarrow> half_ok s inst res" for res by (simp add: half_ok_def fld)
  show ?thesis
  proof (cases "ret = XD3_OK")
    case False
    then have "output_source_copy s inst =
        (if ret = XD3_TOOFARBACK then (XD3_INTERNAL, u\<lparr>msg := Some ''non-seekable source in decode''\<rparr>, inst)
         else (ret, u, inst))"
      using x(1) add rf g by (simp add: output_source_copy_def Let_def)
    then show ?thesis
      using half_ok_same [OF y(2) cp_u y(5)] half_ok_fail [OF y(2) cp_u, of XD3_INTERNAL] keep by simp
  next
    case True
    then obtain blk where blk: "curblk y = Some blk" using y(6) by blast
    then have len: "length blk = unat (onblk y)" "onblk y \<le> blksize x"
      using y(3,4) by (auto simp: block_ok_def)
    show ?thesis
    proof (cases "onblk y \<noteq> blksize x \<and> r + hi_size inst > onblk y")
      case short: True
      then have "output_source_copy s inst = (XD3_INVALID_INPUT, u\<lparr>msg := Some ''source file too short''\<rparr>, inst)"
        using x(1) add rf g True blk fld(4) by (simp add: output_source_copy_def Let_def)
      then show ?thesis using half_ok_fail [OF y(2) cp_u, of XD3_INVALID_INPUT] keep by simp
    next
      case enough: False
      obtain n h where part: "block_part (blksize x) r inst = (n, h)" by fastforce
      have sz: "unat (hi_size inst) \<le> 2 ^ 62"
      proof -
        have "unat (space_out s) \<le> 0x4000000"
          using pre by (simp add: exec_pre_def win_ok_def word_le_nat_alt)
        then show ?thesis using fit by simp
      qed
      note bl = block_part_fits [OF part r len source_ok_blksize_le [OF so] sz enough]
      obtain ret2 t where w: "out_write (take (unat n) (drop (unat r) blk)) u = (ret2, t)" by fastforce
      have "half_ok u inst (ret2, t, h)"
        using bl addr ty fit by (intro half_ok_part [OF w y(2) _ part _ r]) (simp_all add: fld)
      moreover have "output_source_copy s inst = (ret2, t, h)"
        using x(1) add rf g True blk fld(4) enough part bl w
        by (simp add: output_source_copy_def Let_def not_less del: de_Morgan_conj)
      ultimately show ?thesis using keep by simp
    qed
  qed
qed

lemma output_halfinst_ok:
  assumes "exec_pre s" and "copy_ok (dec_cpylen s) (avail_out s) inst" and "hi_type inst \<noteq> XD3_NOOP"
  shows "half_ok s inst (xd3_decode_output_halfinst s inst)"
proof (cases "USIZE_T_OVERFLOW (avail_out s) (hi_size inst) \<or> avail_out s + hi_size inst > space_out s")
  case True
  then show ?thesis
    using half_ok_fail [OF assms(1,2), of XD3_INVALID_INPUT] by (simp add: xd3_decode_output_halfinst_def)
next
  case False
  note fit = space_check [OF False]
  have win: "\<not> dec_win_ind s AND VCD_TARGET \<noteq> 0" using assms(1) by (simp add: exec_pre_def)
  consider "hi_type inst = XD3_RUN" | "hi_type inst = XD3_ADD" | (cpy) "XD3_CPY \<le> hi_type inst"
    "hi_type inst \<noteq> XD3_RUN" "hi_type inst \<noteq> XD3_ADD"
    using assms(3) copy_type_cases [of "hi_type inst"] by blast
  then show ?thesis
  proof cases
    case cpy
    then show ?thesis
      using False win fit output_source_copy_ok [OF assms(1,2) cpy(1) fit] output_target_copy_ok [OF assms(1,2) cpy(1) fit]
      by (cases "hi_addr inst < dec_cpylen s") (simp_all add: xd3_decode_output_halfinst_def)
  qed (use False fit output_run_ok [OF assms fit] output_add_ok [OF assms fit] in
      \<open>simp_all add: xd3_decode_output_halfinst_def\<close>)
qed

section \<open>The instruction loop\<close>

lemma half_ok_trans:
  assumes "half_ok s inst (XD3_OK, u, g)" and "dec_cpylen u = dec_cpylen s" and "half_ok u g res"
  shows "half_ok s inst res"
  using assms by (auto simp: half_ok_def)

lemma exec_frame_fields:
  assumes "exec_frame s t"
  shows "dec_cpylen t = dec_cpylen s" "dec_position t = dec_position s" "acache t = acache s"
    "code_table t = code_table s" "dec_current1 t = dec_current1 s" "dec_current2 t = dec_current2 s"
    "inst_sect t = inst_sect s" "addr_sect t = addr_sect s" "dec_tgtlen t = dec_tgtlen s"
    "dec_cpyoff t = dec_cpyoff s" "dec_win_ind t = dec_win_ind s" "dec_state t = dec_state s"
    "enc_state t = enc_state s" "flags t = flags s" "sec_type t = sec_type s" "dec_winbytes t = dec_winbytes s"
    "next_in t = next_in s" "getblk t = getblk s" "next_out t = next_out s" "dec_buffer t = dec_buffer s"
    "space_out t = space_out s" "dec_lastwin t = dec_lastwin s" "alloc_cnt t = alloc_cnt s"
    "dec_adler32 t = dec_adler32 s" "total_out t = total_out s"
  using assms by (auto simp: exec_frame_def)

lemma output_loop_ok:
  "exec_pre s \<Longrightarrow> copy_ok (dec_cpylen s) (avail_out s) inst \<Longrightarrow> half_ok s inst (output_halfinst_loop s inst)"
proof (induction s inst rule: output_halfinst_loop.induct)
  case (1 s inst)
  show ?case
  proof (cases "hi_type inst = XD3_NOOP")
    case True
    then show ?thesis using 1(2,3) by (simp add: output_halfinst_loop.simps half_ok_def)
  next
    case False
    obtain r u h where o: "xd3_decode_output_halfinst s inst = (r, u, h)" by (metis prod_cases3)
    have ok: "half_ok s inst (r, u, h)" using output_halfinst_ok [OF 1(2,3) False] o by simp
    have cl: "dec_cpylen u = dec_cpylen s" using output_halfinst_frame [OF o] by (rule exec_frame_fields)
    show ?thesis
    proof (cases "r = XD3_OK")
      case True
      have "half_ok u h (output_halfinst_loop u h)"
        using 1(1) [OF False, of "(u, h)" u h] o True ok cl by (simp add: half_ok_def)
      then have "half_ok s inst (output_halfinst_loop u h)"
        using half_ok_trans [OF _ cl] ok True by blast
      then show ?thesis using o True False by (subst output_halfinst_loop.simps) simp
    next
      case fail: False
      then show ?thesis using o False ok by (subst output_halfinst_loop.simps) (simp add: xd3_try_def)
    qed
  qed
qed

text \<open>The code table is the default one and the cache has its shape.\<close>

definition table_ok :: "xd3_decoder \<Rightarrow> bool" where
  "table_ok s \<longleftrightarrow> length (code_table s) = 256 \<and> list_all dinst_ok (code_table s) \<and>
     cache_ok (acache s) \<and> s_near (acache s) = 4 \<and> s_same (acache s) = 3"

definition emit_inv :: "xd3_decoder \<Rightarrow> bool" where
  "emit_inv s \<longleftrightarrow> exec_pre s \<and> table_ok s \<and>
     dec_position s = dec_cpylen s + avail_out s + pend (dec_current1 s) + pend (dec_current2 s) \<and>
     copy_ok (dec_cpylen s) (avail_out s) (dec_current1 s) \<and>
     copy_ok (dec_cpylen s) (avail_out s + pend (dec_current1 s)) (dec_current2 s)"

lemma output_current1_ok:
  assumes "emit_inv s" and "output_current1 s = (ret, t)"
  shows "ret \<notin> {C_UNDEFINED, C_DIVERGES, XD3_OUTPUT} \<and> emit_inv t"
proof -
  obtain u h where o: "output_halfinst_loop s (dec_current1 s) = (ret, u, h)" "t = u\<lparr>dec_current1 := h\<rparr>"
    using assms(2) by (auto simp: output_current1_def split: prod.splits)
  have "half_ok s (dec_current1 s) (ret, u, h)"
    using output_loop_ok [of s "dec_current1 s"] assms(1) o(1) by (simp add: emit_inv_def)
  moreover note f = exec_frame_fields [OF output_halfinst_loop_frame [OF o(1)]]
  ultimately show ?thesis
    using assms(1) by (simp add: emit_inv_def half_ok_def o(2) table_ok_def f flip: add.assoc)
qed

lemma output_current2_ok:
  assumes "emit_inv s" and "hi_type (dec_current1 s) = XD3_NOOP" and "output_current2 s = (ret, t)"
  shows "ret \<notin> {C_UNDEFINED, C_DIVERGES, XD3_OUTPUT} \<and> emit_inv t"
proof -
  obtain u h where o: "output_halfinst_loop s (dec_current2 s) = (ret, u, h)" "t = u\<lparr>dec_current2 := h\<rparr>"
    using assms(3) by (auto simp: output_current2_def split: prod.splits)
  have p: "pend (dec_current1 s) = 0" using assms(2) by (simp add: pend_def)
  have "half_ok s (dec_current2 s) (ret, u, h)"
    using output_loop_ok [of s "dec_current2 s"] assms(1) o(1) p by (simp add: emit_inv_def)
  moreover note f = exec_frame_fields [OF output_halfinst_loop_frame [OF o(1)]]
  moreover have "copy_ok (dec_cpylen s) a (dec_current1 s)" for a
    using assms(2) by (simp add: copy_ok_def)
  ultimately show ?thesis
    using assms(1) p by (simp add: emit_inv_def half_ok_def o(2) table_ok_def f)
qed

section \<open>Parsing\<close>

lemma parse_frame_fields:
  assumes "parse_frame s t"
  shows "exec_pre t = exec_pre s" "dec_cpylen t = dec_cpylen s" "avail_out t = avail_out s"
    "code_table t = code_table s" "dec_current1 t = dec_current1 s" "dec_current2 t = dec_current2 s"
proof -
  obtain m c i a p where t: "t = s\<lparr>msg := m, acache := c, inst_sect := (inst_sect s)\<lparr>ds_buf := i\<rparr>,
      addr_sect := (addr_sect s)\<lparr>ds_buf := a\<rparr>, dec_position := p\<rparr>"
    using assms by (auto simp: parse_frame_def)
  show "exec_pre t = exec_pre s" by (rule exec_pre_cong) (simp_all add: t)
  show "dec_cpylen t = dec_cpylen s" "avail_out t = avail_out s"
    "code_table t = code_table s" "dec_current1 t = dec_current1 s" "dec_current2 t = dec_current2 s"
    by (simp_all add: t)
qed

lemma decode_address_ok:
  assumes c: "cache_ok (acache s)" "s_near (acache s) = 4" "s_same (acache s) = 3" and m: "unat mode < 9"
    and d: "xd3_decode_address s here mode inp v = (ret, t, rest, addr)"
  shows "ret \<in> {XD3_OK, XD3_INVALID_INPUT} \<and> cache_ok (acache t) \<and> s_near (acache t) = 4 \<and> s_same (acache t) = 3"
proof -
  obtain e i a ms where v: "decode_address_value (acache s) here mode inp v = (e, ms, i, a)" by (metis prod_cases4)
  have len: "length (near_array (acache s)) = 4" "length (same_array (acache s)) = 768"
    using c by (simp_all add: cache_ok_def)
  have near: "unat (mode - 2) < 4" if "mode < 6" "mode \<noteq> 0" "mode \<noteq> 1"
  proof -
    have "2 \<le> unat mode" using that(2,3) by (metis One_nat_def less_2_cases not_less unat_1 unat_eq_0 unsigned_word_eqI)
    then have "unat (mode - 2) = unat mode - 2" by (simp add: unat_sub word_le_nat_alt)
    then show ?thesis using that(1) \<open>2 \<le> unat mode\<close> by (simp add: word_less_nat_alt)
  qed
  have same: "\<not> 768 \<le> unat (mode * 256 - 1536 + ucast b)" if "\<not> mode < 6" for b :: uint8
  proof -
    have "6 \<le> mode" using that by simp
    then have "unat (mode - 6) = unat mode - 6" by (simp add: unat_sub word_le_nat_alt)
    then have "unat (mode - 6) < 3" using m by simp
    moreover define q where "q = mode - 6"
    ultimately have k: "unat q < 3" by simp
    have b: "unat (ucast b :: usize_t) = unat b"
      using unat_bound_8 [of b] by (simp add: unsigned_ucast_eq unsigned_take_bit_eq take_bit_nat_eq_self)
    have "unat (q * 256) = unat q * 256" using k by (simp add: unat_word_ariths)
    moreover from this have "unat (q * 256 + ucast b) = unat (q * 256) + unat (ucast b :: usize_t)"
      using k b unat_bound_8 [of b] by (intro unat_plus_64) simp
    ultimately have "unat (q * 256 + ucast b) < 768" using k b unat_bound_8 [of b] by simp
    then show ?thesis by (simp add: q_def algebra_simps not_le)
  qed
  have e: "e \<in> {XD3_OK, XD3_INVALID_INPUT}"
  proof (cases "mode < 6")
    case True
    then show ?thesis
      using v c near len by (auto simp: decode_address_value_def not_le split: if_splits sum.splits)
  next
    case False
    then show ?thesis
      using v c len same by (cases inp) (simp_all add: decode_address_value_def Let_def)
  qed
  then show ?thesis
    using d v c cache_ok_update [OF c(1)]
    by (auto simp: xd3_decode_address_def split: if_splits option.splits)
qed

text \<open>The result of parsing a half instruction: its size is added to the position and a copy starts
  before the position.\<close>

definition parse_ok :: "xd3_decoder \<Rightarrow> xd3_hinst \<Rightarrow> xd3_rvalue \<times> xd3_decoder \<times> xd3_hinst \<Rightarrow> bool" where
  "parse_ok s inst res \<longleftrightarrow>
     (case res of (ret, t, h) \<Rightarrow>
        ret \<in> {XD3_OK, XD3_INVALID_INPUT} \<and> parse_frame s t \<and>
        (ret = XD3_OK \<longrightarrow> table_ok t \<and> hi_type h = hi_type inst \<and>
           dec_position t = dec_position s + hi_size h \<and>
           (XD3_CPY \<le> hi_type h \<longrightarrow> hi_addr h < dec_position s)))"

lemma half_mode: "(ty :: uint8) < 12 \<Longrightarrow> XD3_CPY \<le> ty \<Longrightarrow> unat (ucast (ty - XD3_CPY) :: usize_t) < 9"
proof -
  assume "ty < 12" "XD3_CPY \<le> ty"
  then have u: "unat (ty - XD3_CPY) = unat ty - 3" "unat ty < 12"
    by (simp_all add: unat_sub word_le_nat_alt word_less_nat_alt)
  have "unat (ucast (ty - XD3_CPY) :: usize_t) = unat (ty - XD3_CPY)"
    using unat_bound_8 [of "ty - XD3_CPY"] by (simp add: unsigned_ucast_eq unsigned_take_bit_eq take_bit_nat_eq_self)
  then show ?thesis using u by simp
qed

lemma halfinst_size_ok:
  assumes "halfinst_size s inst = (ret, t, h)" and "table_ok s"
  shows "ret \<in> {XD3_OK, XD3_INVALID_INPUT} \<and> table_ok t \<and> hi_type h = hi_type inst \<and>
    dec_position t = dec_position s"
  using assms by (auto simp: halfinst_size_def table_ok_def split: if_splits sum.splits)

lemma halfinst_address_ok:
  assumes "halfinst_address s inst = (ret, t, h)" and "table_ok s" and "hi_type inst < 12"
  shows "ret \<in> {XD3_OK, XD3_INVALID_INPUT} \<and> (ret = XD3_OK \<longrightarrow> table_ok t \<and> hi_type h = hi_type inst \<and>
    dec_position t = dec_position s \<and> (XD3_CPY \<le> hi_type h \<longrightarrow> hi_addr h < dec_position s))"
proof (cases "XD3_CPY \<le> hi_type inst")
  case True
  obtain r u rest addr where d: "xd3_decode_address s (dec_position s)
      (ucast (hi_type inst - XD3_CPY)) (ds_buf (addr_sect s)) (hi_addr inst) = (r, u, rest, addr)"
    by (metis prod_cases4)
  have c: "cache_ok (acache s)" "s_near (acache s) = 4" "s_same (acache s) = 3"
    using assms(2) by (simp_all add: table_ok_def)
  note ok = decode_address_ok [OF c half_mode [OF assms(3) True] d]
  obtain m c where u: "u = s\<lparr>msg := m, acache := c\<rparr>" using decode_address_frame [OF d] by blast
  show ?thesis
    using assms(1,2) True d ok u
    by (auto simp: halfinst_address_def Let_def table_ok_def not_le split: if_split_asm)
next
  case False
  then show ?thesis using assms by (auto simp: halfinst_address_def)
qed

lemma parse_halfinst_ok:
  assumes "table_ok s" and "hi_type inst < 12"
  shows "parse_ok s inst (xd3_decode_parse_halfinst s inst)"
proof -
  obtain r1 s1 h1 where 1: "halfinst_size s inst = (r1, s1, h1)" by (metis prod_cases3)
  obtain r2 s2 h2 where 2: "halfinst_address s1 h1 = (r2, s2, h2)" by (metis prod_cases3)
  obtain r3 s3 h3 where 3: "halfinst_advance s2 h2 = (r3, s3, h3)" by (metis prod_cases3)
  obtain r t h where p: "xd3_decode_parse_halfinst s inst = (r, t, h)" by (metis prod_cases3)
  note k1 = halfinst_size_ok [OF 1 assms(1)]
  have k2: "r1 = XD3_OK \<Longrightarrow> r2 \<in> {XD3_OK, XD3_INVALID_INPUT} \<and> (r2 = XD3_OK \<longrightarrow> table_ok s2 \<and>
      hi_type h2 = hi_type h1 \<and> dec_position s2 = dec_position s1 \<and>
      (XD3_CPY \<le> hi_type h2 \<longrightarrow> hi_addr h2 < dec_position s1))"
    using halfinst_address_ok [OF 2] k1 assms(2) by simp
  have k3: "r3 \<in> {XD3_OK, XD3_INVALID_INPUT} \<and> (r3 = XD3_OK \<longrightarrow> h3 = h2 \<and> (table_ok s2 \<longrightarrow> table_ok s3) \<and>
      dec_position s3 = dec_position s2 + hi_size h2)"
    using 3 by (auto simp: halfinst_advance_def table_ok_def split: if_splits)
  show ?thesis
    using p 1 2 3 k1 k2 k3 parse_halfinst_frame [OF p]
    by (auto simp: parse_ok_def xd3_decode_parse_halfinst_def xd3_try_def split: if_splits)
qed

lemma copy_in_window: "addr < cpylen + a \<Longrightarrow> addr < cpylen \<or> addr - cpylen < (a :: usize_t)"
proof (cases "addr < cpylen")
  case False
  assume lt: "addr < cpylen + a"
  have le: "unat cpylen \<le> unat addr" using False by (simp add: word_le_nat_alt not_less)
  then have "unat (addr - cpylen) = unat addr - unat cpylen" by (simp add: unat_sub word_le_nat_alt)
  moreover have "unat addr < unat cpylen + unat a"
  proof -
    have "unat (cpylen + a) \<le> unat cpylen + unat a" by (simp add: unat_word_ariths)
    then show ?thesis using lt by (simp add: word_less_nat_alt)
  qed
  ultimately have "unat (addr - cpylen) < unat a" using le by linarith
  then show ?thesis by (simp add: word_less_nat_alt)
qed simp

text \<open>\<open>hi_type\<close> is not \<open>XD3_NOOP\<close> for a first half, and a second half may be absent.\<close>

lemma decode_instruction_ok:
  assumes inv: "emit_inv s" and np: "\<not> insts_pending s" and d: "xd3_decode_instruction s = (ret, t)"
  shows "ret \<in> {XD3_OK, XD3_INVALID_INPUT} \<and> (ret = XD3_OK \<longrightarrow> emit_inv t)"
proof (cases "ds_buf (inst_sect s)")
  case Nil
  then show ?thesis using d by (auto simp: xd3_decode_instruction_def)
next
  case (Cons b rest)
  have tab: "table_ok s" and pre: "exec_pre s" using inv by (simp_all add: emit_inv_def)
  have pos: "dec_position s = dec_cpylen s + avail_out s"
    using inv np by (simp add: emit_inv_def insts_pending_def pend_def)
  let ?i = "code_table s ! unat b"
  have b: "unat b < length (code_table s)" using tab unat_bound_8 [of b] by (simp add: table_ok_def)
  then have "dinst_ok ?i" using tab by (simp add: table_ok_def list_all_length)
  then have ty: "type1 ?i < 12" "type2 ?i < 12" "type1 ?i \<noteq> XD3_NOOP" by (simp_all add: dinst_ok_def)
  define h1 where "h1 = (dec_current1 s)\<lparr>hi_type := type1 ?i, hi_size := ucast (size1 ?i)\<rparr>"
  define h2 where "h2 = (dec_current2 s)\<lparr>hi_type := type2 ?i, hi_size := ucast (size2 ?i)\<rparr>"
  define s1 where "s1 = s\<lparr>inst_sect := (inst_sect s)\<lparr>ds_buf := rest\<rparr>, dec_current1 := h1, dec_current2 := h2\<rparr>"
  have s1: "exec_pre s1" "table_ok s1" "dec_position s1 = dec_cpylen s1 + avail_out s1"
    using pre tab pos exec_pre_cong [of s1 s] by (simp_all add: s1_def table_ok_def)
  obtain r2 u2 g1 where p1: "xd3_decode_parse_halfinst s1 h1 = (r2, u2, g1)" by (metis prod_cases3)
  have k1: "parse_ok s1 h1 (r2, u2, g1)"
    using parse_halfinst_ok [OF s1(2), of h1] ty p1 by (simp add: h1_def)
  define s2 where "s2 = u2\<lparr>dec_current1 := g1\<rparr>"
  have go: "xd3_decode_instruction s = xd3_try (r2, s2)
      (\<lambda>s. if type2 ?i \<noteq> XD3_NOOP then parse_current2 s else (XD3_OK, s))"
    using Cons b ty(3) p1
    by (simp add: xd3_decode_instruction_def Let_def parse_current1_def s1_def s2_def h1_def h2_def)
  show ?thesis
  proof (cases "r2 = XD3_OK")
    case False
    then show ?thesis using d go k1 by (auto simp: parse_ok_def xd3_try_def)
  next
    case True
    note f1 = parse_frame_fields [of s1 u2]
    have s2: "exec_pre s2" "table_ok s2" "dec_cpylen s2 = dec_cpylen s1" "avail_out s2 = avail_out s1"
      "dec_current2 s2 = h2" "dec_position s2 = dec_position s1 + hi_size g1" "hi_type g1 = type1 ?i"
      "copy_ok (dec_cpylen s2) (avail_out s2) g1"
      using k1 True s1 f1 copy_in_window
      by (auto simp: parse_ok_def s2_def table_ok_def copy_ok_def h1_def s1_def)
    have pg1: "pend g1 = hi_size g1" using s2(7) ty(3) by (simp add: pend_def)
    show ?thesis
    proof (cases "type2 ?i = XD3_NOOP")
      case noop: True
      have "pend h2 = 0" "copy_ok c a h2" for c a using noop by (simp_all add: h2_def pend_def copy_ok_def)
      moreover have "dec_current1 s2 = g1" by (simp add: s2_def)
      moreover have "ret = XD3_OK" "t = s2" using d go True noop by simp_all
      ultimately show ?thesis using s2 s1 pg1 by (simp add: emit_inv_def)
    next
      case False
      obtain r3 u3 g2 where p2: "xd3_decode_parse_halfinst s2 h2 = (r3, u3, g2)" by (metis prod_cases3)
      have k2: "parse_ok s2 h2 (r3, u3, g2)"
        using parse_halfinst_ok [OF s2(2), of h2] ty p2 by (simp add: h2_def)
      have t: "ret = r3" "t = u3\<lparr>dec_current2 := g2\<rparr>"
        using d go True False p2 s2(5) by (simp_all add: parse_current2_def)
      show ?thesis
      proof (cases "r3 = XD3_OK")
        case ok3: True
        note f2 = parse_frame_fields [of s2 u3]
        have "dec_current1 u3 = g1" using k2 f2 by (simp add: parse_ok_def) (simp add: s2_def)
        moreover have "pend g2 = hi_size g2" using k2 ok3 False by (simp add: parse_ok_def pend_def h2_def)
        ultimately show ?thesis
          using t k2 ok3 f2 s2 s1 pg1 copy_in_window [of "hi_addr g2" "dec_cpylen s2" "avail_out s2 + pend g1"]
          by (simp add: parse_ok_def emit_inv_def table_ok_def copy_ok_def add.assoc)
      qed (use k2 t in \<open>simp add: parse_ok_def\<close>)
    qed
  qed
qed

lemma decode_emit_loop_ok:
  "emit_inv s \<Longrightarrow> decode_emit_loop s = (ret, t) \<Longrightarrow>
    ret \<notin> {C_UNDEFINED, C_DIVERGES, XD3_OUTPUT} \<and> (ret \<noteq> XD3_INVALID_INPUT \<longrightarrow> emit_inv t)"
proof (induction s rule: decode_emit_loop.induct)
  case (1 s)
  show ?case
  proof (cases "ds_buf (inst_sect s) \<noteq> [] \<or> insts_pending s")
    case False
    then show ?thesis using 1(2,3) by (simp add: decode_emit_loop.simps)
  next
    case True
    obtain r1 s1 where d: "(if \<not> insts_pending s then xd3_decode_instruction s else (XD3_OK, s)) = (r1, s1)"
      by fastforce
    have k1: "r1 \<in> {XD3_OK, XD3_INVALID_INPUT} \<and> (r1 = XD3_OK \<longrightarrow> emit_inv s1)"
      using d 1(2) decode_instruction_ok [OF 1(2)] by (auto split: if_splits)
    obtain r2 s2 where o1: "output_current1 s1 = (r2, s2)" by fastforce
    obtain r3 s3 where o2: "output_current2 s2 = (r3, s3)" by fastforce
    have eq: "decode_emit_loop s = xd3_try (r1, s1) (\<lambda>s. xd3_try (output_current1 s)
        (\<lambda>s. xd3_try (output_current2 s) decode_emit_loop))"
      using True d by (subst decode_emit_loop.simps) simp
    consider (a) "r1 \<noteq> XD3_OK" | (b) "r1 = XD3_OK" "r2 \<noteq> XD3_OK" | (c) "r1 = XD3_OK" "r2 = XD3_OK" "r3 \<noteq> XD3_OK"
      | (go) "r1 = XD3_OK" "r2 = XD3_OK" "r3 = XD3_OK" by blast
    then show ?thesis
    proof cases
      case a
      then show ?thesis using k1 eq 1(3) by (auto simp: xd3_try_def)
    next
      case b
      then show ?thesis using k1 eq 1(3) o1 output_current1_ok [OF _ o1] by (auto simp: xd3_try_def)
    next
      case c
      then have "emit_inv s2" using k1 output_current1_ok [OF _ o1] by blast
      moreover have "hi_type (dec_current1 s2) = XD3_NOOP" using o1 c output_current_noop(1) by blast
      ultimately show ?thesis using c k1 eq 1(3) o1 o2 output_current2_ok [OF _ _ o2] by (auto simp: xd3_try_def)
    next
      case go
      then have "emit_inv s2" using k1 output_current1_ok [OF _ o1] by blast
      moreover have "hi_type (dec_current1 s2) = XD3_NOOP" using o1 go output_current_noop(1) by blast
      ultimately have inv: "emit_inv s3" using output_current2_ok [OF _ _ o2] by blast
      have "decode_emit_loop s3 = (ret, t)" using eq 1(3) go o1 o2 by simp
      then show ?thesis using 1(1) [OF True _ _ _ inv] d o1 o2 go by simp
    qed
  qed
qed

end
