(* ===== verification/Xd3_Decode_Run.thy ===== *)
theory Xd3_Decode_Run
  imports Xd3_Decode_Safe
begin

text \<open>
  The invariant of the decoder between two calls, state by state, and the proof that every call of
  \<open>xd3_decode_input\<close> keeps it, reports no undefined behaviour and returns.
\<close>

section \<open>Results\<close>

text \<open>\<open>returns m Q E\<close>: when \<open>m\<close> goes on its state satisfies \<open>Q\<close>, when it returns early, \<open>E\<close>.\<close>

definition returns :: "xd3_rvalue \<times> 's \<Rightarrow> ('s \<Rightarrow> bool) \<Rightarrow> (xd3_rvalue \<Rightarrow> 's \<Rightarrow> bool) \<Rightarrow> bool" where
  "returns m Q E \<longleftrightarrow> (if fst m = XD3_OK then Q (snd m) else E (fst m) (snd m))"

named_theorems returns_intro \<open>rules for early return\<close>

lemma returns_try [returns_intro]:
  "returns m Q E \<Longrightarrow> (\<And>s. Q s \<Longrightarrow> returns (f s) R E) \<Longrightarrow> returns (xd3_try m f) R E"
  by (cases m) (auto simp: returns_def xd3_try_def split: if_splits)

lemma returns_OK [simp]: "returns (XD3_OK, s) Q E = Q s"
  by (simp add: returns_def)

lemma returns_fail [simp]: "e \<noteq> XD3_OK \<Longrightarrow> returns (e, s) Q E = E e s"
  by (simp add: returns_def)

lemma returns_mono: "returns m Q E \<Longrightarrow> (\<And>s. Q s \<Longrightarrow> R s) \<Longrightarrow> returns m R E"
  by (auto simp: returns_def split: if_splits)

section \<open>The invariant\<close>

lemma win_ok_upd [simp]:
  "win_ok (s\<lparr>msg := x1\<rparr>) = win_ok s"
  "win_ok (s\<lparr>total_in := x2\<rparr>) = win_ok s"
  "win_ok (s\<lparr>next_in := x3\<rparr>) = win_ok s"
  "win_ok (s\<lparr>dec_64part := x4\<rparr>) = win_ok s"
  "win_ok (s\<lparr>dec_state := x5\<rparr>) = win_ok s"
  "win_ok (s\<lparr>dec_hdr_ind := x6\<rparr>) = win_ok s"
  "win_ok (s\<lparr>dec_win_ind := x7\<rparr>) = win_ok s"
  "win_ok (s\<lparr>dec_del_ind := x8\<rparr>) = win_ok s"
  "win_ok (s\<lparr>dec_magic := x9\<rparr>) = win_ok s"
  "win_ok (s\<lparr>dec_secondid := x10\<rparr>) = win_ok s"
  "win_ok (s\<lparr>dec_codetblsz := x11\<rparr>) = win_ok s"
  "win_ok (s\<lparr>dec_appheadsz := x12\<rparr>) = win_ok s"
  "win_ok (s\<lparr>dec_appheader := x13\<rparr>) = win_ok s"
  "win_ok (s\<lparr>dec_cksum := x14\<rparr>) = win_ok s"
  "win_ok (s\<lparr>dec_adler32 := x15\<rparr>) = win_ok s"
  "win_ok (s\<lparr>dec_cpylen := x16\<rparr>) = win_ok s"
  "win_ok (s\<lparr>dec_cpyoff := x17\<rparr>) = win_ok s"
  "win_ok (s\<lparr>dec_enclen := x18\<rparr>) = win_ok s"
  "win_ok (s\<lparr>dec_tgtlen := x19\<rparr>) = win_ok s"
  "win_ok (s\<lparr>dec_winstart := x20\<rparr>) = win_ok s"
  "win_ok (s\<lparr>dec_window_count := x21\<rparr>) = win_ok s"
  "win_ok (s\<lparr>dec_winbytes := x22\<rparr>) = win_ok s"
  "win_ok (s\<lparr>dec_hdrsize := x23\<rparr>) = win_ok s"
  "win_ok (s\<lparr>dec_tgtaddrbase := x24\<rparr>) = win_ok s"
  "win_ok (s\<lparr>dec_position := x25\<rparr>) = win_ok s"
  "win_ok (s\<lparr>dec_maxpos := x26\<rparr>) = win_ok s"
  "win_ok (s\<lparr>dec_current1 := x27\<rparr>) = win_ok s"
  "win_ok (s\<lparr>dec_current2 := x28\<rparr>) = win_ok s"
  "win_ok (s\<lparr>acache := x29\<rparr>) = win_ok s"
  "win_ok (s\<lparr>code_table := x30\<rparr>) = win_ok s"
  "win_ok (s\<lparr>sec_type := x31\<rparr>) = win_ok s"
  "win_ok (s\<lparr>sec_stream_d := x32\<rparr>) = win_ok s"
  "win_ok (s\<lparr>sec_stream_i := x33\<rparr>) = win_ok s"
  "win_ok (s\<lparr>sec_stream_a := x34\<rparr>) = win_ok s"
  "win_ok (s\<lparr>current_window := x35\<rparr>) = win_ok s"
  "win_ok (s\<lparr>total_out := x36\<rparr>) = win_ok s"
  "win_ok (s\<lparr>alloc_cnt := x37\<rparr>) = win_ok s"
  "win_ok (s\<lparr>inst_sect := x38\<rparr>) = win_ok s"
  "win_ok (s\<lparr>addr_sect := x39\<rparr>) = win_ok s"
  "win_ok (s\<lparr>data_sect := x40\<rparr>) = win_ok s"
  "win_ok (s\<lparr>dec_lastlen := x41\<rparr>) = win_ok s"
  "win_ok (s\<lparr>dec_laststart := x42\<rparr>) = win_ok s"
  by (rule win_ok_cong; simp)+

lemma src_ok_upd [simp]:
  "src_ok (s\<lparr>msg := x43\<rparr>) = src_ok s"
  "src_ok (s\<lparr>total_in := x44\<rparr>) = src_ok s"
  "src_ok (s\<lparr>next_in := x45\<rparr>) = src_ok s"
  "src_ok (s\<lparr>dec_64part := x46\<rparr>) = src_ok s"
  "src_ok (s\<lparr>dec_state := x47\<rparr>) = src_ok s"
  "src_ok (s\<lparr>dec_hdr_ind := x48\<rparr>) = src_ok s"
  "src_ok (s\<lparr>dec_win_ind := x49\<rparr>) = src_ok s"
  "src_ok (s\<lparr>dec_del_ind := x50\<rparr>) = src_ok s"
  "src_ok (s\<lparr>dec_magic := x51\<rparr>) = src_ok s"
  "src_ok (s\<lparr>dec_secondid := x52\<rparr>) = src_ok s"
  "src_ok (s\<lparr>dec_codetblsz := x53\<rparr>) = src_ok s"
  "src_ok (s\<lparr>dec_appheadsz := x54\<rparr>) = src_ok s"
  "src_ok (s\<lparr>dec_appheader := x55\<rparr>) = src_ok s"
  "src_ok (s\<lparr>dec_cksum := x56\<rparr>) = src_ok s"
  "src_ok (s\<lparr>dec_adler32 := x57\<rparr>) = src_ok s"
  "src_ok (s\<lparr>dec_cpylen := x58\<rparr>) = src_ok s"
  "src_ok (s\<lparr>dec_cpyoff := x59\<rparr>) = src_ok s"
  "src_ok (s\<lparr>dec_enclen := x60\<rparr>) = src_ok s"
  "src_ok (s\<lparr>dec_tgtlen := x61\<rparr>) = src_ok s"
  "src_ok (s\<lparr>dec_winstart := x62\<rparr>) = src_ok s"
  "src_ok (s\<lparr>dec_window_count := x63\<rparr>) = src_ok s"
  "src_ok (s\<lparr>dec_winbytes := x64\<rparr>) = src_ok s"
  "src_ok (s\<lparr>dec_hdrsize := x65\<rparr>) = src_ok s"
  "src_ok (s\<lparr>dec_tgtaddrbase := x66\<rparr>) = src_ok s"
  "src_ok (s\<lparr>dec_position := x67\<rparr>) = src_ok s"
  "src_ok (s\<lparr>dec_maxpos := x68\<rparr>) = src_ok s"
  "src_ok (s\<lparr>dec_current1 := x69\<rparr>) = src_ok s"
  "src_ok (s\<lparr>dec_current2 := x70\<rparr>) = src_ok s"
  "src_ok (s\<lparr>acache := x71\<rparr>) = src_ok s"
  "src_ok (s\<lparr>code_table := x72\<rparr>) = src_ok s"
  "src_ok (s\<lparr>sec_type := x73\<rparr>) = src_ok s"
  "src_ok (s\<lparr>sec_stream_d := x74\<rparr>) = src_ok s"
  "src_ok (s\<lparr>sec_stream_i := x75\<rparr>) = src_ok s"
  "src_ok (s\<lparr>sec_stream_a := x76\<rparr>) = src_ok s"
  "src_ok (s\<lparr>current_window := x77\<rparr>) = src_ok s"
  "src_ok (s\<lparr>total_out := x78\<rparr>) = src_ok s"
  "src_ok (s\<lparr>alloc_cnt := x79\<rparr>) = src_ok s"
  "src_ok (s\<lparr>inst_sect := x80\<rparr>) = src_ok s"
  "src_ok (s\<lparr>addr_sect := x81\<rparr>) = src_ok s"
  "src_ok (s\<lparr>data_sect := x82\<rparr>) = src_ok s"
  "src_ok (s\<lparr>dec_lastlen := x83\<rparr>) = src_ok s"
  "src_ok (s\<lparr>dec_laststart := x84\<rparr>) = src_ok s"
  "src_ok (s\<lparr>avail_out := x85\<rparr>) = src_ok s"
  "src_ok (s\<lparr>dec_heap := x86\<rparr>) = src_ok s"
  "src_ok (s\<lparr>space_out := x87\<rparr>) = src_ok s"
  "src_ok (s\<lparr>next_out := x88\<rparr>) = src_ok s"
  "src_ok (s\<lparr>dec_buffer := x89\<rparr>) = src_ok s"
  by (simp_all add: src_ok_def)

text \<open>A secondary decompressor writes no more than it is asked to and returns a status of its own.\<close>

definition sec_ok :: "xd3_sec_type option \<Rightarrow> bool" where
  "sec_ok st \<longleftrightarrow> (case st of None \<Rightarrow> True
     | Some t \<Rightarrow> sec_init t \<in> {XD3_OK, XD3_INTERNAL, XD3_INVALID, XD3_INVALID_INPUT, ENOMEM} \<and>
         (\<forall>h bs n ret u bs'. sec_decode t h bs n = (ret, u, bs') \<longrightarrow>
            ret \<in> {XD3_OK, XD3_INTERNAL, XD3_INVALID, XD3_INVALID_INPUT, ENOMEM} \<and>
            length bs' \<le> unat n))"

text \<open>What holds in every state.\<close>

definition base :: "xd3_decoder \<Rightarrow> bool" where
  "base s \<longleftrightarrow> src_ok s \<and> flags s AND 14 = 0 \<and> enc_state s = ENC_INIT \<and> win_ok s \<and>
     dec_buffer s = next_out s \<and> sec_ok (sec_type s) \<and> \<not> insts_pending s"

text \<open>No section has been begun, no output waits.\<close>

definition idle :: "xd3_decoder \<Rightarrow> bool" where
  "idle s \<longleftrightarrow> base s \<and> avail_out s = 0 \<and> dec_winbytes s = 0 \<and>
     ds_pos (data_sect s) = 0 \<and> ds_pos (inst_sect s) = 0 \<and> ds_pos (addr_sect s) = 0"

definition hdr :: "xd3_decoder \<Rightarrow> bool" where
  "hdr s \<longleftrightarrow> idle s \<and> next_slot (acache s) = 0"

definition win_len :: "xd3_decoder \<Rightarrow> bool" where
  "win_len s \<longleftrightarrow> table_ok s \<and> (\<not> SRCORTGT (dec_win_ind s) \<longrightarrow> dec_cpylen s = 0) \<and>
     dec_position s = dec_cpylen s"

definition win_off :: "xd3_decoder \<Rightarrow> bool" where
  "win_off s \<longleftrightarrow> win_len s \<and> unat (dec_cpyoff s) + unat (dec_cpylen s) < 2 ^ 64"

definition win_tgt :: "xd3_decoder \<Rightarrow> bool" where
  "win_tgt s \<longleftrightarrow> win_off s \<and> dec_tgtlen s \<le> XD3_HARDMAXWINSIZE"

definition win_del :: "xd3_decoder \<Rightarrow> bool" where
  "win_del s \<longleftrightarrow> win_tgt s \<and> (dec_del_ind s \<noteq> 0 \<longrightarrow> sec_type s \<noteq> None)"

text \<open>A section being filled: what was received is in its buffer, which is large enough.\<close>

definition sect_ok :: "xd3_desect \<Rightarrow> bool" where
  "sect_ok d \<longleftrightarrow> ds_pos d \<le> ds_size d \<and>
     (ds_pos d \<noteq> 0 \<longrightarrow> (case ds_alloc1 d of None \<Rightarrow> False | Some a \<Rightarrow> ds_size d \<le> a))"

definition filling :: "xd3_section_type \<Rightarrow> xd3_decoder \<Rightarrow> bool" where
  "filling k s \<longleftrightarrow> base s \<and> avail_out s = 0 \<and> win_del s \<and> sect_ok (sect_of k s) \<and>
     (case k of
        DATA_SECTION \<Rightarrow> ds_pos (inst_sect s) = 0 \<and> ds_pos (addr_sect s) = 0 \<and>
          dec_winbytes s = ds_pos (data_sect s)
      | INST_SECTION \<Rightarrow> ds_pos (data_sect s) = 0 \<and> ds_pos (addr_sect s) = 0 \<and>
          dec_winbytes s = ds_size (data_sect s) + ds_pos (inst_sect s)
      | ADDR_SECTION \<Rightarrow> ds_pos (data_sect s) = 0 \<and> ds_pos (inst_sect s) = 0 \<and>
          dec_winbytes s = ds_size (data_sect s) + ds_size (inst_sect s) + ds_pos (addr_sect s))"

text \<open>While instructions are executed; the source may have been asked for a block.\<close>

definition emitting :: "xd3_decoder \<Rightarrow> bool" where
  "emitting s \<longleftrightarrow> src_ok s \<and> flags s AND 14 = 0 \<and> enc_state s = ENC_INIT \<and> win_ok s \<and>
     dec_buffer s = next_out s \<and> sec_ok (sec_type s) \<and>
     dec_tgtaddrbase s = (next_out s, dec_cpylen s) \<and> dec_win_ind s AND VCD_TARGET = 0 \<and>
     unat (dec_cpyoff s) + unat (dec_cpylen s) < 2 ^ 64 \<and>
     (dec_cpylen s \<noteq> 0 \<longrightarrow> dec_win_ind s AND VCD_SOURCE \<noteq> 0) \<and> table_ok s \<and>
     dec_position s = dec_cpylen s + avail_out s + pend (dec_current1 s) + pend (dec_current2 s) \<and>
     copy_ok (dec_cpylen s) (avail_out s) (dec_current1 s) \<and>
     copy_ok (dec_cpylen s) (avail_out s + pend (dec_current1 s)) (dec_current2 s)"

definition finished :: "xd3_decoder \<Rightarrow> bool" where
  "finished s \<longleftrightarrow> base s \<and> table_ok s \<and> dec_win_ind s AND VCD_TARGET = 0 \<and> dec_winbytes s = 0 \<and>
     ds_pos (data_sect s) = 0 \<and> ds_pos (inst_sect s) = 0 \<and> ds_pos (addr_sect s) = 0"

fun state_inv :: "xd3_decode_state \<Rightarrow> xd3_decoder \<Rightarrow> bool" where
  "state_inv DEC_APPLEN s = (idle s \<and> table_ok s)"
| "state_inv DEC_APPDAT s = (idle s \<and> table_ok s)"
| "state_inv DEC_WININD s = (idle s \<and> table_ok s)"
| "state_inv DEC_CPYLEN s = (idle s \<and> table_ok s \<and> dec_cpylen s = 0)"
| "state_inv DEC_CPYOFF s = (idle s \<and> win_len s)"
| "state_inv DEC_ENCLEN s = (idle s \<and> win_off s)"
| "state_inv DEC_TGTLEN s = (idle s \<and> win_off s)"
| "state_inv DEC_DELIND s = (idle s \<and> win_tgt s)"
| "state_inv DEC_DATALEN s = (idle s \<and> win_del s)"
| "state_inv DEC_INSTLEN s = (idle s \<and> win_del s)"
| "state_inv DEC_ADDRLEN s = (idle s \<and> win_del s)"
| "state_inv DEC_CKSUM s = (idle s \<and> win_del s)"
| "state_inv DEC_DATA s = filling DATA_SECTION s"
| "state_inv DEC_INST s = filling INST_SECTION s"
| "state_inv DEC_ADDR s = filling ADDR_SECTION s"
| "state_inv DEC_EMIT s = emitting s"
| "state_inv DEC_FINISH s = (finished s \<and> avail_out s = 0)"
| "state_inv DEC_ABORTED s = True"
| "state_inv _ s = hdr s"

definition dec_inv :: "xd3_decoder \<Rightarrow> bool" where
  "dec_inv s \<longleftrightarrow> state_inv (dec_state s) s"

text \<open>A window handed out: it has the announced length, its sections are used up and, when it carries a
  checksum and checking is not switched off, its bytes have that checksum.\<close>

definition window_done :: "xd3_decoder \<Rightarrow> bool" where
  "window_done s \<longleftrightarrow> avail_out s = dec_tgtlen s \<and> ds_buf (data_sect s) = [] \<and> ds_buf (addr_sect s) = [] \<and>
     (dec_win_ind s AND VCD_ADLER32 \<noteq> 0 \<and> flags s AND XD3_ADLER32_NOVER = 0 \<longrightarrow>
        (\<exists>bs. out_bytes s = Some bs \<and> adler32 1 bs = dec_adler32 s))"

text \<open>The promise of a call.\<close>

definition stop_ok :: "xd3_rvalue \<Rightarrow> xd3_decoder \<Rightarrow> bool" where
  "stop_ok ret t \<longleftrightarrow> ret \<notin> {XD3_OK, C_UNDEFINED, C_DIVERGES} \<and>
     (ret = XD3_OUTPUT \<longrightarrow> dec_state t = DEC_FINISH \<and> finished t \<and> window_done t) \<and>
     (ret \<in> {XD3_INPUT, XD3_GETSRCBLK, XD3_GOTHEADER, XD3_WINSTART, XD3_WINFINISH} \<longrightarrow> dec_inv t)"

lemma stop_ok_error [simp]:
  "stop_ok XD3_INVALID_INPUT s" "stop_ok XD3_INTERNAL s" "stop_ok XD3_UNIMPLEMENTED s" "stop_ok ENOMEM s"
  by (simp_all add: stop_ok_def)

lemma stop_ok_input [simp]: "stop_ok XD3_INPUT s = dec_inv s"
  by (simp add: stop_ok_def)

lemmas inv_defs = base_def idle_def hdr_def win_len_def win_off_def win_tgt_def win_del_def
  table_ok_def insts_pending_def

section \<open>Reading\<close>

lemma decode_byte_returns:
  assumes "\<And>v. Q (DECODE_INPUT 1 (store v s))" and "\<And>m. E XD3_INPUT (s\<lparr>msg := m\<rparr>)"
  shows "returns (xd3_decode_byte store s) Q E"
  using assms by (cases "next_in s") (simp_all add: xd3_decode_byte_def)

lemma decode_integer_result:
  "decode_integer oflow part inp = (ret, m, v, p, rest) \<Longrightarrow>
    ret = XD3_OK \<and> v \<noteq> None \<or> ret \<in> {XD3_INPUT, XD3_INVALID_INPUT} \<and> v = None"
  by (induction oflow part inp rule: decode_integer.induct) (auto simp: Let_def split: if_splits)

lemma decode_bytes_loop_result:
  "decode_bytes_loop sz buf inp = (ret, b, rest) \<Longrightarrow> ret \<in> {XD3_OK, XD3_INPUT}"
proof (induction sz buf inp rule: decode_bytes_loop.induct)
  case (1 sz buf inp)
  then show ?case by (subst (asm) (2) decode_bytes_loop.simps) (auto simp: Let_def split: if_splits)
qed

lemma decode_size_returns:
  assumes "\<And>v n p. Q (store v ((DECODE_INPUT n s)\<lparr>dec_64part := p\<rparr>))"
    and "\<And>n p m. E XD3_INPUT ((DECODE_INPUT n s)\<lparr>dec_64part := p, msg := m\<rparr>)"
    and "\<And>n p m. E XD3_INVALID_INPUT ((DECODE_INPUT n s)\<lparr>dec_64part := p, msg := m\<rparr>)"
  shows "returns (xd3_decode_size store s) Q E" "returns (xd3_decode_offset store s) Q E"
proof -
  obtain ret m v p rest where d: "decode_integer UINT64_OFLOW_MASK (dec_64part s) (next_in s) = (ret, m, v, p, rest)"
    by (metis prod_cases5)
  have "(ret = XD3_OK \<and> v \<noteq> None) \<or> (ret \<in> {XD3_INPUT, XD3_INVALID_INPUT} \<and> v = None)"
    using decode_integer_result [OF d] .
  then have "returns (xd3_decode_uint64_t store s) Q E"
    using d assms by (auto simp: xd3_decode_uint64_t_def Let_def)
  then show "returns (xd3_decode_size store s) Q E" "returns (xd3_decode_offset store s) Q E"
    by (simp_all add: xd3_decode_size_def xd3_decode_offset_def)
qed

lemma decode_bytes_returns:
  assumes "\<And>b n. Q (store b (DECODE_INPUT n s))"
    and "\<And>b n m. E XD3_INPUT ((store b (DECODE_INPUT n s))\<lparr>msg := m\<rparr>)"
  shows "returns (xd3_decode_bytes buf store sz s) Q E"
proof -
  obtain ret b rest where d: "decode_bytes_loop (unat sz) (buf s) (next_in s) = (ret, b, rest)"
    by (metis prod_cases3)
  have "ret \<in> {XD3_OK, XD3_INPUT}" using decode_bytes_loop_result [OF d] .
  then show ?thesis using d assms by (auto simp: xd3_decode_bytes_def Let_def)
qed

section \<open>Executing a window\<close>

lemma case_finish_ok: "finished s \<and> avail_out s = 0 \<Longrightarrow> returns (case_finish s) (\<lambda>_. False) stop_ok"
  by (simp add: case_finish_def finished_def stop_ok_def dec_inv_def inv_defs)

text \<open>Executing does not touch what the later states rely on.\<close>

definition run_frame :: "xd3_decoder \<Rightarrow> xd3_decoder \<Rightarrow> bool" where
  "run_frame s t \<longleftrightarrow> dec_state t = dec_state s \<and> flags t = flags s \<and> enc_state t = enc_state s \<and>
     dec_buffer t = dec_buffer s \<and> next_out t = next_out s \<and> sec_type t = sec_type s \<and>
     dec_win_ind t = dec_win_ind s \<and> dec_cpyoff t = dec_cpyoff s \<and> dec_cpylen t = dec_cpylen s \<and>
     dec_tgtlen t = dec_tgtlen s \<and> next_in t = next_in s \<and> dec_64part t = dec_64part s \<and>
     dec_winstart t = dec_winstart s \<and> code_table t = code_table s \<and> getblk t = getblk s"

lemma run_frame_trans [trans]: "run_frame s t \<Longrightarrow> run_frame t u \<Longrightarrow> run_frame s u"
  by (simp add: run_frame_def)

lemma run_frame_exec: "exec_frame s t \<Longrightarrow> run_frame s t"
  by (auto simp: run_frame_def exec_frame_def)

lemma run_frame_parse: "parse_frame s t \<Longrightarrow> run_frame s t"
  by (auto simp: run_frame_def parse_frame_def)

lemma run_frame_upd [simp]:
  "run_frame s (t\<lparr>dec_current1 := h\<rparr>) = run_frame s t" "run_frame s (t\<lparr>dec_current2 := h\<rparr>) = run_frame s t"
  "run_frame s s"
  by (simp_all add: run_frame_def)

lemma parse_current_run:
  "parse_current1 s = (ret, t) \<Longrightarrow> run_frame s t" "parse_current2 s = (ret, t) \<Longrightarrow> run_frame s t"
  by (auto simp: parse_current1_def parse_current2_def split: prod.splits
      dest!: parse_halfinst_frame run_frame_parse)

lemma output_current_run:
  "output_current1 s = (ret, t) \<Longrightarrow> run_frame s t" "output_current2 s = (ret, t) \<Longrightarrow> run_frame s t"
  by (auto simp: output_current1_def output_current2_def split: prod.splits
      dest!: output_halfinst_loop_frame run_frame_exec)

lemma try_run:
  assumes "xd3_try m f = (ret, t)" and "run_frame s (snd m)" and "\<And>u. f u = (ret, t) \<Longrightarrow> run_frame u t"
  shows "run_frame s t"
  using assms(1)
proof (cases rule: xd3_try_cases)
  case (ok u)
  then show ?thesis using assms(2,3) run_frame_trans by (metis snd_conv)
next
  case fail
  then show ?thesis using assms(2) by simp
qed

lemma decode_instruction_run: "xd3_decode_instruction s = (ret, t) \<Longrightarrow> run_frame s t"
proof (cases "ds_buf (inst_sect s)")
  case Nil
  then show "xd3_decode_instruction s = (ret, t) \<Longrightarrow> run_frame s t"
    by (auto simp: xd3_decode_instruction_def run_frame_def)
next
  case (Cons b rest)
  assume d: "xd3_decode_instruction s = (ret, t)"
  let ?i = "code_table s ! unat b"
  define s1 where "s1 = s\<lparr>inst_sect := (inst_sect s)\<lparr>ds_buf := rest\<rparr>,
      dec_current1 := (dec_current1 s)\<lparr>hi_type := type1 ?i, hi_size := ucast (size1 ?i)\<rparr>,
      dec_current2 := (dec_current2 s)\<lparr>hi_type := type2 ?i, hi_size := ucast (size2 ?i)\<rparr>\<rparr>"
  have s1: "run_frame s s1" by (simp add: run_frame_def s1_def)
  show ?thesis
  proof (cases "length (code_table s) \<le> unat b")
    case False
    have "xd3_try (if type1 ?i \<noteq> XD3_NOOP then parse_current1 s1 else (XD3_OK, s1))
        (\<lambda>s. if type2 ?i \<noteq> XD3_NOOP then parse_current2 s else (XD3_OK, s)) = (ret, t)"
      using d by (simp only: xd3_decode_instruction_def Cons list.case False if_False Let_def s1_def)
    then have "run_frame s1 t"
    proof (rule try_run)
      show "run_frame s1 (snd (if type1 ?i \<noteq> XD3_NOOP then parse_current1 s1 else (XD3_OK, s1)))"
        by (cases "parse_current1 s1") (auto dest: parse_current_run(1))
    next
      show "run_frame u t" if "(if type2 ?i \<noteq> XD3_NOOP then parse_current2 u else (XD3_OK, u)) = (ret, t)" for u
        using that parse_current_run(2) [of u] by (cases "type2 ?i = XD3_NOOP") simp_all
    qed
    then show ?thesis using s1 run_frame_trans by blast
  qed (use d Cons in \<open>auto simp: xd3_decode_instruction_def\<close>)
qed

lemma decode_emit_loop_run: "decode_emit_loop s = (ret, t) \<Longrightarrow> run_frame s t"
proof (induction s rule: decode_emit_loop.induct)
  case (1 s)
  show ?case
  proof (cases "ds_buf (inst_sect s) \<noteq> [] \<or> insts_pending s")
    case False
    then show ?thesis using 1(2) by (simp add: decode_emit_loop.simps)
  next
    case True
    obtain r1 s1 where d: "(if \<not> insts_pending s then xd3_decode_instruction s else (XD3_OK, s)) = (r1, s1)"
      by fastforce
    have f1: "run_frame s s1" using d decode_instruction_run by (auto split: if_splits)
    have "xd3_try (r1, s1) (\<lambda>s. xd3_try (output_current1 s)
        (\<lambda>s. xd3_try (output_current2 s) decode_emit_loop)) = (ret, t)"
      using True d 1(2) by (subst (asm) decode_emit_loop.simps) simp
    then show ?thesis
    proof (cases rule: xd3_try_cases)
      case (ok u1)
      then have u1: "r1 = XD3_OK" "u1 = s1" by simp_all
      obtain r2 s2 where o1: "output_current1 s1 = (r2, s2)" by fastforce
      have f2: "run_frame s s2" using output_current_run(1) [OF o1] f1 run_frame_trans by blast
      show ?thesis using ok(2) unfolding u1(2)
      proof (cases rule: xd3_try_cases)
        case ok2: (ok u2)
        obtain r3 s3 where o2: "output_current2 s2 = (r3, s3)" by fastforce
        have f3: "run_frame s s3" using output_current_run(2) [OF o2] f2 run_frame_trans by blast
        have u2: "u2 = s2" using ok2(1) o1 by simp
        show ?thesis using ok2(2) unfolding u2
        proof (cases rule: xd3_try_cases)
          case ok3: (ok u3)
          then have "run_frame u3 t" using 1(1) [OF True] d u1 ok2(1) u2 by blast
          then show ?thesis using f3 o2 ok3(1) run_frame_trans by (metis prod.inject)
        qed (use o2 f3 in simp)
      qed (use o1 f2 in simp)
    qed (use f1 in simp)
  qed
qed

text \<open>The invariant of the instruction loop and the invariant between calls.\<close>

lemma emit_inv_emitting:
  assumes "emit_inv u" and "run_frame s u" and "emitting s"
  shows "emitting u"
  using assms by (simp add: emit_inv_def exec_pre_def emitting_def run_frame_def)

lemma emitting_emit_inv:
  assumes "emitting s" and "dec_cpylen s \<noteq> 0 \<Longrightarrow> src_ready s"
  shows "emit_inv s"
  using assms by (simp add: emitting_def emit_inv_def exec_pre_def)

lemma decode_emit_loop_done:
  "decode_emit_loop s = (XD3_OK, t) \<Longrightarrow> \<not> insts_pending t \<and> ds_buf (inst_sect t) = []"
proof (induction s rule: decode_emit_loop.induct)
  case (1 s)
  show ?case
  proof (cases "ds_buf (inst_sect s) \<noteq> [] \<or> insts_pending s")
    case False
    then show ?thesis using 1(2) by (simp add: decode_emit_loop.simps)
  next
    case True
    then obtain s1 s2 s3 where "(if \<not> insts_pending s then xd3_decode_instruction s else (XD3_OK, s)) = (XD3_OK, s1)"
      "output_current1 s1 = (XD3_OK, s2)" "output_current2 s2 = (XD3_OK, s3)" "decode_emit_loop s3 = (XD3_OK, t)"
      using 1(2) by (subst (asm) decode_emit_loop.simps) (auto simp: xd3_try_OK_iff)
    then show ?thesis using 1(1) [OF True] by blast
  qed
qed

lemma emit_checks_result:
  assumes "win_ok s" and "emit_checks s = (ret, t)"
  shows "ret = XD3_INVALID_INPUT \<or> ret = XD3_OK \<and> t = s \<and> window_done s"
  using assms by (auto simp: emit_checks_def window_done_def win_ok_def split: if_splits option.splits)

lemma emit_and_count_ok:
  assumes "emitting s" and "emit_inv s" and "dec_state s = DEC_EMIT"
  shows "returns (emit_and_count s) (\<lambda>_. False) stop_ok"
proof -
  obtain r u where l: "decode_emit_loop s = (r, u)" by fastforce
  note ok = decode_emit_loop_ok [OF assms(2) l] and fr = decode_emit_loop_run [OF l]
  show ?thesis
  proof (cases "r = XD3_OK")
    case False
    have "stop_ok r u"
      using ok False emit_inv_emitting [OF _ fr assms(1)] fr assms(3)
      by (auto simp: stop_ok_def dec_inv_def run_frame_def)
    then show ?thesis
      using l ok False by (simp add: emit_and_count_def xd3_decode_emit_def xd3_try_fail)
  next
    case True
    then have inv: "emit_inv u" and em: "emitting u"
      using ok emit_inv_emitting [OF _ fr assms(1)] by simp_all
    have np: "\<not> insts_pending u" using l True decode_emit_loop_done by blast
    obtain r2 v where c: "emit_checks u = (r2, v)" by fastforce
    have res: "r2 = XD3_INVALID_INPUT \<or> r2 = XD3_OK \<and> v = u \<and> window_done u"
      using emit_checks_result [OF _ c] em by (simp add: emitting_def)
    show ?thesis
    proof (cases "r2 = XD3_OK")
      case False
      then show ?thesis
        using res l True c by (simp add: emit_and_count_def xd3_decode_emit_def xd3_try_fail)
    next
      case ok2: True
      then have "v = u" "window_done u" using res by simp_all
      moreover define w where "w = (snd (xd3_decode_finish_window u))\<lparr>total_out := total_out u + avail_out u\<rparr>"
      moreover have "out_bytes w = out_bytes u"
        by (rule out_bytes_cong) (simp_all add: w_def xd3_decode_finish_window_def)
      ultimately have "window_done w" by (simp add: window_done_def xd3_decode_finish_window_def)
      then show ?thesis
        using em np l True c ok2 \<open>v = u\<close>
        by (simp add: w_def emit_and_count_def xd3_decode_emit_def xd3_decode_finish_window_def stop_ok_def
            finished_def base_def emitting_def insts_pending_def table_ok_def)
    qed
  qed
qed

lemma case_emit_ok:
  assumes "emitting s" and "dec_state s = DEC_EMIT"
  shows "returns (case_emit s) (\<lambda>_. False) stop_ok"
proof (cases "dec_win_ind s AND VCD_SOURCE \<noteq> 0")
  case False
  then have "emit_inv s"
    using assms(1) by (intro emitting_emit_inv [OF assms(1)]) (simp add: emitting_def)
  then show ?thesis using emit_and_count_ok [OF assms(1) _ assms(2)] False by (simp add: case_emit_def)
next
  case True
  show ?thesis
  proof (cases "src s")
    case None
    then show ?thesis using True by (simp add: case_emit_def)
  next
    case (Some x)
    obtain b r where d: "xd3_blksize_div (dec_cpyoff s) x = (b, r)" by fastforce
    define t where "t = s\<lparr>src := Some (x\<lparr>cpyoff_blocks := b, cpyoff_blkoff := r\<rparr>)\<rparr>"
    have "win_ok t = win_ok s" by (rule win_ok_cong) (simp_all add: t_def)
    moreover have "src_ok t"
      using assms(1) Some by (auto simp: t_def emitting_def src_ok_def source_ok_def block_ok_def split: option.splits)
    ultimately have em: "emitting t"
      using assms(1) by (simp add: emitting_def t_def table_ok_def)
    have "src_ready t" using d by (simp add: src_ready_def t_def xd3_blksize_div_def)
    then have "emit_inv t" using em by (intro emitting_emit_inv) simp_all
    moreover have "dec_state t = DEC_EMIT" using assms(2) by (simp add: t_def)
    ultimately show ?thesis using emit_and_count_ok [OF em] True Some d by (simp add: case_emit_def t_def)
  qed
qed

section \<open>Buffers and secondary sections\<close>

text \<open>All three sections of a window have been received.\<close>

definition filled :: "xd3_decoder \<Rightarrow> bool" where
  "filled s \<longleftrightarrow> base s \<and> avail_out s = 0 \<and> win_del s \<and> dec_state s = DEC_EMIT"

lemma round_alloc_le: "(n :: usize_t) \<le> XD3_HARDMAXWINSIZE \<Longrightarrow> xd3_round_blksize n XD3_ALLOCSIZE \<le> XD3_HARDMAXWINSIZE"
proof -
  assume n: "n \<le> XD3_HARDMAXWINSIZE"
  then have n': "unat n \<le> 0x4000000" by (simp add: word_le_nat_alt)
  define up where "up = (unat n + 2 ^ 14 - 1) div 2 ^ 14 * 2 ^ (14 :: nat)"
  have "unat (xd3_round_blksize n (2 ^ 14)) = (if up < 2 ^ 64 then up else unat n)"
    using round_blksize_pow2 [of 14 n] by (simp add: up_def Let_def)
  moreover have "up \<le> 0x4000000" using n' unfolding up_def by (simp add: div_le_mono [of _ "67125247" 16384])
  ultimately show ?thesis using n' by (simp add: word_le_nat_alt)
qed

lemma round_alloc_ge: "(n :: usize_t) \<le> xd3_round_blksize n XD3_ALLOCSIZE"
proof -
  define x where "x = unat n + 2 ^ 14 - 1"
  have "x mod 2 ^ 14 < 2 ^ 14" "x div 2 ^ 14 * 2 ^ 14 + x mod 2 ^ 14 = x"
    by (simp, rule div_mult_mod_eq)
  then have "unat n \<le> (unat n + 2 ^ 14 - 1) div 2 ^ 14 * 2 ^ 14" unfolding x_def by linarith
  then show ?thesis using round_blksize_pow2 [of 14 n] by (simp add: word_le_nat_alt Let_def)
qed

lemma source_bit:
  assumes "SRCORTGT w" and "w AND VCD_TARGET = 0"
  shows "w AND VCD_SOURCE \<noteq> 0"
proof
  assume z: "w AND VCD_SOURCE = 0"
  have "w AND 3 = (w AND VCD_SOURCE) OR (w AND VCD_TARGET)"
    by (simp flip: bit.conj_disj_distrib)
  then have "w AND 3 = 0" using z assms(2) by simp
  then show False using assms(1) by (simp add: SRCORTGT_def)
qed

lemma setup_buffers_ok:
  assumes "filled s"
  shows "returns (xd3_decode_setup_buffers s) (\<lambda>t. emitting t \<and> dec_state t = DEC_EMIT) stop_ok"
proof (cases "dec_win_ind s AND VCD_TARGET = 0")
  case False
  then show ?thesis by (simp add: xd3_decode_setup_buffers_def)
next
  case True
  have src: "dec_cpylen s \<noteq> 0 \<Longrightarrow> dec_win_ind s AND VCD_SOURCE \<noteq> 0"
    using assms source_bit [OF _ True] by (auto simp: filled_def inv_defs)
  have fin: "emitting (t\<lparr>dec_tgtaddrbase := (next_out t, dec_cpylen t)\<rparr>)"
    if "t = s\<lparr>space_out := k, alloc_cnt := a, dec_heap := h, dec_buffer := b, next_out := b\<rparr>" "win_ok t"
    for t h k b a
    using assms that(2) True src unfolding that(1)
    by (simp add: filled_def inv_defs emitting_def pend_def copy_ok_def)
  show ?thesis
  proof (cases "space_out s < dec_tgtlen s")
    case False
    have "s = s\<lparr>space_out := space_out s, alloc_cnt := alloc_cnt s, dec_heap := dec_heap s,
        dec_buffer := next_out s, next_out := next_out s\<rparr>"
      using assms by (simp add: filled_def inv_defs)
    moreover have "win_ok s" using assms by (simp add: filled_def inv_defs)
    ultimately have "emitting (s\<lparr>dec_tgtaddrbase := (next_out s, dec_cpylen s)\<rparr>)" by (rule fin)
    then show ?thesis
      using True False assms by (simp add: xd3_decode_setup_buffers_def filled_def)
  next
    case grow: True
    define k where "k = xd3_round_blksize (dec_tgtlen s) XD3_ALLOCSIZE"
    have k: "k \<le> XD3_HARDMAXWINSIZE" using assms round_alloc_le by (simp add: filled_def inv_defs k_def)
    define h where "h = (case dec_buffer s of None \<Rightarrow> dec_heap s | Some i \<Rightarrow> (dec_heap s)(i := None))"
    define i where "i = alloc_cnt s"
    define t where "t = s\<lparr>space_out := k, alloc_cnt := i + 1,
        dec_heap := h(i := Some \<lparr>wb_size = k, wb_bytes = []\<rparr>), dec_buffer := Some i, next_out := Some i\<rparr>"
    have w: "win_ok t" using assms k by (simp add: t_def win_ok_def out_bytes_def filled_def)
    have "emitting (t\<lparr>dec_tgtaddrbase := (next_out t, dec_cpylen t)\<rparr>)" by (rule fin [OF t_def w])
    then show ?thesis
      using True grow assms
      by (cases "alloc s i"; cases "dec_buffer s")
        (simp_all add: xd3_decode_setup_buffers_def Let_def xd3_alloc_def free_winbuf_def filled_def
          xd3_try_fail i_def t_def h_def k_def)
  qed
qed

text \<open>Expanding a section changes its buffer, the compressor's state and the allocation count.\<close>

lemma filled_upd:
  assumes "filled s"
  shows "filled (set_sec_stream k h s)" "filled (s\<lparr>alloc_cnt := a\<rparr>)" "filled (set_sect k d s)"
    "filled (s\<lparr>msg := m\<rparr>)"
  using assms by (cases k; simp add: filled_def inv_defs set_sec_stream_def)+

lemma set_sect_type [simp]:
  "sec_type (set_sect k d s) = sec_type s" "sec_type (set_sec_stream k h s) = sec_type s"
  "sec_stream_of k (set_sect k' d s) = sec_stream_of k s"
  "sec_stream_of k (set_sec_stream k h s) = h" "sec_stream_of k (s\<lparr>alloc_cnt := a\<rparr>) = sec_stream_of k s"
  "sec_stream_of k (s\<lparr>msg := m\<rparr>) = sec_stream_of k s"
  by (cases k; cases k'; simp add: set_sec_stream_def sec_stream_of_def)+

lemma decode_allocate_result:
  assumes "xd3_decode_allocate s sz b = (ret, t, a)"
  shows "ret = ENOMEM \<or> ret = XD3_OK \<and> (\<exists>n. t = s\<lparr>alloc_cnt := n\<rparr>) \<and> (\<exists>c. a = Some c \<and> sz \<le> c)"
proof -
  have "ret = ENOMEM \<or> ret = XD3_OK \<and> (t = s \<or> (\<exists>n. t = s\<lparr>alloc_cnt := n\<rparr>)) \<and> (\<exists>c. a = Some c \<and> sz \<le> c)"
    using assms round_alloc_ge [of sz]
    by (auto simp: xd3_decode_allocate_def xd3_alloc_def Let_def split: option.splits if_splits)
  moreover have "s = s\<lparr>alloc_cnt := alloc_cnt s\<rparr>" by simp
  ultimately show ?thesis by metis
qed

lemma get_secondary_returns:
  assumes f: "filled s" and st: "sec_type s = Some st"
  shows "returns (xd3_get_secondary k s)
    (\<lambda>t. filled t \<and> sec_type t = Some st \<and> sec_stream_of k t \<noteq> None) stop_ok"
proof (cases "sec_stream_of k s")
  case None
  have "sec_ok (Some st)" using f st by (simp add: filled_def base_def)
  then have i: "sec_init st \<in> {XD3_OK, XD3_INTERNAL, XD3_INVALID, XD3_INVALID_INPUT, ENOMEM}"
    by (simp add: sec_ok_def)
  define t where "t = set_sec_stream k (Some []) (s\<lparr>alloc_cnt := alloc_cnt s + 1\<rparr>)"
  have "filled t" using f by (simp add: t_def filled_upd)
  moreover have "sec_type t = Some st" "sec_stream_of k t = Some []" using st by (simp_all add: t_def)
  ultimately have "returns (sec_init st, t)
      (\<lambda>t. filled t \<and> sec_type t = Some st \<and> sec_stream_of k t \<noteq> None) stop_ok"
    using i by (auto simp: returns_def stop_ok_def)
  then show ?thesis
    using None st by (simp add: xd3_get_secondary_def xd3_alloc_def Let_def t_def)
qed (use f st in \<open>simp add: xd3_get_secondary_def\<close>)

lemma secondary_run_returns:
  assumes f: "filled s" and st: "sec_type s = Some st" and h: "sec_stream_of k s = Some hist"
  shows "returns (secondary_run k s) (\<lambda>t. filled t \<and> sec_type t = Some st) stop_ok"
proof (cases "xd3_read_size (ds_buf (sect_of k s))")
  case (Inl m)
  then show ?thesis by (simp add: secondary_run_def)
next
  case (Inr v)
  let ?d = "sect_of k s"
  obtain n buf where n: "v = (n, buf)" by fastforce
  obtain r u a where al: "xd3_decode_allocate s n (ds_alloc2 ?d) = (r, u, a)" by (metis prod_cases3)
  from decode_allocate_result [OF al] consider "r = ENOMEM" | (ok) i where "r = XD3_OK" "u = s\<lparr>alloc_cnt := i\<rparr>"
    by blast
  then show ?thesis
  proof cases
    case 1
    then show ?thesis using Inr n al by (simp add: secondary_run_def)
  next
    case ok
    obtain r2 used out where dec: "sec_decode st hist buf n = (r2, used, out)" by (metis prod_cases3)
    have "sec_ok (Some st)" using f st by (simp add: filled_def base_def)
    then have d: "r2 \<in> {XD3_OK, XD3_INTERNAL, XD3_INVALID, XD3_INVALID_INPUT, ENOMEM}" "length out \<le> unat n"
      using dec by (auto simp: sec_ok_def)
    define v where "v = set_sect k (?d\<lparr>ds_buf := buf, ds_alloc2 := a\<rparr>) u"
    define w where "w = set_sec_stream k (Some (hist @ [buf])) v"
    have "filled v" unfolding v_def ok(2) using f by (intro filled_upd)
    then have w: "filled w" unfolding w_def by (rule filled_upd)
    have ty: "sec_type w = Some st" "sec_type v = Some st" "sec_stream_of k v = Some hist"
      using st h by (simp_all add: w_def v_def ok(2))
    have "secondary_run k s =
      (if n = 0 then (XD3_INVALID_INPUT, v\<lparr>msg := Some ''secondary decoder invalid output size''\<rparr>)
       else if r2 \<noteq> XD3_OK then (r2, w)
       else if used \<noteq> length buf
       then (XD3_INTERNAL, w\<lparr>msg := Some ''secondary decoder finished with unused input''\<rparr>)
       else if length out > unat n then (C_UNDEFINED, w)
       else if length out \<noteq> unat n then (XD3_INTERNAL, w\<lparr>msg := Some ''secondary decoder short output''\<rparr>)
       else (XD3_OK, set_sect k ((sect_of k w)\<lparr>ds_buf := out, ds_size := n\<rparr>) w))"
      using Inr n al ok(1) dec ty by (simp add: secondary_run_def Let_def v_def [symmetric] w_def [symmetric])
    moreover have "filled (set_sect k ((sect_of k w)\<lparr>ds_buf := out, ds_size := n\<rparr>) w)"
      using w by (rule filled_upd)
    ultimately show ?thesis using d ty by (auto simp: returns_def stop_ok_def)
  qed
qed

lemma decode_secondary_returns:
  assumes "filled s" and "sec_type s = Some st"
  shows "returns (xd3_decode_secondary k s) (\<lambda>t. filled t \<and> sec_type t = Some st) stop_ok"
  unfolding xd3_decode_secondary_def
  by (rule returns_try [OF get_secondary_returns [OF assms]]) (auto intro: secondary_run_returns)

lemma secondary_sections_returns:
  assumes "filled s"
  shows "returns (xd3_decode_secondary_sections s) filled stop_ok"
proof (cases "sec_type s")
  case None
  then have "dec_del_ind s = 0" using assms by (simp add: filled_def win_del_def)
  then show ?thesis using assms by (simp add: xd3_decode_secondary_sections_def)
next
  case (Some st)
  have one: "returns (if c then xd3_decode_secondary k t else (XD3_OK, t))
      (\<lambda>u. filled u \<and> sec_type u = Some st) stop_ok" if "filled t \<and> sec_type t = Some st" for t k c
    using decode_secondary_returns [of t st k] that by simp
  show ?thesis
    unfolding xd3_decode_secondary_sections_def
    by (rule returns_try [OF one], use assms Some in simp, rule returns_try [OF one], assumption,
        rule returns_mono [OF one], assumption, simp)
qed

section \<open>Receiving the sections\<close>

text \<open>The rest of a section is taken from the input, or all of a shorter input.\<close>

definition received :: "xd3_section_type \<Rightarrow> nat \<Rightarrow> xd3_desect \<Rightarrow> xd3_decoder \<Rightarrow> xd3_decoder \<Rightarrow> bool" where
  "received k n d s t \<longleftrightarrow> sect_of k t = d \<and> (\<forall>j. j \<noteq> k \<longrightarrow> sect_of j t = sect_of j s) \<and>
     next_in t = drop n (next_in s) \<and> dec_winbytes t = dec_winbytes s + of_nat n \<and>
     src t = src s \<and> getblk t = getblk s \<and> flags t = flags s \<and> enc_state t = enc_state s \<and>
     next_out t = next_out s \<and> dec_heap t = dec_heap s \<and> space_out t = space_out s \<and>
     avail_out t = avail_out s \<and> dec_buffer t = dec_buffer s \<and> sec_type t = sec_type s \<and>
     dec_current1 t = dec_current1 s \<and> dec_current2 t = dec_current2 s \<and> acache t = acache s \<and>
     code_table t = code_table s \<and> dec_win_ind t = dec_win_ind s \<and> dec_del_ind t = dec_del_ind s \<and>
     dec_cpylen t = dec_cpylen s \<and> dec_cpyoff t = dec_cpyoff s \<and> dec_position t = dec_position s \<and>
     dec_tgtlen t = dec_tgtlen s"

lemma sect_of_set [simp]: "sect_of k (set_sect k d s) = d" "j \<noteq> k \<Longrightarrow> sect_of j (set_sect k d s) = sect_of j s"
  by (cases k; cases j; simp)+

lemma set_sect_fields [simp]:
  "next_in (set_sect k d s) = next_in s" "dec_winbytes (set_sect k d s) = dec_winbytes s"
  "src (set_sect k d s) = src s" "getblk (set_sect k d s) = getblk s" "flags (set_sect k d s) = flags s"
  "enc_state (set_sect k d s) = enc_state s" "next_out (set_sect k d s) = next_out s"
  "dec_heap (set_sect k d s) = dec_heap s" "space_out (set_sect k d s) = space_out s"
  "avail_out (set_sect k d s) = avail_out s" "dec_buffer (set_sect k d s) = dec_buffer s"
  "dec_current1 (set_sect k d s) = dec_current1 s" "dec_current2 (set_sect k d s) = dec_current2 s"
  "acache (set_sect k d s) = acache s" "code_table (set_sect k d s) = code_table s"
  "dec_win_ind (set_sect k d s) = dec_win_ind s" "dec_del_ind (set_sect k d s) = dec_del_ind s"
  "dec_cpylen (set_sect k d s) = dec_cpylen s" "dec_cpyoff (set_sect k d s) = dec_cpyoff s"
  "dec_position (set_sect k d s) = dec_position s" "dec_tgtlen (set_sect k d s) = dec_tgtlen s"
  "dec_state (set_sect k d s) = dec_state s"
  by (cases k; simp)+

lemma sect_of_upd [simp]:
  "sect_of k (s\<lparr>next_in := a\<rparr>) = sect_of k s" "sect_of k (s\<lparr>total_in := b\<rparr>) = sect_of k s"
  "sect_of k (s\<lparr>dec_winbytes := c\<rparr>) = sect_of k s" "sect_of k (s\<lparr>dec_state := d\<rparr>) = sect_of k s"
  "sect_of k (s\<lparr>alloc_cnt := e\<rparr>) = sect_of k s" "sect_of k (s\<lparr>msg := f\<rparr>) = sect_of k s"
  by (cases k; simp)+

lemma received_same [simp]:
  "received k n d s (t\<lparr>msg := m\<rparr>) = received k n d s t" "received k n d s (t\<lparr>dec_state := st\<rparr>) = received k n d s t"
  by (simp_all add: received_def)

lemma received_base:
  assumes "received k n d s t"
  shows "base t = base s" "win_del t = win_del s" "avail_out t = avail_out s"
proof -
  have "win_ok t = win_ok s" using assms by (intro win_ok_cong) (simp_all add: received_def)
  moreover have "src_ok t = src_ok s" using assms by (simp add: received_def src_ok_def)
  ultimately show "base t = base s" using assms by (simp add: received_def base_def insts_pending_def)
  show "win_del t = win_del s" "avail_out t = avail_out s"
    using assms by (simp_all add: received_def win_del_def win_tgt_def win_off_def win_len_def table_ok_def)
qed

lemma section_take_received:
  assumes "d = sect_of k s"
  shows "\<exists>b. received k n (d\<lparr>ds_buf := b, ds_pos := ds_pos d + of_nat n\<rparr>) s (section_take k n s)"
  using assms by (auto simp: section_take_def Let_def DECODE_INPUT_def received_def)

lemma received_alloc:
  assumes "received k n e (set_sect k d (s\<lparr>alloc_cnt := a\<rparr>)) t"
  shows "received k n e s t"
  using assms by (simp add: received_def)

lemma section_take_state [simp]: "dec_state (section_take k n s) = dec_state s"
  by (cases k; simp add: section_take_def Let_def DECODE_INPUT_def)

lemma received_refl [simp]: "d = sect_of k s \<Longrightarrow> received k 0 d s s"
  by (simp add: received_def)

lemma take_pos:
  fixes pos sz :: usize_t
  assumes "pos \<le> sz" and "n \<le> unat (sz - pos)"
  shows "unat (pos + of_nat n) = unat pos + n" "unat (sz - pos) = unat sz - unat pos"
    "unat pos \<le> unat sz"
proof -
  show s: "unat (sz - pos) = unat sz - unat pos" using assms(1) by (simp add: unat_sub)
  show le: "unat pos \<le> unat sz" using assms(1) by (simp add: word_le_nat_alt)
  then show "unat (pos + of_nat n) = unat pos + n"
    using s assms(2) unat_bound_64 [of sz] by (simp add: unat_word_ariths unat_of_nat)
qed

text \<open>After a section: it is filled and what follows it in the input is left; or all input is used.\<close>

lemma section_done_returns:
  assumes r: "received k n d s t" and le: "ds_pos d \<le> ds_size d" and st: "dec_state t = dec_state s"
    and full: "\<And>u e. ds_pos d = ds_size d \<Longrightarrow> received k n e s u \<Longrightarrow> ds_pos e = 0 \<Longrightarrow>
        ds_size e = ds_size d \<Longrightarrow> dec_state u = ns \<Longrightarrow> Q u"
    and part: "\<And>u. ds_pos d < ds_size d \<Longrightarrow> received k n d s u \<Longrightarrow> dec_state u = dec_state s \<Longrightarrow> E XD3_INPUT u"
  shows "returns (section_done k ns t) Q E"
proof (cases "ds_pos d < ds_size d")
  case True
  have "sect_of k t = d" using r by (simp add: received_def)
  moreover have "received k n d s (t\<lparr>msg := m\<rparr>)" for m using r by simp
  ultimately show ?thesis using True part [OF True] st by (simp add: section_done_def Let_def)
next
  case False
  then have eq: "ds_pos d = ds_size d" using le by simp
  have d: "sect_of k t = d" using r by (simp add: received_def)
  define e where "e = d\<lparr>ds_buf := (if ds_size d = 0 then [] else ds_buf d), ds_pos := 0\<rparr>"
  have "received k n e s (set_sect k e (t\<lparr>dec_state := ns\<rparr>))" using r by (simp add: received_def)
  then have "Q (set_sect k e (t\<lparr>dec_state := ns\<rparr>))" using full [OF eq] by (simp add: e_def)
  then show ?thesis using d False by (simp add: section_done_def Let_def e_def)
qed

lemma decode_section_returns:
  assumes d_def: "d = sect_of k s" and so: "sect_ok d"
    and en: "copy \<or> unat (ds_size d - ds_pos d) \<le> length (next_in s)"
    and full: "\<And>t e. received k (unat (ds_size d - ds_pos d)) e s t \<Longrightarrow> ds_pos e = 0 \<Longrightarrow>
      ds_size e = ds_size d \<Longrightarrow> unat (ds_size d - ds_pos d) \<le> length (next_in s) \<Longrightarrow> dec_state t = ns \<Longrightarrow> Q t"
    and part: "\<And>t e n. copy \<Longrightarrow> received k n e s t \<Longrightarrow> sect_ok e \<Longrightarrow> ds_size e = ds_size d \<Longrightarrow>
      ds_pos e = ds_pos d + of_nat n \<Longrightarrow> dec_state t = dec_state s \<Longrightarrow> E XD3_INPUT t"
    and mem: "\<And>t. E ENOMEM t"
  shows "returns (xd3_decode_section k ns copy s) Q E"
proof (cases "ds_pos d < ds_size d")
  case False
  have le: "ds_pos d \<le> ds_size d" using so by (simp add: sect_ok_def)
  then have eq: "ds_pos d = ds_size d" using False by simp
  have "received k 0 d s s" using d_def by simp
  then have "returns (section_done k ns s) Q E"
    by (rule section_done_returns) (use le False full eq in \<open>simp_all\<close>)
  then show ?thesis using False d_def by (simp add: xd3_decode_section_def Let_def)
next
  case True
  let ?need = "unat (ds_size d - ds_pos d)"
  have le: "ds_pos d \<le> ds_size d" using True by simp
  have pos: "0 < ?need" using take_pos [OF le, of 0] True by (simp add: word_less_nat_alt)
  show ?thesis
  proof (cases "next_in s = []")
    case nil: True
    then have copy using en pos by simp
    then have "E XD3_INPUT s" using part [of 0 d s] so d_def by simp
    then show ?thesis using nil True d_def by (simp add: xd3_decode_section_def Let_def)
  next
    case inp: False
    show ?thesis
    proof (cases "\<not> copy \<and> ds_pos d = 0")
      case zero: True
      then have n: "unat (ds_size d) \<le> length (next_in s)" using en by simp
      obtain b where r: "received k (unat (ds_size d)) (d\<lparr>ds_buf := b, ds_pos := ds_pos d + of_nat (unat (ds_size d))\<rparr>) s
          (section_take k (unat (ds_size d)) s)"
        using section_take_received [OF d_def] by blast
      have "returns (section_done k ns (section_take k (unat (ds_size d)) s)) Q E"
        by (rule section_done_returns [OF r]) (use zero n full in \<open>simp_all\<close>)
      then show ?thesis using True inp zero n d_def by (simp add: xd3_decode_section_def Let_def)
    next
      case copying: False
      define n where "n = min ?need (length (next_in s))"
      have nle: "n \<le> ?need" "n \<le> length (next_in s)" by (simp_all add: n_def)
      note tp = take_pos [OF le nle(1)]
      obtain r1 s1 where al: "(if ds_pos d = 0 then case xd3_decode_allocate s (ds_size d) (ds_alloc1 d) of
          (ret, s, a) \<Rightarrow> (ret, set_sect k (d\<lparr>ds_alloc1 := a\<rparr>) s) else (XD3_OK, s)) = (r1, s1)" by fastforce
      have res: "r1 = ENOMEM \<or> r1 = XD3_OK \<and> (\<exists>a. ds_size d \<le> a \<and> received k 0 (d\<lparr>ds_alloc1 := Some a\<rparr>) s s1 \<and>
          dec_state s1 = dec_state s)"
      proof (cases "ds_pos d = 0")
        case True
        obtain r u a where a: "xd3_decode_allocate s (ds_size d) (ds_alloc1 d) = (r, u, a)" by (metis prod_cases3)
        from decode_allocate_result [OF a] show ?thesis
          using al a True by (auto simp: received_def)
      next
        case False
        then obtain a where "ds_alloc1 d = Some a" "ds_size d \<le> a"
          using so by (auto simp: sect_ok_def split: option.splits)
        moreover from this have "d\<lparr>ds_alloc1 := Some a\<rparr> = d" by simp
        ultimately show ?thesis using al False d_def by auto
      qed
      have go: "xd3_decode_section k ns copy s = xd3_try (r1, s1) (\<lambda>s. case ds_alloc1 (sect_of k s) of
          None \<Rightarrow> (C_UNDEFINED, s)
        | Some a \<Rightarrow> if unat (ds_pos d) + n > unat a then (C_UNDEFINED, s)
                    else section_done k ns (section_take k n s))"
        unfolding xd3_decode_section_def Let_def d_def [symmetric] if_P [OF True] if_not_P [OF inp]
          if_not_P [OF copying] al n_def [symmetric] ..
      show ?thesis
      proof (cases "r1 = XD3_OK")
        case False
        then show ?thesis using res mem go by (simp add: xd3_try_fail)
      next
        case ok: True
        then obtain a where a: "ds_size d \<le> a" "received k 0 (d\<lparr>ds_alloc1 := Some a\<rparr>) s s1"
          "dec_state s1 = dec_state s" using res by auto
        have s1: "sect_of k s1 = d\<lparr>ds_alloc1 := Some a\<rparr>" using a(2) by (simp add: received_def)
        obtain b where "received k n ((d\<lparr>ds_alloc1 := Some a\<rparr>)\<lparr>ds_buf := b,
            ds_pos := ds_pos (d\<lparr>ds_alloc1 := Some a\<rparr>) + of_nat n\<rparr>) s1 (section_take k n s1)"
          using section_take_received [OF s1 [symmetric]] by blast
        then have r: "received k n (d\<lparr>ds_alloc1 := Some a, ds_buf := b, ds_pos := ds_pos d + of_nat n\<rparr>) s
            (section_take k n s1)"
          using a(2) by (simp add: received_def)
        have fits: "\<not> unat (ds_pos d) + n > unat a"
          using tp nle a(1) by (simp add: word_le_nat_alt)
        have "returns (section_done k ns (section_take k n s1)) Q E"
        proof (rule section_done_returns [OF r])
          show "ds_pos (d\<lparr>ds_alloc1 := Some a, ds_buf := b, ds_pos := ds_pos d + of_nat n\<rparr>)
              \<le> ds_size (d\<lparr>ds_alloc1 := Some a, ds_buf := b, ds_pos := ds_pos d + of_nat n\<rparr>)"
            using tp nle by (simp add: word_le_nat_alt)
        next
          fix u e assume "ds_pos (d\<lparr>ds_alloc1 := Some a, ds_buf := b, ds_pos := ds_pos d + of_nat n\<rparr>) =
              ds_size (d\<lparr>ds_alloc1 := Some a, ds_buf := b, ds_pos := ds_pos d + of_nat n\<rparr>)"
            and e: "received k n e s u" "ds_pos e = 0"
              "ds_size e = ds_size (d\<lparr>ds_alloc1 := Some a, ds_buf := b, ds_pos := ds_pos d + of_nat n\<rparr>)" "dec_state u = ns"
          then have "unat (ds_pos d + of_nat n) = unat (ds_size d)" by simp
          then have "n = ?need" using tp by linarith
          then show "Q u" using full [of e u] e nle by simp
        next
          fix u assume lt: "ds_pos (d\<lparr>ds_alloc1 := Some a, ds_buf := b, ds_pos := ds_pos d + of_nat n\<rparr>)
              < ds_size (d\<lparr>ds_alloc1 := Some a, ds_buf := b, ds_pos := ds_pos d + of_nat n\<rparr>)"
            and u: "received k n (d\<lparr>ds_alloc1 := Some a, ds_buf := b, ds_pos := ds_pos d + of_nat n\<rparr>) s u"
              "dec_state u = dec_state s"
          have "n < ?need" using lt tp by (simp add: word_less_nat_alt)
          then have copy using en by (auto simp: n_def)
          then show "E XD3_INPUT u"
            by (rule part [OF _ u(1)]) (use a(1) lt u(2) in \<open>simp_all add: sect_ok_def\<close>)
        qed (simp add: a(3))
        then show ?thesis using ok s1 fits go by simp
      qed
    qed
  qed
qed

text \<open>The three sections one after the other: either the whole window is copied piece by piece, or
  all that is left of it is in the input.\<close>

definition whole :: "bool \<Rightarrow> xd3_decoder \<Rightarrow> bool" where
  "whole copy s \<longleftrightarrow>
     (let need = unat (ds_size (data_sect s)) + unat (ds_size (inst_sect s)) + unat (ds_size (addr_sect s)) in
      need < 2 ^ 64 \<and> (copy \<or> need \<le> unat (dec_winbytes s) + length (next_in s)))"

lemma received_size:
  assumes "received k n e s t" and "ds_size e = ds_size (sect_of k s)"
  shows "ds_size (sect_of j t) = ds_size (sect_of j s)"
  using assms by (cases "j = k") (auto simp: received_def)

lemma received_sizes:
  assumes "received k n e s t" and "ds_size e = ds_size (sect_of k s)"
  shows "ds_size (data_sect t) = ds_size (data_sect s)" "ds_size (inst_sect t) = ds_size (inst_sect s)"
    "ds_size (addr_sect t) = ds_size (addr_sect s)"
  using received_size [OF assms, of DATA_SECTION] received_size [OF assms, of INST_SECTION]
    received_size [OF assms, of ADDR_SECTION] by simp_all

lemma received_pos:
  assumes "received k n e s t"
  shows "k \<noteq> DATA_SECTION \<Longrightarrow> data_sect t = data_sect s" "k \<noteq> INST_SECTION \<Longrightarrow> inst_sect t = inst_sect s"
    "k \<noteq> ADDR_SECTION \<Longrightarrow> addr_sect t = addr_sect s"
    "k = DATA_SECTION \<Longrightarrow> data_sect t = e" "k = INST_SECTION \<Longrightarrow> inst_sect t = e" "k = ADDR_SECTION \<Longrightarrow> addr_sect t = e"
  using assms by (auto simp: received_def dest: spec [of _ DATA_SECTION] spec [of _ INST_SECTION] spec [of _ ADDR_SECTION])

text \<open>Input and window bytes after a section.\<close>

lemma received_whole:
  assumes r: "received k n e s t" and sz: "ds_size e = ds_size (sect_of k s)" and w: "whole copy s"
    and n: "n \<le> length (next_in s)" and no: "unat (dec_winbytes s) + n < 2 ^ 64"
  shows "whole copy t"
proof -
  have "unat (dec_winbytes t) = unat (dec_winbytes s) + n"
    using r no by (simp add: received_def unat_word_ariths unat_of_nat)
  moreover have "next_in t = drop n (next_in s)" using r by (simp add: received_def)
  ultimately show ?thesis using w n received_sizes [OF r sz] by (auto simp: whole_def Let_def)
qed

lemma sections_addr_ok:
  assumes f: "filling ADDR_SECTION s" and w: "whole copy s" and st: "dec_state s = DEC_ADDR"
  shows "returns (sections_addr copy s) filled stop_ok"
  unfolding sections_addr_def
proof (rule decode_section_returns [OF refl])
  show so: "sect_ok (sect_of ADDR_SECTION s)" using f by (simp add: filling_def)
  let ?d = "addr_sect s"
  have le: "ds_pos ?d \<le> ds_size ?d" using so by (simp add: sect_ok_def)
  note tp = take_pos [OF le, of 0]
  have wb: "unat (dec_winbytes s) = unat (ds_size (data_sect s)) + unat (ds_size (inst_sect s)) + unat (ds_pos ?d)"
    using f w tp by (simp add: filling_def whole_def Let_def unat_word_ariths)
  show "copy \<or> unat (ds_size (sect_of ADDR_SECTION s) - ds_pos (sect_of ADDR_SECTION s)) \<le> length (next_in s)"
    using w wb tp by (auto simp: whole_def Let_def)
  show "stop_ok ENOMEM t" for t by simp
  show "filled t" if "received ADDR_SECTION (unat (ds_size (sect_of ADDR_SECTION s) - ds_pos (sect_of ADDR_SECTION s))) e s t"
      "dec_state t = DEC_EMIT" for t e
    using f that received_base [OF that(1)] by (simp add: filling_def filled_def)
  show "stop_ok XD3_INPUT t" if "received ADDR_SECTION n e s t" "sect_ok e"
      "ds_size e = ds_size (sect_of ADDR_SECTION s)" "ds_pos e = ds_pos (sect_of ADDR_SECTION s) + of_nat n"
      "dec_state t = dec_state s" for t e n
    using f that received_base [OF that(1)] received_sizes [OF that(1,3)] received_pos [OF that(1)] st
    by (simp add: filling_def dec_inv_def received_def)
qed

lemma sections_inst_ok:
  assumes f: "filling INST_SECTION s" and w: "whole copy s" and st: "dec_state s = DEC_INST"
  shows "returns (sections_inst copy s) filled stop_ok"
  unfolding sections_inst_def
proof (rule returns_try [where Q = "\<lambda>t. filling ADDR_SECTION t \<and> whole copy t \<and> dec_state t = DEC_ADDR"], rule decode_section_returns [OF refl])
  show so: "sect_ok (sect_of INST_SECTION s)" using f by (simp add: filling_def)
  let ?d = "inst_sect s"
  have le: "ds_pos ?d \<le> ds_size ?d" using so by (simp add: sect_ok_def)
  note tp = take_pos [OF le, of 0]
  have wb: "unat (dec_winbytes s) = unat (ds_size (data_sect s)) + unat (ds_pos ?d)"
    using f w tp by (simp add: filling_def whole_def Let_def unat_word_ariths)
  show "copy \<or> unat (ds_size (sect_of INST_SECTION s) - ds_pos (sect_of INST_SECTION s)) \<le> length (next_in s)"
    using w wb tp by (auto simp: whole_def Let_def)
  show "stop_ok ENOMEM t" for t by simp
  show "stop_ok XD3_INPUT t" if "received INST_SECTION n e s t" "sect_ok e"
      "ds_size e = ds_size (sect_of INST_SECTION s)" "ds_pos e = ds_pos (sect_of INST_SECTION s) + of_nat n"
      "dec_state t = dec_state s" for t e n
    using f that received_base [OF that(1)] received_sizes [OF that(1,3)] received_pos [OF that(1)] st
    by (simp add: filling_def dec_inv_def received_def)
  show "filling ADDR_SECTION t \<and> whole copy t \<and> dec_state t = DEC_ADDR"
    if r: "received INST_SECTION (unat (ds_size (sect_of INST_SECTION s) - ds_pos (sect_of INST_SECTION s))) e s t"
      and e: "ds_pos e = 0" "ds_size e = ds_size (sect_of INST_SECTION s)"
      "unat (ds_size (sect_of INST_SECTION s) - ds_pos (sect_of INST_SECTION s)) \<le> length (next_in s)"
      "dec_state t = DEC_ADDR" for t e
  proof -
    have "whole copy t"
      by (rule received_whole [OF r e(2) w e(3)]) (use wb tp w in \<open>simp add: whole_def Let_def\<close>)
    moreover have "dec_winbytes t = ds_size (data_sect s) + ds_size (inst_sect s)"
      using r f by (simp add: received_def filling_def)
    ultimately show ?thesis
      using f e received_base [OF r] received_sizes [OF r e(2)] received_pos [OF r]
      by (simp add: filling_def sect_ok_def)
  qed
  show "returns (sections_addr copy t) filled stop_ok" if "filling ADDR_SECTION t \<and> whole copy t \<and> dec_state t = DEC_ADDR" for t
    using that sections_addr_ok by blast
qed

lemma sections_data_ok:
  assumes f: "filling DATA_SECTION s" and w: "whole copy s" and st: "dec_state s = DEC_DATA"
  shows "returns (sections_data copy s) filled stop_ok"
  unfolding sections_data_def
proof (rule returns_try [where Q = "\<lambda>t. filling INST_SECTION t \<and> whole copy t \<and> dec_state t = DEC_INST"], rule decode_section_returns [OF refl])
  show so: "sect_ok (sect_of DATA_SECTION s)" using f by (simp add: filling_def)
  let ?d = "data_sect s"
  have le: "ds_pos ?d \<le> ds_size ?d" using so by (simp add: sect_ok_def)
  note tp = take_pos [OF le, of 0]
  have wb: "unat (dec_winbytes s) = unat (ds_pos ?d)" using f by (simp add: filling_def)
  show "copy \<or> unat (ds_size (sect_of DATA_SECTION s) - ds_pos (sect_of DATA_SECTION s)) \<le> length (next_in s)"
    using w wb tp by (auto simp: whole_def Let_def)
  show "stop_ok ENOMEM t" for t by simp
  show "stop_ok XD3_INPUT t" if "received DATA_SECTION n e s t" "sect_ok e"
      "ds_size e = ds_size (sect_of DATA_SECTION s)" "ds_pos e = ds_pos (sect_of DATA_SECTION s) + of_nat n"
      "dec_state t = dec_state s" for t e n
    using f that received_base [OF that(1)] received_sizes [OF that(1,3)] received_pos [OF that(1)] st
    by (simp add: filling_def dec_inv_def received_def)
  show "filling INST_SECTION t \<and> whole copy t \<and> dec_state t = DEC_INST"
    if r: "received DATA_SECTION (unat (ds_size (sect_of DATA_SECTION s) - ds_pos (sect_of DATA_SECTION s))) e s t"
      and e: "ds_pos e = 0" "ds_size e = ds_size (sect_of DATA_SECTION s)"
      "unat (ds_size (sect_of DATA_SECTION s) - ds_pos (sect_of DATA_SECTION s)) \<le> length (next_in s)"
      "dec_state t = DEC_INST" for t e
  proof -
    have "whole copy t"
      by (rule received_whole [OF r e(2) w e(3)]) (use wb tp w in \<open>simp add: whole_def Let_def\<close>)
    moreover have "dec_winbytes t = ds_size (data_sect s)"
      using r f by (simp add: received_def filling_def)
    ultimately show ?thesis
      using f e received_base [OF r] received_sizes [OF r e(2)] received_pos [OF r]
      by (simp add: filling_def sect_ok_def)
  qed
  show "returns (sections_inst copy t) filled stop_ok" if "filling INST_SECTION t \<and> whole copy t \<and> dec_state t = DEC_INST" for t
    using that sections_inst_ok by blast
qed

lemma flags_bits:
  assumes "(f :: uint32) AND 14 = 0"
  shows "f AND XD3_JUST_HDR = 0" "f AND XD3_SKIP_WINDOW = 0" "f AND XD3_SKIP_EMIT = 0"
proof -
  have "f AND 2 = (f AND 14) AND 2" "f AND 4 = (f AND 14) AND 4" "f AND 8 = (f AND 14) AND 8"
    by (simp_all add: and.assoc)
  then show "f AND XD3_JUST_HDR = 0" "f AND XD3_SKIP_WINDOW = 0" "f AND XD3_SKIP_EMIT = 0"
    using assms by simp_all
qed

lemma case_sections_ok:
  assumes "dec_state s = DEC_DATA \<and> filling DATA_SECTION s \<or> dec_state s = DEC_INST \<and> filling INST_SECTION s \<or>
    dec_state s = DEC_ADDR \<and> filling ADDR_SECTION s"
  shows "returns (case_sections s) (\<lambda>_. False) stop_ok"
proof -
  have fl: "flags s AND 14 = 0" using assms by (auto simp: filling_def base_def)
  note fb = flags_bits [OF fl]
  let ?i = "ds_size (inst_sect s)" and ?a = "ds_size (addr_sect s)" and ?d = "ds_size (data_sect s)"
  define more where "more = ?i + ?a + ?d - dec_winbytes s"
  define n where "n = min (unat more) (length (next_in s))"
  define copy where "copy = (n \<noteq> unat more)"
  consider (ov) "USIZE_T_OVERFLOW ?i ?a \<or> USIZE_T_OVERFLOW (?i + ?a) ?d"
    | (no) "\<not> USIZE_T_OVERFLOW ?i ?a" "\<not> USIZE_T_OVERFLOW (?i + ?a) ?d" by blast
  then have "returns (xd3_decode_sections s) (\<lambda>t. emitting t \<and> dec_state t = DEC_EMIT) stop_ok"
  proof cases
    case ov
    then show ?thesis using fb by (auto simp: xd3_decode_sections_def)
  next
    case no
    have ia: "unat (?i + ?a) = unat ?i + unat ?a"
      using no(1) by (intro unat_plus_64) (simp add: USIZE_T_OVERFLOW_iff)
    have need: "unat (?i + ?a + ?d) = unat ?i + unat ?a + unat ?d" "unat ?i + unat ?a + unat ?d < 2 ^ 64"
      using no(2) ia by (simp_all add: USIZE_T_OVERFLOW_iff unat_plus_64)
    have wbe: "unat (dec_winbytes s) \<le> unat ?i + unat ?a + unat ?d"
    proof -
      have "unat (ds_pos (data_sect s)) \<le> unat ?d" if "filling DATA_SECTION s"
        using that by (simp add: filling_def sect_ok_def word_le_nat_alt)
      moreover have "unat (ds_pos (inst_sect s)) \<le> unat ?i" if "filling INST_SECTION s"
        using that by (simp add: filling_def sect_ok_def word_le_nat_alt)
      moreover have "unat (ds_pos (addr_sect s)) \<le> unat ?a" if "filling ADDR_SECTION s"
        using that by (simp add: filling_def sect_ok_def word_le_nat_alt)
      ultimately show ?thesis
        using assms need(2) by (auto simp: filling_def unat_word_ariths)
    qed
    then have "unat more = unat (?i + ?a + ?d) - unat (dec_winbytes s)"
      unfolding more_def by (intro unat_sub) (simp add: word_le_nat_alt need)
    then have "unat more = unat ?i + unat ?a + unat ?d - unat (dec_winbytes s)" by (simp only: need)
    then have w: "whole copy s"
      using need(2) wbe by (auto simp: whole_def Let_def copy_def n_def)
    have "returns (case dec_state s of
               DEC_DATA \<Rightarrow> sections_data copy s
             | DEC_INST \<Rightarrow> sections_inst copy s
             | DEC_ADDR \<Rightarrow> sections_addr copy s
             | _ \<Rightarrow> (XD3_INVALID_INPUT, s\<lparr>msg := Some ''internal error''\<rparr>)) filled stop_ok"
      using assms sections_data_ok [OF _ w] sections_inst_ok [OF _ w] sections_addr_ok [OF _ w] by auto
    then show ?thesis
      unfolding xd3_decode_sections_def Let_def more_def [symmetric] n_def [symmetric] copy_def [symmetric]
      using no fb
      by (simp del: de_Morgan_conj, elim returns_try) 
        (rule returns_try [OF secondary_sections_returns], assumption,
         simp add: setup_buffers_ok flags_bits filled_def base_def)
  qed
  then show ?thesis
    unfolding case_sections_def by (rule returns_try) (simp add: case_emit_ok)
qed

section \<open>The headers\<close>

lemma state_inv_input:
  "state_inv st ((DECODE_INPUT n s)\<lparr>dec_64part := p\<rparr>) = state_inv st s"
  "state_inv st (s\<lparr>msg := m\<rparr>) = state_inv st s"
  by (cases st; simp add: inv_defs filling_def emitting_def finished_def DECODE_INPUT_def)+

lemma dec_inv_input [simp]:
  "dec_inv ((DECODE_INPUT n s)\<lparr>dec_64part := p\<rparr>) = dec_inv s" "dec_inv (s\<lparr>msg := m\<rparr>) = dec_inv s"
  using state_inv_input by (simp_all add: dec_inv_def) (simp_all add: DECODE_INPUT_def)

lemma SIZE_CASE_ok:
  assumes "dec_inv s"
    and "\<And>v n p. cond \<Longrightarrow> Q ((store v ((DECODE_INPUT n s)\<lparr>dec_64part := p\<rparr>))\<lparr>dec_state := ns\<rparr>)"
    and "\<not> cond \<Longrightarrow> Q (s\<lparr>dec_state := ns\<rparr>)"
  shows "returns (SIZE_CASE cond store ns s) Q stop_ok" "returns (OFFSET_CASE cond store ns s) Q stop_ok"
proof -
  have a: "returns (if cond then xd3_decode_size store s else (XD3_OK, s)) (\<lambda>t. Q (t\<lparr>dec_state := ns\<rparr>)) stop_ok"
    using assms by (cases cond) (simp_all, rule decode_size_returns(1), simp_all)
  have b: "returns (if cond then xd3_decode_offset store s else (XD3_OK, s)) (\<lambda>t. Q (t\<lparr>dec_state := ns\<rparr>)) stop_ok"
    using assms by (cases cond) (simp_all, rule decode_size_returns(2), simp_all)
  show "returns (SIZE_CASE cond store ns s) Q stop_ok"
    unfolding SIZE_CASE_def by (rule returns_try [OF a]) simp
  show "returns (OFFSET_CASE cond store ns s) Q stop_ok"
    unfolding OFFSET_CASE_def by (rule returns_try [OF b]) simp
qed

lemma decode_byte_ok:
  assumes "dec_inv s" and "\<And>v. Q (DECODE_INPUT 1 (store v s))"
  shows "returns (xd3_decode_byte store s) Q stop_ok"
  using assms by (intro decode_byte_returns) simp_all

lemma BYTE_CASE_ok:
  assumes "dec_inv s" and "\<And>v. cond \<Longrightarrow> Q ((DECODE_INPUT 1 (store v s))\<lparr>dec_state := ns\<rparr>)"
    and "\<not> cond \<Longrightarrow> Q (s\<lparr>dec_state := ns\<rparr>)"
  shows "returns (BYTE_CASE cond store ns s) Q stop_ok"
proof -
  have a: "returns (if cond then xd3_decode_byte store s else (XD3_OK, s)) (\<lambda>t. Q (t\<lparr>dec_state := ns\<rparr>)) stop_ok"
    using assms by (auto intro: decode_byte_ok)
  show ?thesis unfolding BYTE_CASE_def by (rule returns_try [OF a]) simp
qed

text \<open>\<open>at st P s\<close>: the stream is in state \<open>st\<close> and \<open>P\<close> holds.\<close>

definition at :: "xd3_decode_state \<Rightarrow> xd3_decoder \<Rightarrow> bool" where
  "at st s \<longleftrightarrow> dec_state s = st \<and> state_inv st s"

lemma at_inv: "at st s \<Longrightarrow> dec_inv s"
  by (auto simp: at_def dec_inv_def)

lemmas at_defs = at_def inv_defs DECODE_INPUT_def

lemma case_cksum_ok:
  assumes "at DEC_CKSUM s"
  shows "returns (case_cksum s) (\<lambda>_. False) stop_ok"
  unfolding case_cksum_def
proof (rule returns_try [where Q = "at DEC_CKSUM"])
  show "returns (if dec_win_ind s AND VCD_ADLER32 \<noteq> 0 then
          xd3_try (xd3_decode_bytes dec_cksum (\<lambda>b s. s\<lparr>dec_cksum := b\<rparr>) 4 s)
            (\<lambda>s. (XD3_OK, s\<lparr>dec_adler32 := foldl (\<lambda>a b. push_bit 8 a OR ucast b) (dec_adler32 s) (take 4 (dec_cksum s))\<rparr>))
        else (XD3_OK, s)) (at DEC_CKSUM) stop_ok"
  proof (cases "dec_win_ind s AND VCD_ADLER32 \<noteq> 0")
    case True
    have "returns (xd3_decode_bytes dec_cksum (\<lambda>b s. s\<lparr>dec_cksum := b\<rparr>) 4 s) (at DEC_CKSUM) stop_ok"
      using assms by (intro decode_bytes_returns) (simp_all add: at_defs dec_inv_def)
    then show ?thesis
      unfolding if_P [OF True] by (rule returns_try) (simp add: at_defs)
  qed (use assms in simp)
next
  fix t assume t: "at DEC_CKSUM t"
  then have "filling DATA_SECTION (t\<lparr>dec_state := DEC_DATA\<rparr>)"
    by (simp add: at_defs filling_def sect_ok_def)
  then show "returns (let s = t\<lparr>dec_state := DEC_DATA\<rparr>;
              enclen_check = 1 +
                ucast (xd3_sizeof_size (dec_tgtlen s) + xd3_sizeof_size (ds_size (data_sect s)) +
                  xd3_sizeof_size (ds_size (inst_sect s)) + xd3_sizeof_size (ds_size (addr_sect s))) +
                ds_size (data_sect s) + ds_size (inst_sect s) + ds_size (addr_sect s) +
                (if dec_win_ind s AND VCD_ADLER32 \<noteq> 0 then 4 else 0) in
          if dec_enclen s \<noteq> enclen_check
          then (XD3_INVALID_INPUT, s\<lparr>msg := Some ''incorrect encoding length (redundent)''\<rparr>)
          else if current_window s = 0 then (XD3_GOTHEADER, s) else (XD3_WINSTART, s)) (\<lambda>_. False) stop_ok"
    by (simp add: Let_def stop_ok_def dec_inv_def)
qed

lemma case_addrlen_ok: "at DEC_ADDRLEN s \<Longrightarrow> returns (case_addrlen s) (\<lambda>_. False) stop_ok"
  unfolding case_addrlen_def
  by (rule returns_try [where Q = "at DEC_CKSUM"], rule SIZE_CASE_ok, erule at_inv)
    (simp_all add: at_defs case_cksum_ok)

lemma case_instlen_ok: "at DEC_INSTLEN s \<Longrightarrow> returns (case_instlen s) (\<lambda>_. False) stop_ok"
  unfolding case_instlen_def
  by (rule returns_try [where Q = "at DEC_ADDRLEN"], rule SIZE_CASE_ok, erule at_inv)
    (simp_all add: at_defs case_addrlen_ok)

lemma case_datalen_ok: "at DEC_DATALEN s \<Longrightarrow> returns (case_datalen s) (\<lambda>_. False) stop_ok"
  unfolding case_datalen_def
  by (rule returns_try [where Q = "at DEC_INSTLEN"], rule SIZE_CASE_ok, erule at_inv)
    (simp_all add: at_defs case_instlen_ok)

lemma case_delind_ok: "at DEC_DELIND s \<Longrightarrow> returns (case_delind s) (\<lambda>_. False) stop_ok"
  unfolding case_delind_def
proof (rule returns_try [where Q = "\<lambda>t. dec_state t = DEC_DATALEN \<and> idle t \<and> win_tgt t"], rule BYTE_CASE_ok, erule at_inv)
  fix t assume "dec_state t = DEC_DATALEN \<and> idle t \<and> win_tgt t"
  then have "dec_del_ind t \<noteq> 0 \<and> sec_type t = None \<or> at DEC_DATALEN t" by (auto simp: at_def win_del_def)
  then show "returns (if dec_del_ind t AND ucast (NOT 7 :: uint32) \<noteq> 0
       then (XD3_INVALID_INPUT, t\<lparr>msg := Some ''unrecognized delta indicator bits set''\<rparr>)
       else if dec_del_ind t \<noteq> 0 \<and> sec_type t = None
       then (XD3_INVALID_INPUT, t\<lparr>msg := Some ''invalid delta indicator bits set''\<rparr>)
       else case_datalen t) (\<lambda>_. False) stop_ok"
    using case_datalen_ok [of t] by (auto simp: returns_def)
qed (simp_all add: at_defs)

lemma case_tgtlen_ok: "at DEC_TGTLEN s \<Longrightarrow> returns (case_tgtlen s) (\<lambda>_. False) stop_ok"
  unfolding case_tgtlen_def
proof (rule returns_try [where Q = "\<lambda>t. dec_state t = DEC_DELIND \<and> idle t \<and> win_off t"], rule SIZE_CASE_ok, erule at_inv)
  fix t assume t: "dec_state t = DEC_DELIND \<and> idle t \<and> win_off t"
  have "at DEC_DELIND (t\<lparr>dec_maxpos := dec_cpylen t + dec_tgtlen t\<rparr>)" if "\<not> dec_tgtlen t > XD3_HARDMAXWINSIZE"
    using t that by (simp add: at_defs)
  then show "returns (if USIZE_T_OVERFLOW (dec_cpylen t) (dec_tgtlen t)
       then (XD3_INVALID_INPUT, t\<lparr>msg := Some ''decoder target window overflows a usize_t''\<rparr>)
       else if dec_tgtlen t > XD3_HARDMAXWINSIZE
       then (XD3_INVALID_INPUT, t\<lparr>msg := Some ''hard window size exceeded''\<rparr>)
       else case_delind (t\<lparr>dec_maxpos := dec_cpylen t + dec_tgtlen t\<rparr>)) (\<lambda>_. False) stop_ok"
    using case_delind_ok by auto
qed (simp_all add: at_defs)

lemma case_enclen_ok: "at DEC_ENCLEN s \<Longrightarrow> returns (case_enclen s) (\<lambda>_. False) stop_ok"
  unfolding case_enclen_def
  by (rule returns_try [where Q = "at DEC_TGTLEN"], rule SIZE_CASE_ok, erule at_inv)
    (simp_all add: at_defs case_tgtlen_ok)

lemma case_cpyoff_ok: "at DEC_CPYOFF s \<Longrightarrow> returns (case_cpyoff s) (\<lambda>_. False) stop_ok"
  unfolding case_cpyoff_def
proof (rule returns_try [where Q = "\<lambda>t. dec_state t = DEC_ENCLEN \<and> idle t \<and> win_len t"], rule SIZE_CASE_ok, erule at_inv)
  fix t assume t: "dec_state t = DEC_ENCLEN \<and> idle t \<and> win_len t"
  have "at DEC_ENCLEN t" if "\<not> XOFF_T_OVERFLOW (dec_cpyoff t) (dec_cpylen t)"
    using t that by (simp add: at_def win_off_def XOFF_T_OVERFLOW_iff)
  then show "returns (if XOFF_T_OVERFLOW (dec_cpyoff t) (dec_cpylen t)
       then (XD3_INVALID_INPUT, t\<lparr>msg := Some ''decoder copy window overflows a file offset''\<rparr>)
       else if dec_win_ind t AND VCD_TARGET \<noteq> 0 \<and> dec_cpyoff t + dec_cpylen t > dec_winstart t
       then (XD3_INVALID_INPUT, t\<lparr>msg := Some ''VCD_TARGET window out of bounds''\<rparr>)
       else case_enclen t) (\<lambda>_. False) stop_ok"
    using case_enclen_ok by auto
qed (simp_all add: at_defs)

lemma case_cpylen_ok: "at DEC_CPYLEN s \<Longrightarrow> returns (case_cpylen s) (\<lambda>_. False) stop_ok"
  unfolding case_cpylen_def
proof (rule returns_try [where Q = "\<lambda>t. dec_state t = DEC_CPYOFF \<and> idle t \<and> table_ok t \<and>
    (\<not> SRCORTGT (dec_win_ind t) \<longrightarrow> dec_cpylen t = 0)"], rule SIZE_CASE_ok, erule at_inv)
  fix t assume "dec_state t = DEC_CPYOFF \<and> idle t \<and> table_ok t \<and>
    (\<not> SRCORTGT (dec_win_ind t) \<longrightarrow> dec_cpylen t = 0)"
  then have "at DEC_CPYOFF (t\<lparr>dec_position := dec_cpylen t\<rparr>)" by (simp add: at_defs)
  then show "returns (case_cpyoff (t\<lparr>dec_position := dec_cpylen t\<rparr>)) (\<lambda>_. False) stop_ok"
    by (rule case_cpyoff_ok)
qed (simp_all add: at_defs)

lemma case_winind_ok: "at DEC_WININD s \<Longrightarrow> returns (case_winind s) (\<lambda>_. False) stop_ok"
  unfolding case_winind_def
proof (rule returns_try [where Q = "at DEC_WININD"], rule decode_byte_ok, erule at_inv)
  fix t assume t: "at DEC_WININD t"
  define u where "u = t\<lparr>current_window := dec_window_count t, dec_winstart := dec_winstart t + dec_tgtlen t,
    dec_cpylen := 0, dec_cpyoff := 0, dec_cksum := [], acache := xd3_init_cache (acache t), dec_state := DEC_CPYLEN\<rparr>"
  have "cache_ok (xd3_init_cache (acache t))"
    using t by (intro cache_ok_init) (simp_all add: at_defs cache_ok_def)
  then have "at DEC_CPYLEN u"
    using t by (simp add: u_def at_defs xd3_init_cache_def Let_def)
  then have "returns (case_cpylen u) (\<lambda>_. False) stop_ok" by (rule case_cpylen_ok)
  then show "returns (let s = t\<lparr>current_window := dec_window_count t\<rparr> in
       if XOFF_T_OVERFLOW (dec_winstart s) (dec_tgtlen s)
       then (XD3_INVALID_INPUT, s\<lparr>msg := Some ''decoder file offset overflow''\<rparr>)
       else
         let s = s\<lparr>dec_winstart := dec_winstart s + dec_tgtlen s\<rparr> in
         if dec_win_ind s AND ucast (NOT 7 :: uint32) \<noteq> 0
         then (XD3_INVALID_INPUT, s\<lparr>msg := Some ''unrecognized window indicator bits set''\<rparr>)
         else xd3_try (xd3_decode_init_window s) (\<lambda>s. case_cpylen (s\<lparr>dec_state := DEC_CPYLEN\<rparr>)))
     (\<lambda>_. False) stop_ok"
    by (simp add: Let_def xd3_decode_init_window_def u_def)
qed (simp_all add: at_defs)

lemma case_appdat_ok:
  assumes "at DEC_APPDAT s"
  shows "returns (case_appdat s) (\<lambda>_. False) stop_ok"
  unfolding case_appdat_def
proof (rule returns_try [where Q = "at DEC_APPDAT"])
  have bytes: "returns (xd3_decode_bytes (\<lambda>s. the (dec_appheader s)) (\<lambda>b s. s\<lparr>dec_appheader := Some b\<rparr>)
      (dec_appheadsz t) t) (at DEC_APPDAT) stop_ok" if "at DEC_APPDAT t" for t
    using that by (intro decode_bytes_returns) (simp_all add: at_defs dec_inv_def)
  have get: "returns (if dec_appheader s = None then
                 (case xd3_alloc s of
                    (False, s) \<Rightarrow> (ENOMEM, s)
                  | (True, s) \<Rightarrow> (XD3_OK, s\<lparr>dec_appheader := Some []\<rparr>))
               else (XD3_OK, s)) (at DEC_APPDAT) stop_ok"
    using assms by (simp add: xd3_alloc_def Let_def at_defs)
  show "returns (if dec_hdr_ind s AND VCD_APPHEADER \<noteq> 0 then
          if USIZE_T_OVERFLOW (dec_appheadsz s) 1
          then (XD3_INVALID_INPUT, s\<lparr>msg := Some ''exceptional appheader size''\<rparr>)
          else
            xd3_try
              (if dec_appheader s = None then
                 (case xd3_alloc s of
                    (False, s) \<Rightarrow> (ENOMEM, s)
                  | (True, s) \<Rightarrow> (XD3_OK, s\<lparr>dec_appheader := Some []\<rparr>))
               else (XD3_OK, s))
              (\<lambda>s. xd3_decode_bytes (\<lambda>s. the (dec_appheader s)) (\<lambda>b s. s\<lparr>dec_appheader := Some b\<rparr>)
                 (dec_appheadsz s) s)
        else (XD3_OK, s)) (at DEC_APPDAT) stop_ok"
    using returns_try [OF get bytes] assms by (auto simp: returns_def)
next
  fix t assume "at DEC_APPDAT t"
  then have "at DEC_WININD (t\<lparr>dec_hdrsize := total_in t, dec_state := DEC_WININD\<rparr>)" by (simp add: at_defs)
  then show "returns (case_winind (t\<lparr>dec_hdrsize := total_in t, dec_state := DEC_WININD\<rparr>)) (\<lambda>_. False) stop_ok"
    by (rule case_winind_ok)
qed

lemma case_applen_ok: "at DEC_APPLEN s \<Longrightarrow> returns (case_applen s) (\<lambda>_. False) stop_ok"
  unfolding case_applen_def
  by (rule returns_try [where Q = "at DEC_APPDAT"], rule SIZE_CASE_ok, erule at_inv)
    (simp_all add: at_defs case_appdat_ok)

text \<open>The states before the code table is set up share one invariant.\<close>

definition in_hdr :: "xd3_decoder \<Rightarrow> bool" where
  "in_hdr s \<longleftrightarrow> dec_state s \<in> {DEC_VCHEAD, DEC_HDRIND, DEC_SECONDID, DEC_TABLEN, DEC_NEAR, DEC_SAME,
     DEC_TABDAT} \<and> hdr s"

lemma in_hdr_inv: "in_hdr s \<Longrightarrow> dec_inv s"
  by (auto simp: in_hdr_def dec_inv_def)

lemmas in_hdr_defs = in_hdr_def inv_defs DECODE_INPUT_def

lemma alloc_cache_returns:
  assumes "idle s" and "next_slot (acache s) = 0" and "s_near (acache s) = 4" and "s_same (acache s) = 3"
    and "code_table s = xd3_rfc3284_code_table"
  shows "returns (xd3_alloc_cache s) (\<lambda>t. idle t \<and> table_ok t) stop_ok"
proof -
  have tab: "length xd3_rfc3284_code_table = 256" "list_all dinst_ok xd3_rfc3284_code_table"
    using length_code_table table_entries_ok by (simp_all add: xd3_rfc3284_code_table_def)
  show ?thesis
    using assms tab by (simp add: xd3_alloc_cache_def xd3_alloc_def Let_def inv_defs cache_ok_def)
qed

lemma case_tabdat_ok:
  assumes "in_hdr s"
  shows "returns (case_tabdat s) (\<lambda>_. False) stop_ok"
proof (cases "dec_hdr_ind s AND VCD_CODETABLE \<noteq> 0")
  case True
  then show ?thesis by (simp add: case_tabdat_def)
next
  case False
  define t where "t = s\<lparr>acache := (acache s)\<lparr>s_near := 4, s_same := 3\<rparr>, code_table := xd3_rfc3284_code_table\<rparr>"
  have m: "ucast (near_modes rfc3284_code_table_desc) = (4 :: usize_t)"
    "ucast (same_modes rfc3284_code_table_desc) = (3 :: usize_t)" by code_simp+
  have al: "returns (xd3_alloc_cache t) (\<lambda>t. idle t \<and> table_ok t) stop_ok"
    using assms by (intro alloc_cache_returns) (auto simp: in_hdr_defs t_def)
  have "returns (xd3_try (xd3_alloc_cache t) (\<lambda>s. case_applen (s\<lparr>dec_state := DEC_APPLEN\<rparr>))) (\<lambda>_. False) stop_ok"
    by (rule returns_try [OF al]) (simp add: case_applen_ok at_defs)
  then show ?thesis using False by (simp add: case_tabdat_def Let_def m t_def)
qed

lemma case_same_ok: "in_hdr s \<Longrightarrow> returns (case_same s) (\<lambda>_. False) stop_ok"
  unfolding case_same_def
  by (rule returns_try [where Q = in_hdr], rule BYTE_CASE_ok, erule in_hdr_inv)
    (simp_all add: in_hdr_defs case_tabdat_ok)

lemma case_near_ok: "in_hdr s \<Longrightarrow> returns (case_near s) (\<lambda>_. False) stop_ok"
  unfolding case_near_def
  by (rule returns_try [where Q = in_hdr], rule BYTE_CASE_ok, erule in_hdr_inv)
    (simp_all add: in_hdr_defs case_same_ok)

lemma case_tablen_ok: "in_hdr s \<Longrightarrow> returns (case_tablen s) (\<lambda>_. False) stop_ok"
  unfolding case_tablen_def
proof (rule returns_try [where Q = in_hdr], rule SIZE_CASE_ok, erule in_hdr_inv)
  fix t assume t: "in_hdr t"
  then have "in_hdr (t\<lparr>dec_codetblsz := dec_codetblsz t - 2\<rparr>)" by (simp add: in_hdr_defs)
  then show "returns (if dec_hdr_ind t AND VCD_CODETABLE \<noteq> 0 then
              if dec_codetblsz t \<le> 2 then (ENOMEM, t\<lparr>msg := Some ''invalid code table size''\<rparr>)
              else case_near (t\<lparr>dec_codetblsz := dec_codetblsz t - 2\<rparr>)
            else case_near t) (\<lambda>_. False) stop_ok"
    using t case_near_ok by auto
qed (simp_all add: in_hdr_defs)

lemma choose_secondary_returns:
  assumes "in_hdr s" and "\<And>i. sec_ok (secs i)"
  shows "returns (choose_secondary secs i name s) in_hdr stop_ok"
proof (cases "secs i")
  case (Some t)
  then show ?thesis
    using assms(1) assms(2) [of i] by (auto simp: choose_secondary_def in_hdr_defs)
qed (simp add: choose_secondary_def)

lemma case_secondid_ok:
  assumes "in_hdr s" and sec: "\<And>i. sec_ok (secs i)"
  shows "returns (case_secondid secs s) (\<lambda>_. False) stop_ok"
proof (cases "dec_hdr_ind s AND VCD_SECONDARY \<noteq> 0")
  case True
  have "returns (xd3_try (BYTE_CASE True (\<lambda>v s. s\<lparr>dec_secondid := v\<rparr>) DEC_TABLEN s) (\<lambda>s.
          xd3_try
            (if dec_secondid s = 16 then choose_secondary secs 16 ''FGK Adaptive Huffman'' s
             else if dec_secondid s = 1 then choose_secondary secs 1 ''DJW Static Huffman'' s
             else if dec_secondid s = 2 then choose_secondary secs 2 ''LZMA'' s
             else (XD3_INVALID_INPUT, s\<lparr>msg := Some ''unknown secondary compressor ID''\<rparr>))
            case_tablen)) (\<lambda>_. False) stop_ok"
  proof (rule returns_try [where Q = in_hdr], rule BYTE_CASE_ok, rule in_hdr_inv, rule assms(1))
    fix t assume "in_hdr t"
    then show "returns (xd3_try
            (if dec_secondid t = 16 then choose_secondary secs 16 ''FGK Adaptive Huffman'' t
             else if dec_secondid t = 1 then choose_secondary secs 1 ''DJW Static Huffman'' t
             else if dec_secondid t = 2 then choose_secondary secs 2 ''LZMA'' t
             else (XD3_INVALID_INPUT, t\<lparr>msg := Some ''unknown secondary compressor ID''\<rparr>))
            case_tablen) (\<lambda>_. False) stop_ok"
      by (intro returns_try [where Q = in_hdr] case_tablen_ok)
        (simp_all add: choose_secondary_returns sec)
  qed (use assms(1) in \<open>simp_all add: in_hdr_defs\<close>)
  then show ?thesis using True by (simp add: case_secondid_def)
next
  case False
  then show ?thesis using case_tablen_ok [OF assms(1)] by (simp add: case_secondid_def)
qed

lemma case_hdrind_ok:
  assumes "in_hdr s" and sec: "\<And>i. sec_ok (secs i)"
  shows "returns (case_hdrind secs s) (\<lambda>_. False) stop_ok"
  unfolding case_hdrind_def
proof (rule returns_try [where Q = in_hdr], rule decode_byte_ok, rule in_hdr_inv, rule assms(1))
  fix t assume "in_hdr t"
  then have "in_hdr (t\<lparr>dec_state := DEC_SECONDID\<rparr>)" by (simp add: in_hdr_defs)
  then show "returns (if dec_hdr_ind t AND ucast (NOT 7 :: uint32) \<noteq> 0
       then (XD3_INVALID_INPUT, t\<lparr>msg := Some ''unrecognized header indicator bits set''\<rparr>)
       else case_secondid secs (t\<lparr>dec_state := DEC_SECONDID\<rparr>)) (\<lambda>_. False) stop_ok"
    using case_secondid_ok sec by auto
qed (use assms(1) in \<open>simp add: in_hdr_defs\<close>)

lemma case_vchead_ok:
  assumes "in_hdr s" and sec: "\<And>i. sec_ok (secs i)" and st: "dec_state s = DEC_VCHEAD"
  shows "returns (case_vchead secs s) (\<lambda>_. False) stop_ok"
  unfolding case_vchead_def
proof (rule returns_try [where Q = in_hdr])
  show "returns (xd3_decode_bytes dec_magic (\<lambda>b s. s\<lparr>dec_magic := b\<rparr>) 4 s) in_hdr stop_ok"
    using assms(1) st by (intro decode_bytes_returns) (simp_all add: in_hdr_defs dec_inv_def)
next
  fix t assume "in_hdr t"
  then have "in_hdr (t\<lparr>dec_state := DEC_HDRIND\<rparr>)" by (simp add: in_hdr_defs)
  then show "returns (if take 3 (dec_magic t) \<noteq> [0xd6, 0xc3, 0xc4]
       then (XD3_INVALID_INPUT, t\<lparr>msg := Some ''not a VCDIFF input''\<rparr>)
       else if dec_magic t ! 3 \<noteq> 0
       then (XD3_INVALID_INPUT, t\<lparr>msg := Some ''VCDIFF input version > 0 is not supported''\<rparr>)
       else case_hdrind secs (t\<lparr>dec_state := DEC_HDRIND\<rparr>)) (\<lambda>_. False) stop_ok"
    using case_hdrind_ok sec by auto
qed

text \<open>One call keeps the promise.\<close>

lemma decode_input_ok:
  assumes inv: "dec_inv s" and sec: "\<And>i. sec_ok (secs i)"
  shows "returns (xd3_decode_input secs s) (\<lambda>_. False) stop_ok"
proof (cases "enc_state s \<noteq> ENC_INIT")
  case True
  then show ?thesis by (simp add: xd3_decode_input_def)
next
  case False
  have at: "at (dec_state s) s" using inv by (simp add: at_def dec_inv_def)
  have h: "dec_state s \<in> {DEC_VCHEAD, DEC_HDRIND, DEC_SECONDID, DEC_TABLEN, DEC_NEAR, DEC_SAME, DEC_TABDAT} \<Longrightarrow> in_hdr s"
    using inv by (auto simp: in_hdr_def dec_inv_def)
  show ?thesis
    using False at h sec
    by (cases "dec_state s")
      (simp_all add: xd3_decode_input_def case_vchead_ok case_hdrind_ok case_secondid_ok case_tablen_ok
        case_near_ok case_same_ok case_tabdat_ok case_applen_ok case_appdat_ok case_winind_ok case_cpylen_ok
        case_cpyoff_ok case_enclen_ok case_tgtlen_ok case_delind_ok case_datalen_ok case_instlen_ok
        case_addrlen_ok case_cksum_ok case_sections_ok case_emit_ok case_finish_ok at_def)
qed

end
