(* ===== verification/Xd3_Session.thy ===== *)
theory Xd3_Session
  imports Xd3_Prelude
begin

text \<open>
  Sessions: the library is driven by calling one function again and again, doing between two calls
  what its result asks for.  The locale states what has to be known of the function so that its
  invariant holds through every session.
\<close>

inductive session ::
  "('s \<Rightarrow> bool) \<Rightarrow> ('s \<Rightarrow> xd3_rvalue \<times> 's) \<Rightarrow> (xd3_rvalue \<Rightarrow> 's \<Rightarrow> 's \<Rightarrow> bool) \<Rightarrow> xd3_rvalue \<Rightarrow> 's \<Rightarrow> bool"
  for start call answer where
  session_begin: "start s \<Longrightarrow> call s = (ret, t) \<Longrightarrow> session start call answer ret t"
| session_next: "session start call answer ret t \<Longrightarrow> answer ret t u \<Longrightarrow> call u = (ret', v) \<Longrightarrow>
    session start call answer ret' v"

locale driven =
  fixes start :: "'s \<Rightarrow> bool" and call :: "'s \<Rightarrow> xd3_rvalue \<times> 's"
    and answer :: "xd3_rvalue \<Rightarrow> 's \<Rightarrow> 's \<Rightarrow> bool"
    and inv :: "'s \<Rightarrow> bool" and promise :: "xd3_rvalue \<Rightarrow> 's \<Rightarrow> bool"
  assumes start_inv: "start s \<Longrightarrow> inv s"
    and call_promise: "inv s \<Longrightarrow> call s = (ret, t) \<Longrightarrow> promise ret t"
    and answer_inv: "promise ret t \<Longrightarrow> answer ret t u \<Longrightarrow> inv u"
begin

lemma session_promise: "session start call answer ret t \<Longrightarrow> promise ret t"
proof (induction rule: session.induct)
  case (session_begin s ret t)
  then show ?case using start_inv call_promise by blast
next
  case (session_next ret t u ret' v)
  then show ?case using answer_inv call_promise by blast
qed

end

end
