(* ===== verification/Xd3_Decode_Use.thy ===== *)
theory Xd3_Decode_Use
  imports Xd3_Decode_Run Xd3_Session
begin

text \<open>
  The decoder as the application uses it: a session of calls of \<open>xd3_decode_input\<close> under the
  documented contract, and the properties of every such session.
\<close>

section \<open>The contract of the application\<close>

text \<open>A stream configured for decoding: zeroed but for the callback, the allocator and the flags, of
  which \<open>XD3_JUST_HDR\<close>, \<open>XD3_SKIP_WINDOW\<close> and \<open>XD3_SKIP_EMIT\<close> are not used.\<close>

inductive dec_start :: "xd3_decoder \<Rightarrow> bool" where
  dec_plain: "(\<And>f. g = Some f \<Longrightarrow> getblk_ok f) \<Longrightarrow> fl AND (XD3_JUST_HDR OR XD3_SKIP_WINDOW OR XD3_SKIP_EMIT) = 0 \<Longrightarrow>
    dec_start (decoder_zero\<lparr>getblk := g, alloc := al, flags := fl\<rparr>)"
| dec_source: "dec_start s \<Longrightarrow> xd3_set_source s x = (XD3_OK, t) \<Longrightarrow> src t = Some y \<Longrightarrow> block_ok y \<Longrightarrow>
    dec_start t"
| dec_data: "dec_start s \<Longrightarrow> dec_start (xd3_avail_input bs s)"

text \<open>What the application does after a return: supply more input, take the output, set a source once
  the header is known, fill in the block that was asked for, or just call again.\<close>

inductive dec_answer :: "xd3_rvalue \<Rightarrow> xd3_decoder \<Rightarrow> xd3_decoder \<Rightarrow> bool" where
  ans_input: "dec_answer XD3_INPUT s (xd3_avail_input bs s)"
| ans_output: "dec_answer XD3_OUTPUT s (xd3_consume_output s)"
| ans_header: "dec_answer XD3_GOTHEADER s s"
| ans_winstart: "dec_answer XD3_WINSTART s s"
| ans_winfinish: "dec_answer XD3_WINFINISH s s"
| ans_source: "ret \<in> {XD3_GOTHEADER, XD3_WINSTART} \<Longrightarrow> xd3_set_source s x = (XD3_OK, t) \<Longrightarrow>
    src t = Some y \<Longrightarrow> block_ok y \<Longrightarrow> dec_answer ret s t"
| ans_block: "src s = Some x \<Longrightarrow> n \<le> blksize x \<Longrightarrow> length b = unat n \<Longrightarrow>
    dec_answer XD3_GETSRCBLK s (s\<lparr>src := Some (x\<lparr>curblkno := getblkno x, onblk := n, curblk := Some b\<rparr>)\<rparr>)"

section \<open>The invariant through a session\<close>

lemma set_source_stream:
  assumes "xd3_set_source s x = (XD3_OK, t)" and "src t = Some y"
  shows "t = s\<lparr>src := Some y\<rparr>" "source_ok y"
proof -
  have "fst (xd3_set_source s x) = C_DIVERGES" if "2 ^ 63 < blksize x \<or> 2 ^ 63 < max_winsize x"
    using set_source_result [of s x] that by (metis fst_conv)
  then have b: "blksize x \<le> 2 ^ 63" "max_winsize x \<le> 2 ^ 63"
    using assms(1) by (auto simp: not_less [symmetric])
  show "source_ok y" using set_source_ok [OF assms(1) b] assms(2) by auto
  show "t = s\<lparr>src := Some y\<rparr>"
    using assms by (auto simp: xd3_set_source_def Let_def split: option.splits if_splits)
qed

lemma state_inv_src:
  assumes "state_inv st s" and "source_ok y" and "block_ok y"
  shows "state_inv st (s\<lparr>src := Some y\<rparr>)"
proof -
  have w: "win_ok (s\<lparr>src := Some y\<rparr>) = win_ok s" by (rule win_ok_cong) simp_all
  have g: "src_ok s \<Longrightarrow> src_ok (s\<lparr>src := Some y\<rparr>)" using assms(2,3) by (simp add: src_ok_def)
  show ?thesis
    using assms(1) w g by (cases st; simp add: inv_defs filling_def emitting_def finished_def split: xd3_section_type.splits)
qed

lemma state_inv_next_in: "state_inv st (s\<lparr>next_in := bs\<rparr>) = state_inv st s"
  by (cases st; simp add: inv_defs filling_def emitting_def finished_def)

lemma dec_start_inv: "dec_start s \<Longrightarrow> dec_state s = DEC_VCHEAD \<and> dec_inv s"
proof (induction rule: dec_start.induct)
  case (dec_plain g fl al)
  let ?s = "decoder_zero\<lparr>getblk := g, alloc := al, flags := fl\<rparr>"
  have z: "win_ok ?s" "src_ok ?s"
    using dec_plain by (auto simp: win_ok_def out_bytes_def src_ok_def decoder_zero_def stream_zero_def
        xd3_stream.defs split: option.splits)
  have "fl AND 14 = 0" using dec_plain(2) by simp
  then show ?case
    using z by (simp add: dec_inv_def inv_defs sec_ok_def decoder_zero_def stream_zero_def xd3_stream.defs
        hinst_zero_def desect_zero_def acache_zero_def)
next
  case (dec_source s x t y)
  note t = set_source_stream [OF dec_source(2,3)]
  then show ?case using dec_source state_inv_src [of DEC_VCHEAD s y] by (auto simp: dec_inv_def)
next
  case (dec_data s bs)
  then show ?case by (auto simp: dec_inv_def xd3_avail_input_def state_inv_next_in)
qed

lemma dec_answer_inv:
  assumes "dec_answer ret t u" and "stop_ok ret t"
  shows "dec_inv u"
  using assms
proof (cases rule: dec_answer.cases)
  case (ans_input bs)
  then show ?thesis using assms(2) by (simp add: dec_inv_def xd3_avail_input_def state_inv_next_in)
next
  case ans_output
  then have f: "dec_state t = DEC_FINISH" "finished t" using assms(2) by (simp_all add: stop_ok_def)
  then have "win_ok (t\<lparr>avail_out := 0\<rparr>)"
    by (auto simp: finished_def base_def win_ok_def out_bytes_def split: option.splits)
  then show ?thesis
    using f ans_output by (simp add: dec_inv_def xd3_consume_output_def finished_def inv_defs)
next
  case (ans_source x y)
  note u = set_source_stream [OF ans_source(2,3)]
  have "dec_inv t" using assms(2) ans_source(1) by (auto simp: stop_ok_def)
  then show ?thesis using u state_inv_src ans_source(4) by (simp add: dec_inv_def)
next
  case (ans_block x n b)
  have inv: "dec_inv t" using assms(2) ans_block(1) by (simp add: stop_ok_def)
  show ?thesis
  proof (cases "dec_state t = DEC_ABORTED")
    case False
    then have "src_ok t" using inv by (cases "dec_state t") (simp_all add: dec_inv_def inv_defs filling_def emitting_def finished_def)
    then have "source_ok x" using ans_block(3) by (simp add: src_ok_def)
    then have "source_ok (x\<lparr>curblkno := getblkno x, onblk := n, curblk := Some b\<rparr>)"
      "block_ok (x\<lparr>curblkno := getblkno x, onblk := n, curblk := Some b\<rparr>)"
      using ans_block by (simp_all add: source_ok_def block_ok_def)
    then show ?thesis using inv state_inv_src ans_block(2) by (simp add: dec_inv_def)
  qed (use ans_block(2) in \<open>simp add: dec_inv_def\<close>)
qed (use assms(2) in \<open>simp_all add: stop_ok_def\<close>)

text \<open>The decoder with compressors that keep their contract, as a driven machine.\<close>

definition keep :: "(usize_t \<Rightarrow> xd3_sec_type option) \<Rightarrow> usize_t \<Rightarrow> xd3_sec_type option" where
  "keep secs i = (if sec_ok (secs i) then secs i else None)"

interpretation decoder: driven dec_start "xd3_decode_input (keep secs)" dec_answer dec_inv stop_ok for secs
proof
  show "dec_inv s" if "dec_start s" for s using dec_start_inv that by blast
next
  fix s ret t assume "dec_inv s" and c: "xd3_decode_input (keep secs) s = (ret, t)"
  moreover have "sec_ok (keep secs i)" for i by (simp add: keep_def sec_ok_def)
  ultimately have "returns (ret, t) (\<lambda>_. False) stop_ok" using decode_input_ok by metis
  then show "stop_ok ret t" by (auto simp: returns_def split: if_splits)
next
  show "dec_inv u" if "stop_ok ret t" "dec_answer ret t u" for ret t u using dec_answer_inv that by blast
qed

lemma keep_ok: "(\<And>i. sec_ok (secs i)) \<Longrightarrow> keep secs = secs"
  by (simp add: keep_def fun_eq_iff)

section \<open>Properties\<close>


text \<open>C8: when the decoder hands out a window, exactly the announced number of bytes has been written,
  at most $2^{26}$, the data and address sections are used up, and the bytes have the checksum of the
  window when it has one and checking is not switched off.\<close>

theorem decoder_window:
  assumes "\<And>i. sec_ok (secs i)" and "session dec_start (xd3_decode_input secs) dec_answer XD3_OUTPUT s"
  shows "\<exists>bs. out_bytes s = Some bs \<and> length bs = unat (dec_tgtlen s) \<and> length bs \<le> 2 ^ 26 \<and>
    ds_buf (data_sect s) = [] \<and> ds_buf (addr_sect s) = [] \<and>
    (dec_win_ind s AND VCD_ADLER32 \<noteq> 0 \<and> flags s AND XD3_ADLER32_NOVER = 0 \<longrightarrow> adler32 1 bs = dec_adler32 s)"
proof -
  have "stop_ok XD3_OUTPUT s" using decoder.session_promise [of secs XD3_OUTPUT s] assms keep_ok [of secs] by simp
  then have f: "finished s" "window_done s" by (simp_all add: stop_ok_def)
  then have w: "win_ok s" by (simp add: finished_def base_def)
  then obtain bs where bs: "out_bytes s = Some bs" by (auto simp: win_ok_def)
  have "unat (avail_out s) \<le> 0x4000000"
    using w order_trans [of "avail_out s" "space_out s" "0x4000000"] by (simp add: win_ok_def word_le_nat_alt)
  then show ?thesis using f(2) bs out_bytes_length [OF bs] by (simp add: window_done_def)
qed

text \<open>A whole file: one window that adds two bytes.  The simplifier runs the decoder on it, with the
  code table kept as a constant.\<close>

definition example_start :: xd3_decoder where
  "example_start = xd3_avail_input [0xd6, 0xc3, 0xc4, 0, 0, 0, 8, 2, 0, 2, 1, 0, 0x41, 0x42, 3]
     (decoder_zero\<lparr>getblk := None, alloc := (\<lambda>_. True), flags := 0\<rparr>)"

definition example_header :: xd3_decoder where
  "example_header =
    \<lparr>next_in = [65, 66, 3], total_in = 12, avail_out = 0, space_out = 0,
     current_window = 0, total_out = 0, msg = None, src = None,
     winsize = 0, sprevsz = 0, sprevmask = 0, iopt_size = 0,
     iopt_unlimited = False, getblk = None, alloc = \<lambda>_. True,
     alloc_cnt = 2, flags = 0, sec_data = sec_cfg_zero,
     sec_inst = sec_cfg_zero, sec_addr = sec_cfg_zero,
     acache = \<lparr>s_near = 4, s_same = 3, next_slot = 0,
     near_array = replicate 4 0, same_array = replicate 768 0\<rparr>,
     enc_state = ENC_INIT, dec_state = DEC_DATA,
     code_table = xd3_rfc3284_code_table, sec_type = None,
     sec_stream_d = None, sec_stream_i = None, sec_stream_a = None,
     dec_hdr_ind = 0, dec_win_ind = 0, dec_del_ind = 0,
     dec_magic = [214, 195, 196, 0], dec_secondid = 0, dec_codetblsz = 0,
     dec_appheadsz = 0, dec_appheader = None, dec_cksum = [],
     dec_adler32 = 0, dec_cpylen = 0, dec_cpyoff = 0, dec_enclen = 8,
     dec_tgtlen = 2, dec_64part = 0, dec_winstart = 0,
     dec_window_count = 0, dec_winbytes = 0, dec_hdrsize = 5,
     dec_tgtaddrbase = (None, 0), dec_position = 0, dec_maxpos = 2,
     dec_current1 = hinst_zero, dec_current2 = hinst_zero,
     next_out = None, dec_buffer = None, dec_lastwin = None,
     dec_lastlen = 0, dec_laststart = 0, dec_lastspace = 0,
     dec_heap = \<lambda>_. None,
     inst_sect = \<lparr>ds_buf = [], ds_size = 1, ds_pos = 0, ds_alloc1 = None, ds_alloc2 = None\<rparr>,
     addr_sect = \<lparr>ds_buf = [], ds_size = 0, ds_pos = 0, ds_alloc1 = None, ds_alloc2 = None\<rparr>,
     data_sect = \<lparr>ds_buf = [], ds_size = 2, ds_pos = 0, ds_alloc1 = None, ds_alloc2 = None\<rparr>\<rparr>"

definition example_window :: xd3_decoder where
  "example_window = snd (xd3_decode_input (\<lambda>_. None) example_header)"

lemmas header_eval = xd3_decode_input_def case_vchead_def case_hdrind_def case_secondid_def case_tablen_def
  case_near_def case_same_def case_tabdat_def case_applen_def case_appdat_def case_winind_def case_cpylen_def
  case_cpyoff_def case_enclen_def case_tgtlen_def case_delind_def case_datalen_def case_instlen_def
  case_addrlen_def case_cksum_def xd3_decode_bytes_def decode_bytes_loop.simps xd3_decode_byte_def
  DECODE_INPUT_def SIZE_CASE_def BYTE_CASE_def OFFSET_CASE_def xd3_decode_size_def xd3_decode_offset_def
  xd3_decode_uint64_t_def xd3_alloc_cache_def xd3_alloc_def xd3_decode_init_window_def xd3_init_cache_def
  SRCORTGT_def USIZE_T_OVERFLOW_def XOFF_T_OVERFLOW_def

lemmas sections_eval = case_sections_def xd3_decode_sections_def sections_data_def sections_inst_def
  sections_addr_def xd3_decode_section_def section_take_def section_done_def
  xd3_decode_secondary_sections_def xd3_decode_setup_buffers_def free_winbuf_def case_emit_def
  emit_and_count_def xd3_decode_emit_def

lemmas emit_eval = decode_emit_loop.simps insts_pending_def xd3_decode_instruction_def parse_current1_def
  parse_current2_def xd3_decode_parse_halfinst_def halfinst_size_def halfinst_address_def
  halfinst_advance_def output_current1_def output_current2_def output_halfinst_loop.simps
  xd3_decode_output_halfinst_def output_add_def out_write_def out_bytes_def emit_checks_def
  xd3_decode_finish_window_def Let_def USIZE_T_OVERFLOW_def

lemma example_values:
  "ucast (near_modes rfc3284_code_table_desc) = (4 :: usize_t)"
  "ucast (same_modes rfc3284_code_table_desc) = (3 :: usize_t)"
  "xd3_sizeof_size 2 = 1" "xd3_sizeof_size 0 = 1" "xd3_sizeof_size 1 = 1"
  "xd3_round_blksize 2 16384 = 16384" "length xd3_rfc3284_code_table = 256"
  "xd3_rfc3284_code_table ! 3 = \<lparr>type1 = 1, size1 = 2, type2 = 0, size2 = 0\<rparr>"
  "((3 :: uint8) \<le> 1) = False"
  by code_simp+

lemma example_header_step:
  "xd3_decode_input (\<lambda>_. None) example_start = (XD3_GOTHEADER, example_header)"
  unfolding example_start_def example_header_def xd3_avail_input_def decoder_zero_def stream_zero_def
    xd3_stream.defs hinst_zero_def desect_zero_def acache_zero_def
  by (simp add: header_eval example_values)

lemma example_window_step:
  "fst (xd3_decode_input (\<lambda>_. None) example_header) = XD3_OUTPUT"
  unfolding example_header_def hinst_zero_def
  by (simp add: header_eval sections_eval example_values) (simp add: emit_eval example_values)

lemma example_session:
  "session dec_start (xd3_decode_input (\<lambda>_. None)) dec_answer XD3_OUTPUT example_window"
proof (rule session_next)
  show "session dec_start (xd3_decode_input (\<lambda>_. None)) dec_answer XD3_GOTHEADER example_header"
  proof (rule session_begin)
    show "xd3_decode_input (\<lambda>_. None) example_start = (XD3_GOTHEADER, example_header)"
      by (rule example_header_step)
    show "dec_start example_start"
      unfolding example_start_def by (intro dec_data dec_plain) simp_all
  qed
  show "dec_answer XD3_GOTHEADER example_header example_header" by (rule ans_header)
  show "xd3_decode_input (\<lambda>_. None) example_header = (XD3_OUTPUT, example_window)"
    using example_window_step by (simp add: example_window_def prod_eq_iff)
qed


theorem decoder_window_witness:
  "\<exists>bs. out_bytes example_window = Some bs \<and> length bs = unat (dec_tgtlen example_window)"
  using decoder_window [OF _ example_session] by (auto simp: sec_ok_def)

end
