(* ===== verification/Xd3_List.thy ===== *)
theory Xd3_List
  imports Xd3_Prelude
begin

text \<open>
  The circular doubly linked lists of \<open>xdelta3-list.h\<close>, on which the encoder keeps its instruction
  slots.  The definitions work on the links as the code does; the lists of the other theories are
  what the links represent, by the lemmas of this theory.  A link and the entry that holds it have
  the same name, a number: the code converts between them by a constant offset.
\<close>

section \<open>Definitions\<close>

record xd3_links =
  l_next :: "nat \<Rightarrow> nat"
  l_prev :: "nat \<Rightarrow> nat"

definition set_next :: "nat \<Rightarrow> nat \<Rightarrow> xd3_links \<Rightarrow> xd3_links" where
  "set_next p q h = h\<lparr>l_next := (l_next h)(p := q)\<rparr>"

definition set_prev :: "nat \<Rightarrow> nat \<Rightarrow> xd3_links \<Rightarrow> xd3_links" where
  "set_prev p q h = h\<lparr>l_prev := (l_prev h)(p := q)\<rparr>"

definition rlist_init :: "nat \<Rightarrow> xd3_links \<Rightarrow> xd3_links" where
  "rlist_init l h = set_prev l l (set_next l l h)"

definition rlist_add :: "nat \<Rightarrow> nat \<Rightarrow> nat \<Rightarrow> xd3_links \<Rightarrow> xd3_links" where
  "rlist_add prev nxt ins h =
     (let h = set_prev nxt ins h; h = set_next prev ins h; h = set_next ins nxt h
      in set_prev ins prev h)"

definition rlist_push_back :: "nat \<Rightarrow> nat \<Rightarrow> xd3_links \<Rightarrow> xd3_links" where
  "rlist_push_back l i h = rlist_add (l_prev h l) l i h"

definition rlist_del :: "nat \<Rightarrow> nat \<Rightarrow> xd3_links \<Rightarrow> xd3_links" where
  "rlist_del nxt prev h = set_next prev nxt (set_prev nxt prev h)"

text \<open>\<open>remove\<close> returns the entry after the one it takes out.\<close>

definition rlist_remove :: "nat \<Rightarrow> xd3_links \<Rightarrow> nat \<times> xd3_links" where
  "rlist_remove f h = (l_next h f, rlist_del (l_next h f) (l_prev h f) h)"

definition rlist_pop_back :: "nat \<Rightarrow> xd3_links \<Rightarrow> nat \<times> xd3_links" where
  "rlist_pop_back l h = (let i = l_prev h l in (i, rlist_del (l_next h i) (l_prev h i) h))"

definition rlist_pop_front :: "nat \<Rightarrow> xd3_links \<Rightarrow> nat \<times> xd3_links" where
  "rlist_pop_front l h = (let i = l_next h l in (i, rlist_del (l_next h i) (l_prev h i) h))"

definition rlist_empty :: "nat \<Rightarrow> xd3_links \<Rightarrow> bool" where
  "rlist_empty l h \<longleftrightarrow> l = l_next h l"

definition rlist_front :: "nat \<Rightarrow> xd3_links \<Rightarrow> nat" where
  "rlist_front f h = l_next h f"

definition rlist_back :: "nat \<Rightarrow> xd3_links \<Rightarrow> nat" where
  "rlist_back f h = l_prev h f"

definition rlist_end :: "nat \<Rightarrow> nat \<Rightarrow> bool" where
  "rlist_end f i \<longleftrightarrow> f = i"

definition rlist_next :: "nat \<Rightarrow> xd3_links \<Rightarrow> nat" where
  "rlist_next f h = l_next h f"

partial_function (option) rlist_count ::
  "xd3_links \<Rightarrow> nat \<Rightarrow> nat \<Rightarrow> usize_t \<Rightarrow> usize_t option" where
  "rlist_count h l p c = (if p \<noteq> l then rlist_count h l (l_next h p) (c + 1) else Some c)"

declare rlist_count.simps [code]

definition rlist_length :: "nat \<Rightarrow> xd3_links \<Rightarrow> usize_t option" where
  "rlist_length l h = rlist_count h l (l_next h l) 0"

lemmas rlist_defs = rlist_push_back_def rlist_add_def rlist_del_def rlist_remove_def
  rlist_pop_back_def rlist_pop_front_def rlist_empty_def set_next_def set_prev_def Let_def

section \<open>What the links represent\<close>

text \<open>From link \<open>a\<close> the entries \<open>xs\<close> lead to link \<open>b\<close>, in both directions.\<close>

fun linked :: "xd3_links \<Rightarrow> nat \<Rightarrow> nat list \<Rightarrow> nat \<Rightarrow> bool" where
  "linked h a [] b \<longleftrightarrow> l_next h a = b \<and> l_prev h b = a"
| "linked h a (x # xs) b \<longleftrightarrow> l_next h a = x \<and> l_prev h x = a \<and> linked h x xs b"

definition rlist :: "xd3_links \<Rightarrow> nat \<Rightarrow> nat list \<Rightarrow> bool" where
  "rlist h l xs \<longleftrightarrow> distinct (l # xs) \<and> linked h l xs l"

lemma linked_append: "linked h a (xs @ y # ys) b \<longleftrightarrow> linked h a xs y \<and> linked h y ys b"
  by (induction xs arbitrary: a) auto

lemma linked_frame:
  assumes "linked h a xs b"
    and "\<And>p. p \<in> set (a # xs) \<Longrightarrow> l_next h' p = l_next h p"
    and "\<And>p. p \<in> set (b # xs) \<Longrightarrow> l_prev h' p = l_prev h p"
  shows "linked h' a xs b"
  using assms by (induction xs arbitrary: a) auto

lemma linked_last:
  assumes "linked h a xs b"
  shows "l_prev h b = (if xs = [] then a else last xs)" "l_next h a = (if xs = [] then b else hd xs)"
  using assms by (induction xs arbitrary: a) auto

text \<open>Only the links of its own entries and of its head matter for a list.\<close>

lemma rlist_frame:
  assumes "rlist h l xs" and "\<And>p. p \<in> set (l # xs) \<Longrightarrow> l_next h' p = l_next h p \<and> l_prev h' p = l_prev h p"
  shows "rlist h' l xs"
  using assms linked_frame [of h l xs l h'] by (auto simp: rlist_def)

lemma rlist_initial: "rlist (rlist_init l h) l []"
  by (simp add: rlist_def rlist_init_def set_next_def set_prev_def)

lemma push_back_rlist:
  assumes "rlist h l xs" and "i \<notin> set (l # xs)"
  shows "rlist (rlist_push_back l i h) l (xs @ [i])"
proof -
  have p: "l_prev h l = (if xs = [] then l else last xs)"
    using assms linked_last(1) [of h l xs l] by (simp add: rlist_def)
  show ?thesis
  proof (cases xs rule: rev_cases)
    case Nil
    then show ?thesis using assms p by (auto simp: rlist_def rlist_defs)
  next
    case (snoc ys y)
    then have l: "linked h l ys y" "linked h y [] l" "distinct (l # ys @ [y])"
      using assms(1) linked_append [of h l ys y "[]" l] by (auto simp: rlist_def)
    have "linked (rlist_push_back l i h) l ys y"
      by (rule linked_frame [OF l(1)]) (use l assms(2) snoc p in \<open>auto simp: rlist_defs\<close>)
    then show ?thesis
      using l assms(2) snoc p by (auto simp: rlist_def linked_append rlist_defs)
  qed
qed

text \<open>Taking out an entry, wherever it stands.\<close>

lemma del_fields:
  "l_next (rlist_del n p h) = (l_next h)(p := n)" "l_prev (rlist_del n p h) = (l_prev h)(n := p)"
  by (simp_all add: rlist_del_def set_next_def set_prev_def)

lemma linked_retarget:
  assumes "linked h a xs b" and "distinct (a # xs)" and "c \<notin> set xs"
  shows "linked (rlist_del c (last (a # xs)) h) a xs c"
  using assms
proof (induction xs arbitrary: a)
  case (Cons x xs)
  then have "linked (rlist_del c (last (x # xs)) h) x xs c" "last (x # xs) \<noteq> a"
    using last_in_set [of "x # xs"] by auto
  with Cons.prems show ?case by (simp add: del_fields)
qed (simp add: del_fields)

lemma del_rlist:
  assumes "rlist h l (xs @ i # ys)"
  shows "rlist (rlist_del (l_next h i) (l_prev h i) h) l (xs @ ys)"
proof -
  have d: "distinct (l # xs @ i # ys)" and a: "linked h l xs i" and b: "linked h i ys l"
    using assms by (auto simp: rlist_def linked_append)
  have p: "l_prev h i = last (l # xs)" using linked_last(1) [OF a] by simp
  have "linked (rlist_del (l_next h i) (last (l # xs)) h) l (xs @ ys) l"
  proof (cases ys)
    case Nil
    then show ?thesis using linked_retarget [OF a, of l] d b by simp
  next
    case (Cons y zs)
    then have y: "l_next h i = y" "linked h y zs l" using b by simp_all
    have last: "last (l # xs) \<in> set (l # xs)" by (rule last_in_set) simp
    have "linked (rlist_del y (last (l # xs)) h) l xs y"
      by (rule linked_retarget [OF a]) (use d Cons in auto)
    moreover have "linked (rlist_del y (last (l # xs)) h) y zs l"
      by (rule linked_frame [OF y(2)]) (use d Cons last in \<open>auto simp: del_fields simp del: last.simps\<close>)
    ultimately show ?thesis using Cons y(1) by (simp only: linked_append)
  qed
  then show ?thesis using d p by (simp add: rlist_def)
qed

lemma remove_rlist:
  assumes "rlist h l (xs @ i # ys)"
  shows "rlist (snd (rlist_remove i h)) l (xs @ ys)" "fst (rlist_remove i h) = (if ys = [] then l else hd ys)"
  using del_rlist [OF assms] assms linked_last(2) [of h i ys l]
  by (auto simp: rlist_remove_def rlist_def linked_append)

lemma pop_back_rlist:
  assumes "rlist h l (xs @ [i])"
  shows "fst (rlist_pop_back l h) = i" "rlist (snd (rlist_pop_back l h)) l xs"
  using del_rlist [OF assms] assms linked_last(1) [of h l "xs @ [i]" l]
  by (auto simp: rlist_pop_back_def rlist_def Let_def)

lemma pop_front_rlist:
  assumes "rlist h l (i # xs)"
  shows "fst (rlist_pop_front l h) = i" "rlist (snd (rlist_pop_front l h)) l xs"
  using del_rlist [of h l "[]" i xs] assms
  by (auto simp: rlist_pop_front_def rlist_def Let_def)

lemma empty_rlist: "rlist h l xs \<Longrightarrow> rlist_empty l h \<longleftrightarrow> xs = []"
  by (cases xs) (auto simp: rlist_def rlist_empty_def)

lemma ends_rlist:
  assumes "rlist h l xs" and "xs \<noteq> []"
  shows "rlist_front l h = hd xs" "rlist_back l h = last xs"
  using assms linked_last [of h l xs l] by (simp_all add: rlist_def rlist_front_def rlist_back_def)

lemma next_rlist:
  assumes "rlist h l (xs @ i # ys)"
  shows "rlist_end l (rlist_next i h) \<longleftrightarrow> ys = []" "ys \<noteq> [] \<Longrightarrow> rlist_next i h = hd ys"
  using assms linked_last(2) [of h i ys l]
  by (cases ys; auto simp: rlist_def linked_append rlist_end_def rlist_next_def)+

lemma count_linked:
  assumes "linked h a xs l" and "l \<notin> set xs"
  shows "rlist_count h l (l_next h a) c = Some (c + of_nat (length xs))"
  using assms
proof (induction xs arbitrary: a c)
  case Nil
  then show ?case by (subst rlist_count.simps) simp
next
  case (Cons x xs)
  then show ?case by (subst rlist_count.simps) (simp add: algebra_simps)
qed

lemma length_rlist: "rlist h l xs \<Longrightarrow> rlist_length l h = Some (of_nat (length xs))"
  using count_linked [of h l xs l 0] by (simp add: rlist_def rlist_length_def)

text \<open>A list is left alone by what happens to the entries of another one.\<close>

lemma push_back_other:
  assumes "rlist h l xs" and "rlist h m ys" and "set (l # xs) \<inter> set (m # ys) = {}" and "i \<notin> set (m # ys)"
  shows "rlist (rlist_push_back l i h) m ys"
proof -
  have "l_prev h l \<in> set (l # xs)"
    using assms(1) linked_last(1) [of h l xs l] by (auto simp: rlist_def)
  then show ?thesis
    by (intro rlist_frame [OF assms(2)]) (use assms(3,4) in \<open>auto simp: rlist_defs\<close>)
qed

lemma linked_neighbours:
  assumes "linked h a xs b" and "i \<in> set xs"
  shows "l_next h i \<in> set (b # xs)" "l_prev h i \<in> set (a # xs)"
proof -
  obtain ys zs where xs: "xs = ys @ i # zs" using assms(2) by (meson split_list)
  then have "linked h a ys i" "linked h i zs b" using assms(1) by (auto simp: linked_append)
  from linked_last(1) [OF this(1)] linked_last(2) [OF this(2)] xs
  show "l_next h i \<in> set (b # xs)" "l_prev h i \<in> set (a # xs)" by auto
qed

lemma del_other:
  assumes "rlist h l xs" and "rlist h m ys" and "set (l # xs) \<inter> set (m # ys) = {}" and "i \<in> set xs"
  shows "rlist (rlist_del (l_next h i) (l_prev h i) h) m ys"
proof -
  have "l_next h i \<in> set (l # xs)" "l_prev h i \<in> set (l # xs)"
    using linked_neighbours [of h l xs l i] assms(1,4) by (auto simp: rlist_def)
  then show ?thesis
    by (intro rlist_frame [OF assms(2)]) (use assms(3) in \<open>auto simp: rlist_defs\<close>)
qed

section \<open>The interface\<close>

text \<open>
  Two lists of slots over one store, what the encoder relies on when it moves instruction slots
  between the free list and the used list: \<open>rep h l xs\<close> says which entries the list has.
\<close>

locale slot_lists =
  fixes rep :: "'h \<Rightarrow> 'l \<Rightarrow> 'e list \<Rightarrow> bool" and apart :: "'l \<Rightarrow> 'e list \<Rightarrow> 'l \<Rightarrow> 'e list \<Rightarrow> bool"
    and push_back :: "'l \<Rightarrow> 'e \<Rightarrow> 'h \<Rightarrow> 'h" and pop_back :: "'l \<Rightarrow> 'h \<Rightarrow> 'e \<times> 'h" and pop_front :: "'l \<Rightarrow> 'h \<Rightarrow> 'e \<times> 'h"
    and remove :: "'e \<Rightarrow> 'h \<Rightarrow> 'e \<times> 'h"
  assumes apart_move: "apart l (xs @ i # zs) m ys \<Longrightarrow> apart l (xs @ zs) m (ys @ [i])"
    and apart_sym: "apart l xs m ys \<Longrightarrow> apart m ys l xs"
    and pushes: "rep h l (xs @ zs) \<Longrightarrow> rep h m ys \<Longrightarrow> apart l (xs @ i # zs) m ys \<Longrightarrow>
      rep (push_back m i h) m (ys @ [i]) \<and> rep (push_back m i h) l (xs @ zs)"
    and pops_back: "rep h l (xs @ [i]) \<Longrightarrow> rep h m ys \<Longrightarrow> apart l (xs @ [i]) m ys \<Longrightarrow> pop_back l h = (j, h') \<Longrightarrow>
      j = i \<and> rep h' l xs \<and> rep h' m ys"
    and pops_front: "rep h l (i # xs) \<Longrightarrow> rep h m ys \<Longrightarrow> apart l (i # xs) m ys \<Longrightarrow> pop_front l h = (j, h') \<Longrightarrow>
      j = i \<and> rep h' l xs \<and> rep h' m ys"
    and removes: "rep h l (xs @ i # zs) \<Longrightarrow> rep h m ys \<Longrightarrow> apart l (xs @ i # zs) m ys \<Longrightarrow> remove i h = (j, h') \<Longrightarrow>
      rep h' l (xs @ zs) \<and> rep h' m ys"
begin

definition both :: "'h \<Rightarrow> 'l \<Rightarrow> 'e list \<Rightarrow> 'l \<Rightarrow> 'e list \<Rightarrow> bool" where
  "both h l xs m ys \<longleftrightarrow> rep h l xs \<and> rep h m ys \<and> apart l xs m ys"

text \<open>The last slot of one list becomes the last of the other, as \<open>xd3_iopt_get_slot\<close> moves it.\<close>

lemma move_back:
  assumes "both h l (xs @ [i]) m ys" and "pop_back l h = (j, h')"
  shows "both (push_back m j h') l xs m (ys @ [i])"
proof -
  from pops_back [of h l xs i m ys j h'] assms have "j = i" "rep h' l (xs @ [])" "rep h' m ys"
    by (auto simp: both_def)
  moreover have "apart l (xs @ [i]) m ys" using assms(1) by (simp add: both_def)
  ultimately show ?thesis
    using pushes [of h' l xs "[]" m ys i] apart_move [of l xs i "[]" m ys] by (auto simp: both_def)
qed

text \<open>A slot from anywhere in one list becomes the last of the other, as \<open>xd3_iopt_free\<close> and
  \<open>xd3_iopt_erase\<close> move it.\<close>

lemma move_any:
  assumes "both h l (xs @ i # zs) m ys" and "remove i h = (j, h')"
  shows "both (push_back m i h') l (xs @ zs) m (ys @ [i])"
proof -
  from removes [of h l xs i zs m ys j h'] assms have "rep h' l (xs @ zs)" "rep h' m ys"
    by (auto simp: both_def)
  then show ?thesis
    using assms(1) pushes [of h' l xs zs m ys i] apart_move [of l xs i zs m ys] by (auto simp: both_def)
qed

text \<open>The first slot is taken out and later given back to the other list, as
  \<open>xd3_iopt_flush_instructions\<close> does with an instruction it encodes.\<close>

lemma move_front:
  assumes "both h l (i # xs) m ys" and "pop_front l h = (j, h')"
  shows "both (push_back m j h') l xs m (ys @ [i])"
proof -
  from pops_front [of h l i xs m ys j h'] assms have "j = i" "rep h' l ([] @ xs)" "rep h' m ys"
    by (auto simp: both_def)
  moreover have "apart l ([] @ i # xs) m ys" using assms(1) by (simp add: both_def)
  ultimately show ?thesis
    using pushes [of h' l "[]" xs m ys i] apart_move [of l "[]" i xs m ys] by (auto simp: both_def)
qed

end

definition rlist_apart :: "nat \<Rightarrow> nat list \<Rightarrow> nat \<Rightarrow> nat list \<Rightarrow> bool" where
  "rlist_apart l xs m ys \<longleftrightarrow> distinct (l # m # xs @ ys)"

interpretation rl: slot_lists rlist rlist_apart rlist_push_back rlist_pop_back rlist_pop_front rlist_remove
proof
  fix h l xs zs m ys i
  assume r: "rlist h l (xs @ zs)" "rlist h m ys" and a: "rlist_apart l (xs @ i # zs) m ys"
  then show "rlist (rlist_push_back m i h) m (ys @ [i]) \<and> rlist (rlist_push_back m i h) l (xs @ zs)"
    using push_back_rlist [OF r(2), of i] push_back_other [OF r(2,1), of i]
    by (simp add: rlist_apart_def) blast
next
  fix h l xs i m ys j h'
  assume r: "rlist h l (xs @ [i])" "rlist h m ys" and a: "rlist_apart l (xs @ [i]) m ys"
    and p: "rlist_pop_back l h = (j, h')"
  have "j = i" "rlist h' l xs" using pop_back_rlist [OF r(1)] p by simp_all
  moreover have "rlist h' m ys"
    using p del_other [OF r(1,2), of j] a \<open>j = i\<close> by (auto simp: rlist_pop_back_def rlist_apart_def Let_def)
  ultimately show "j = i \<and> rlist h' l xs \<and> rlist h' m ys" by simp
next
  fix h l i xs m ys j h'
  assume r: "rlist h l (i # xs)" "rlist h m ys" and a: "rlist_apart l (i # xs) m ys"
    and p: "rlist_pop_front l h = (j, h')"
  have "j = i" "rlist h' l xs" using pop_front_rlist [OF r(1)] p by simp_all
  moreover have "rlist h' m ys"
    using p del_other [OF r(1,2), of j] a \<open>j = i\<close> by (auto simp: rlist_pop_front_def rlist_apart_def Let_def)
  ultimately show "j = i \<and> rlist h' l xs \<and> rlist h' m ys" by simp
next
  fix h l xs i zs m ys j h'
  assume r: "rlist h l (xs @ i # zs)" "rlist h m ys" and a: "rlist_apart l (xs @ i # zs) m ys"
    and p: "rlist_remove i h = (j, h')"
  have "rlist h' l (xs @ zs)" using remove_rlist(1) [OF r(1)] p by simp
  moreover have "rlist h' m ys"
    using p del_other [OF r(1,2), of i] a by (auto simp: rlist_remove_def rlist_apart_def)
  ultimately show "rlist h' l (xs @ zs) \<and> rlist h' m ys" by simp
qed (auto simp: rlist_apart_def)

section \<open>Properties\<close>

text \<open>C10: the two slot lists of the encoder behave as lists: the slot \<open>xd3_iopt_get_slot\<close> moves is the
  last free one and becomes the last used one, a slot freed from anywhere in the used list becomes the
  last free one, and neither operation touches any other slot of either list.\<close>

theorem slot_lists_refine:
  assumes "rlist h used (xs @ i # ys)" and "rlist h free (fs @ [f])"
    and "distinct (used # free # (xs @ i # ys) @ fs @ [f])"
  shows "rlist_length used h = Some (of_nat (length (xs @ i # ys))) \<and>
    (case rlist_pop_back free h of (j, h) \<Rightarrow> j = f \<and>
      rlist (rlist_push_back used j h) used (xs @ i # ys @ [f]) \<and> rlist (rlist_push_back used j h) free fs) \<and>
    (case rlist_remove i h of (n, h) \<Rightarrow> n = hd (ys @ [used]) \<and>
      rlist (rlist_push_back free i h) used (xs @ ys) \<and> rlist (rlist_push_back free i h) free (fs @ [f, i]))"
proof (intro conjI)
  have both: "rl.both h free (fs @ [f]) used (xs @ i # ys)" "rl.both h used (xs @ i # ys) free (fs @ [f])"
    using assms by (auto simp: rl.both_def rlist_apart_def)
  show "rlist_length used h = Some (of_nat (length (xs @ i # ys)))" by (rule length_rlist [OF assms(1)])
  show "case rlist_pop_back free h of (j, h) \<Rightarrow> j = f \<and>
      rlist (rlist_push_back used j h) used (xs @ i # ys @ [f]) \<and> rlist (rlist_push_back used j h) free fs"
    using rl.move_back [OF both(1)] pop_back_rlist(1) [OF assms(2)]
    by (cases "rlist_pop_back free h") (simp add: rl.both_def)
  show "case rlist_remove i h of (n, h) \<Rightarrow> n = hd (ys @ [used]) \<and>
      rlist (rlist_push_back free i h) used (xs @ ys) \<and> rlist (rlist_push_back free i h) free (fs @ [f, i])"
    using rl.move_any [OF both(2)] remove_rlist(2) [OF assms(1)]
    by (cases "rlist_remove i h"; cases ys) (simp_all add: rl.both_def)
qed

text \<open>Three slots, used list 0 with slot 2, free list 1 with slots 3 and 4.\<close>

definition links_example :: xd3_links where
  "links_example = \<lparr>l_next = (\<lambda>p. [2, 3, 0, 4, 1] ! p), l_prev = (\<lambda>p. [2, 4, 0, 1, 3] ! p)\<rparr>"

theorem slot_lists_refine_witness:
  "case rlist_pop_back 1 links_example of (i, h) \<Rightarrow> i = 4 \<and>
     rlist (rlist_push_back 0 i h) 0 [2, 4] \<and> rlist (rlist_push_back 0 i h) 1 [3]"
  using slot_lists_refine [of links_example 0 "[]" 2 "[]" 1 "[3]" 4]
  by (simp add: rlist_def links_example_def split: prod.splits)

end
