(* ===== verification/Xd3_Hash.thy ===== *)
theory Xd3_Hash
  imports Xd3_Types Xd3_Util
begin

text \<open>
  The checksums and the hash tables of the string matcher, \<open>xdelta3-hash.h\<close>: the 4-byte checksum of
  the target, the rolling checksum of the source, and the size, shift and mask of a table.  Below
  them: rolling is recomputing, and a hash value is an index of its table.
\<close>

section \<open>Definitions\<close>

definition xd3_hash_multiplier32 :: uint32 where
  "xd3_hash_multiplier32 = 1597334677"

definition xd3_hash_multiplier64 :: "64 word" where
  "xd3_hash_multiplier64 = 1181783497276652981"

text \<open>\<open>UNALIGNED_READ32\<close> on a little-endian machine: the word at the start of the bytes.\<close>

definition UNALIGNED_READ32 :: "uint8 list \<Rightarrow> uint32" where
  "UNALIGNED_READ32 p = ucast (p ! 0) OR push_bit 8 (ucast (p ! 1)) OR push_bit 16 (ucast (p ! 2)) OR
     push_bit 24 (ucast (p ! 3))"

text \<open>The results are the state and the checksum.\<close>

definition xd3_scksum :: "uint8 list \<Rightarrow> usize_t \<Rightarrow> uint32 \<times> uint32" where
  "xd3_scksum base look = (let state = UNALIGNED_READ32 base in (state, state * xd3_hash_multiplier32))"

definition xd3_small_cksum_update :: "uint8 list \<Rightarrow> usize_t \<Rightarrow> uint32 \<times> uint32" where
  "xd3_small_cksum_update base look =
     (let state = UNALIGNED_READ32 (drop 1 base) in (state, state * xd3_hash_multiplier32))"

definition xd3_checksum_hash :: "xd3_hash_cfg \<Rightarrow> usize_t \<Rightarrow> usize_t" where
  "xd3_checksum_hash cfg cksum = drop_bit (unat (hc_shift cfg)) cksum XOR (cksum AND hc_mask cfg)"

fun large_cksum_loop :: "xd3_hash_cfg \<Rightarrow> uint8 list \<Rightarrow> nat \<Rightarrow> nat \<Rightarrow> 64 word \<Rightarrow> 64 word" where
  "large_cksum_loop cfg base 0 i h = h"
| "large_cksum_loop cfg base (Suc n) i h =
     large_cksum_loop cfg base n (i + 1) (h + ucast (base ! i) * hc_powers cfg ! i)"

definition xd3_large64_cksum :: "xd3_hash_cfg \<Rightarrow> uint8 list \<Rightarrow> usize_t \<Rightarrow> 64 word" where
  "xd3_large64_cksum cfg base look = large_cksum_loop cfg base (unat look) 0 0"

definition xd3_large64_cksum_update :: "xd3_hash_cfg \<Rightarrow> 64 word \<Rightarrow> uint8 list \<Rightarrow> usize_t \<Rightarrow> 64 word" where
  "xd3_large64_cksum_update cfg cksum base look =
     xd3_hash_multiplier64 * cksum - hc_multiplier cfg * ucast (base ! 0) + ucast (base ! unat look)"

text \<open>The loop over \<open>i = 3 .. 63\<close>; the argument is the list of the values left.\<close>

fun hashtable_bits_loop :: "usize_t \<Rightarrow> nat list \<Rightarrow> usize_t" where
  "hashtable_bits_loop slots [] = 63"
| "hashtable_bits_loop slots (i # is) =
     (if slots < push_bit i 1 then of_nat i - 1 else hashtable_bits_loop slots is)"

definition xd3_size_hashtable_bits :: "usize_t \<Rightarrow> usize_t" where
  "xd3_size_hashtable_bits slots = hashtable_bits_loop slots [3..<64]"

text \<open>
  \<open>xd3_size_hashtable\<close>.  \<open>powers_loop\<close> is the loop that fills \<open>powers[i]\<close> for \<open>i\<close> below its first
  argument, downwards; its counter is an \<open>int\<close>, to which \<open>look\<close> is converted.
\<close>

fun powers_loop :: "nat \<Rightarrow> usize_t list \<Rightarrow> usize_t list" where
  "powers_loop 0 powers = powers"
| "powers_loop (Suc i) powers = powers_loop i (powers[i := powers ! (i + 1) * xd3_hash_multiplier64])"

definition xd3_size_hashtable ::
  "'a xd3_stream_scheme \<Rightarrow> usize_t \<Rightarrow> usize_t \<Rightarrow> xd3_hash_cfg \<Rightarrow>
     xd3_rvalue \<times> 'a xd3_stream_scheme \<times> xd3_hash_cfg" where
  "xd3_size_hashtable stream slots look cfg =
     (let bits = xd3_size_hashtable_bits slots;
          cfg = cfg\<lparr>hc_size := push_bit (unat bits) 1, hc_shift := 64 - bits,
                    hc_mask := push_bit (unat bits) 1 - 1, hc_look := look\<rparr> in
      case xd3_alloc stream of
        (False, s) \<Rightarrow> (ENOMEM, s, cfg\<lparr>hc_powers := []\<rparr>)
      | (True, s) \<Rightarrow>
          if look = 0 then (C_UNDEFINED, s, cfg\<lparr>hc_powers := []\<rparr>)
          else
            let powers = (replicate (unat look) 0)[unat look - 1 := 1];
                powers = powers_loop (nat (sint (ucast look :: 32 word) - 1)) powers
            in (XD3_OK, s, cfg\<lparr>hc_powers := powers, hc_multiplier := powers ! 0 * xd3_hash_multiplier64\<rparr>))"

section \<open>The table size\<close>

lemma hashtable_bits_loop_bounds:
  "k \<le> 64 \<Longrightarrow> 3 \<le> k \<Longrightarrow> 2 \<le> hashtable_bits_loop slots [k..<64] \<and> hashtable_bits_loop slots [k..<64] \<le> 63"
proof (induction "64 - k" arbitrary: k)
  case (Suc n)
  then have k: "[k..<64] = k # [Suc k..<64]" by (simp add: upt_conv_Cons)
  have "unat (of_nat k - 1 :: usize_t) = k - 1"
    using Suc.prems by (subst unat_sub) (simp_all add: word_le_nat_alt unat_of_nat_64)
  then show ?case
    using Suc k by (auto simp: word_le_nat_alt)
qed simp

lemma hashtable_bits: "2 \<le> xd3_size_hashtable_bits slots" "xd3_size_hashtable_bits slots \<le> 63"
  using hashtable_bits_loop_bounds [of 3 slots] by (simp_all add: xd3_size_hashtable_bits_def)

text \<open>What \<open>xd3_size_hashtable\<close> makes.\<close>

definition hash_ok :: "xd3_hash_cfg \<Rightarrow> bool" where
  "hash_ok cfg \<longleftrightarrow> (\<exists>bits. 2 \<le> bits \<and> bits \<le> 63 \<and> hc_size cfg = 2 ^ bits \<and> hc_mask cfg = 2 ^ bits - 1 \<and>
       hc_shift cfg = of_nat (64 - bits)) \<and>
     length (hc_powers cfg) = unat (hc_look cfg) \<and> 0 < hc_look cfg \<and>
     (\<forall>i < unat (hc_look cfg). hc_powers cfg ! i = xd3_hash_multiplier64 ^ (unat (hc_look cfg) - 1 - i)) \<and>
     hc_multiplier cfg = xd3_hash_multiplier64 ^ unat (hc_look cfg)"

lemma length_powers_loop [simp]: "length (powers_loop n powers) = length powers"
  by (induction n powers rule: powers_loop.induct) simp_all

lemma powers_loop_nth:
  assumes "n < length powers"
  shows "powers_loop n powers ! i =
    (if i < n then xd3_hash_multiplier64 ^ (n - i) * powers ! n else powers ! i)"
  using assms
proof (induction n powers arbitrary: i rule: powers_loop.induct)
  case (2 n powers)
  let ?m = xd3_hash_multiplier64 and ?ps = "powers[n := powers ! (n + 1) * xd3_hash_multiplier64]"
  have IH: "powers_loop n ?ps ! i = (if i < n then ?m ^ (n - i) * ?ps ! n else ?ps ! i)"
    using 2 by simp
  consider "i < n" | "i = n" | "n < i" by linarith
  then show ?case
  proof cases
    case 1
    then have "?m ^ (Suc n - i) = ?m ^ (n - i) * ?m" by (simp add: Suc_diff_le)
    then show ?thesis using 1 IH 2(2) by (simp add: ac_simps)
  qed (use IH 2(2) in simp_all)
qed simp

lemma look_int:
  assumes "look < 2 ^ 31"
  shows "nat (sint (ucast (look :: usize_t) :: 32 word) - 1) = unat look - 1"
proof -
  have l: "unat look < 2 ^ 31" using assms by (simp add: word_less_nat_alt)
  then have u: "unat (ucast look :: 32 word) = unat look"
    by (simp add: unsigned_ucast_eq unsigned_take_bit_eq take_bit_nat_eq_self)
  have l': "uint look < 2 ^ 31" using assms by (simp add: word_less_def)
  have "uint (ucast look :: 32 word) = int (unat look)" by (metis u of_nat_unat)
  then have "sint (ucast look :: 32 word) = int (unat look)"
    using l' signed_take_bit_int_eq_self [of 31 "uint look"] order_trans [of "- 2147483648" 0 "uint look"]
    by (simp add: sint_uint)
  then show ?thesis by arith
qed

lemma size_hashtable_ok:
  assumes "xd3_size_hashtable stream slots look cfg = (ret, s, cfg')" and "0 < look" and "look < 2 ^ 31"
  shows "ret = ENOMEM \<or> ret = XD3_OK \<and> hash_ok cfg' \<and> hc_look cfg' = look"
    "\<exists>n m. s = stream\<lparr>alloc_cnt := n, msg := m\<rparr>"
proof -
  define bits where "bits = unat (xd3_size_hashtable_bits slots)"
  have b: "2 \<le> bits" "bits \<le> 63"
    using hashtable_bits [of slots] by (simp_all add: bits_def word_le_nat_alt)
  have sh: "64 - xd3_size_hashtable_bits slots = of_nat (64 - bits)"
    using b by (simp add: bits_def of_nat_diff)
  have l: "0 < unat look" using assms(2) by (simp add: word_less_nat_alt)
  define ps where "ps = powers_loop (unat look - 1) ((replicate (unat look) 0)[unat look - 1 := 1])"
  have len: "length ps = unat look" by (simp add: ps_def)
  have nth: "ps ! i = xd3_hash_multiplier64 ^ (unat look - 1 - i)" if "i < unat look" for i
    unfolding ps_def using l that by (subst powers_loop_nth) (auto simp: nth_list_update)
  have "ps ! 0 * xd3_hash_multiplier64 = xd3_hash_multiplier64 ^ unat look"
    using nth [of 0] l by (cases "unat look") simp_all
  note mult = this
  have ok: "ret = ENOMEM \<or> ret = XD3_OK \<and> hash_ok cfg' \<and> hc_look cfg' = look"
  proof (cases "xd3_alloc stream")
    case (Pair b u)
    show ?thesis
    proof (cases b)
      case True
      have "look \<noteq> 0" using assms(2) by auto
      then have c: "ret = XD3_OK" "cfg' = cfg\<lparr>hc_size := push_bit bits 1, hc_shift := 64 - xd3_size_hashtable_bits slots,
          hc_mask := push_bit bits 1 - 1, hc_look := look, hc_powers := ps,
          hc_multiplier := ps ! 0 * xd3_hash_multiplier64\<rparr>"
        using assms(1) True Pair unfolding xd3_size_hashtable_def Let_def look_int [OF assms(3)]
          ps_def [symmetric] bits_def [symmetric] by simp_all
      then have "hash_ok cfg'"
        unfolding hash_ok_def using b len nth mult assms(2) sh
        by (auto simp: push_bit_eq_mult intro!: exI [of _ bits])
      then show ?thesis using c by simp
    qed (use assms(1) Pair in \<open>simp add: xd3_size_hashtable_def Let_def\<close>)
  qed
  show "ret = ENOMEM \<or> ret = XD3_OK \<and> hash_ok cfg' \<and> hc_look cfg' = look" by (rule ok)
  show "\<exists>n m. s = stream\<lparr>alloc_cnt := n, msg := m\<rparr>"
    using assms
    by (cases stream) (auto simp: xd3_size_hashtable_def xd3_alloc_def Let_def split: if_splits)
qed

section \<open>Rolling\<close>

lemma large_cksum_loop_sum:
  "large_cksum_loop cfg base n i h = h + (\<Sum>k<n. ucast (base ! (i + k)) * hc_powers cfg ! (i + k))"
proof (induction n arbitrary: i h)
  case (Suc n)
  then show ?case by (simp add: sum.lessThan_Suc_shift del: sum.lessThan_Suc)
qed simp

lemma large_cksum_sum:
  "xd3_large64_cksum cfg base look = (\<Sum>k<unat look. ucast (base ! k) * hc_powers cfg ! k)"
  by (simp add: xd3_large64_cksum_def large_cksum_loop_sum)

lemma cksum_update:
  assumes "hash_ok cfg" and "hc_look cfg = look" and "unat look < length base"
  shows "xd3_large64_cksum_update cfg (xd3_large64_cksum cfg base look) base look =
    xd3_large64_cksum cfg (drop 1 base) look"
proof -
  let ?m = xd3_hash_multiplier64 and ?n = "unat look"
  have n: "0 < ?n" using assms by (simp add: hash_ok_def word_less_nat_alt)
  have p: "hc_powers cfg ! k = ?m ^ (?n - 1 - k)" if "k < ?n" for k
    using assms that by (simp add: hash_ok_def)
  have mult: "hc_multiplier cfg = ?m ^ ?n" using assms by (simp add: hash_ok_def)
  define f where "f k = (ucast (base ! k) :: 64 word) * ?m ^ (?n - k)" for k
  have "?m * xd3_large64_cksum cfg base look = (\<Sum>k<?n. f k)"
    unfolding large_cksum_sum sum_distrib_left f_def
  proof (rule sum.cong [OF refl])
    fix k assume "k \<in> {..<?n}"
    then have k: "k < ?n" "?n - k = Suc (?n - 1 - k)" by auto
    show "?m * (ucast (base ! k) * hc_powers cfg ! k) = ucast (base ! k) * ?m ^ (?n - k)"
      unfolding p [OF k(1)] k(2) by (simp add: ac_simps)
  qed
  also have "\<dots> = f 0 + (\<Sum>k<?n - 1. f (Suc k))"
    using n by (metis Suc_diff_1 sum.lessThan_Suc_shift)
  finally have left: "?m * xd3_large64_cksum cfg base look - ?m ^ ?n * ucast (base ! 0) =
      (\<Sum>k<?n - 1. f (Suc k))"
    by (simp add: f_def ac_simps)
  have "xd3_large64_cksum cfg (drop 1 base) look = (\<Sum>k<?n. f (Suc k))"
    unfolding large_cksum_sum f_def
    using assms(3) p by (intro sum.cong [OF refl]) simp
  also have "\<dots> = (\<Sum>k<?n - 1. f (Suc k)) + f ?n"
    using n by (metis Suc_diff_1 sum.lessThan_Suc)
  finally show ?thesis
    unfolding xd3_large64_cksum_update_def mult left by (simp add: f_def)
qed

section \<open>The index\<close>

lemma checksum_hash_less:
  assumes "hash_ok cfg"
  shows "xd3_checksum_hash cfg cksum < hc_size cfg"
proof -
  obtain bits where b: "bits \<le> 63" "hc_size cfg = 2 ^ bits" "hc_mask cfg = 2 ^ bits - 1"
      "hc_shift cfg = of_nat (64 - bits)"
    using assms by (auto simp: hash_ok_def)
  have sh: "unat (hc_shift cfg) = 64 - bits" using b(4) by (simp add: unat_of_nat_64)
  have m: "(2 :: usize_t) ^ bits - 1 = mask bits" by (simp add: mask_eq_exp_minus_1)
  have "xd3_checksum_hash cfg cksum = take_bit bits (xd3_checksum_hash cfg cksum)"
    unfolding xd3_checksum_hash_def b(3) m sh
    by (rule bit_word_eqI) (use b(1) in \<open>auto simp: bit_simps dest: bit_imp_le_length\<close>)
  then have "unat (xd3_checksum_hash cfg cksum) < 2 ^ bits"
    by (metis take_bit_nat_less_exp unsigned_take_bit_eq)
  then show ?thesis using b(1,2) by (simp add: word_less_nat_alt unat_pow2_64)
qed

section \<open>Properties\<close>

text \<open>C20: with a table configuration made by \<open>xd3_size_hashtable\<close>, moving the source checksum by one
  byte gives the checksum computed afresh at the next position, and every checksum hashes to an index
  of the table.\<close>

theorem large_cksum_rolls:
  assumes "xd3_size_hashtable stream slots look cfg0 = (XD3_OK, s, cfg)" and "0 < look" and "look < 2 ^ 31"
    and "unat look < length base"
  shows "xd3_large64_cksum_update cfg (xd3_large64_cksum cfg base look) base look =
      xd3_large64_cksum cfg (drop 1 base) look \<and>
    xd3_checksum_hash cfg cksum < hc_size cfg"
  using size_hashtable_ok(1) [OF assms(1-3)] cksum_update [of cfg look base] checksum_hash_less [of cfg] assms(4)
  by simp

definition hash_cfg_example :: "xd3_rvalue \<times> xd3_stream \<times> xd3_hash_cfg" where
  "hash_cfg_example = xd3_size_hashtable stream_zero 100 2
     \<lparr>hc_size = 0, hc_shift = 0, hc_mask = 0, hc_look = 0, hc_multiplier = 0, hc_powers = []\<rparr>"

theorem large_cksum_rolls_witness:
  "let cfg = snd (snd hash_cfg_example) in
   xd3_large64_cksum_update cfg (xd3_large64_cksum cfg [1, 2, 3] 2) [1, 2, 3] 2 = xd3_large64_cksum cfg [2, 3] 2 \<and>
   xd3_checksum_hash cfg 12345 < 64"
proof -
  define r where "r = hash_cfg_example"
  have "fst r = XD3_OK" "hc_size (snd (snd r)) = 64" unfolding r_def hash_cfg_example_def by code_simp+
  then have "xd3_size_hashtable stream_zero 100 2 \<lparr>hc_size = 0, hc_shift = 0, hc_mask = 0,
     hc_look = 0, hc_multiplier = 0, hc_powers = []\<rparr> = (XD3_OK, fst (snd r), snd (snd r))"
    by (simp add: r_def hash_cfg_example_def prod_eq_iff)
  from large_cksum_rolls [OF this, of "[1, 2, 3]" 12345] \<open>hc_size (snd (snd r)) = 64\<close>
  show ?thesis by (simp add: r_def Let_def)
qed

text \<open>The low bits of a product are made from the low bits of its factors.\<close>

lemma take_bit_times:
  assumes "n \<le> 32"
  shows "unat (take_bit n (a * b :: uint32)) = (unat (take_bit n a) * unat b) mod 2 ^ n"
proof -
  have d: "(2 :: nat) ^ n dvd 2 ^ 32" by (rule le_imp_power_dvd [OF assms])
  have low: "unat (take_bit n w) = unat w mod 2 ^ n" for w :: uint32
    by (simp only: unsigned_take_bit_eq) (simp only: take_bit_eq_mod)
  have "unat (a * b) = unat a * unat b mod 2 ^ 32" by (simp add: unat_word_ariths)
  then have "unat (take_bit n (a * b)) = unat a * unat b mod 2 ^ 32 mod 2 ^ n" by (simp only: low)
  also have "\<dots> = unat a * unat b mod 2 ^ n" by (rule mod_mod_cancel [OF d])
  also have "\<dots> = (unat (take_bit n a) * unat b) mod 2 ^ n"
    by (simp only: low mod_mult_left_eq)
  finally show ?thesis .
qed

text \<open>The checksum of the target has 32 bits, and the shift is made for 64: for tables of up to $2^{32}$
  entries the shifted part is zero and the hash is the low bits of the product.  These depend on the low
  bits of the four bytes alone.\<close>

lemma small_hash_low_bits:
  assumes "hash_ok cfg" and "hc_size cfg = 2 ^ bits" and "bits \<le> 32"
    and "take_bit bits (UNALIGNED_READ32 p) = take_bit bits (UNALIGNED_READ32 q)"
  shows "xd3_checksum_hash cfg (ucast (snd (xd3_scksum p look))) = xd3_checksum_hash cfg (ucast (snd (xd3_scksum q look)))"
proof -
  obtain b where b: "b \<le> 63" "hc_size cfg = 2 ^ b" "hc_mask cfg = 2 ^ b - 1" "hc_shift cfg = of_nat (64 - b)"
    using assms(1) by (auto simp: hash_ok_def)
  then have "b = bits" using assms(2,3) pow2_64_inj [of b bits] by simp
  note b = b [unfolded this]
  have sh: "unat (hc_shift cfg) = 64 - bits" using b(4) by (simp add: unat_of_nat_64)
  have low: "xd3_checksum_hash cfg (ucast x) = take_bit bits (ucast (x :: uint32))" for x
    unfolding xd3_checksum_hash_def b(3) sh mask_eq_exp_minus_1 [symmetric]
    by (rule bit_word_eqI) (use assms(3) in \<open>auto simp: bit_simps dest: bit_imp_le_length\<close>)
  have "unat (take_bit bits (UNALIGNED_READ32 p * xd3_hash_multiplier32)) =
      unat (take_bit bits (UNALIGNED_READ32 q * xd3_hash_multiplier32))"
    by (simp only: take_bit_times [OF assms(3)] assms(4))
  then have "take_bit bits (UNALIGNED_READ32 p * xd3_hash_multiplier32) =
      take_bit bits (UNALIGNED_READ32 q * xd3_hash_multiplier32)" by (rule unsigned_word_eqI)
  then have "take_bit bits (ucast (UNALIGNED_READ32 p * xd3_hash_multiplier32) :: usize_t) =
      take_bit bits (ucast (UNALIGNED_READ32 q * xd3_hash_multiplier32))"
    by (simp only: unsigned_take_bit_eq [symmetric])
  then show ?thesis by (simp add: low xd3_scksum_def Let_def)
qed

end
