(* ===== verification/Xd3_Encoder.thy ===== *)
theory Xd3_Encoder
  imports Xd3_AddrCache Xd3_Source Xd3_CodeTable Xd3_Adler32 Xd3_Hash
begin

text \<open>
  The state of the encoder: the stream object with the fields only the encoder uses, its constants,
  and the choice of a string matcher and of a stream configuration.
\<close>

section \<open>State\<close>

text \<open>
  \<open>next_in_null\<close> is the test \<open>next_in == NULL\<close>.  The lists \<open>iopt_used\<close> and \<open>iopt_free\<close> hold the
  contents of their slots, first slot first; \<open>iout\<close> is the instruction the pointer \<open>iout\<close> leads to,
  which is in neither list, or \<open>Iout_dead\<close> when the pointer has outlived the local variable it pointed
  to.  The hash tables are null pointers until they are allocated.  \<open>buf_in\<close> holds the
  \<open>buf_avail\<close> bytes saved in the buffer once there is one, and \<open>buf_leftover\<close> the input left over.
  \<open>enc_current\<close> is the chain of pages from the one being output.
\<close>

datatype xd3_iout = Iout_none | Iout xd3_rinst | Iout_dead

record xd3_encoder = xd3_outputs +
  next_in_null :: bool
  smatcher :: xd3_smatcher
  large_table :: "usize_t list option"
  large_hash :: xd3_hash_cfg
  small_table :: "usize_t list option"
  small_prev :: "usize_t list option"
  small_reset :: bool
  small_hash :: xd3_hash_cfg
  taroff :: usize_t
  input_position :: usize_t
  min_match :: usize_t
  unencoded_offset :: usize_t
  srcwin_decided :: bool
  srcwin_decided_early :: bool
  srcwin_cksum_pos :: xoff_t
  match_state :: xd3_match_state
  match_srcpos :: xoff_t
  match_last_srcpos :: xoff_t
  match_minaddr :: xoff_t
  match_maxaddr :: xoff_t
  match_back :: usize_t
  match_maxback :: usize_t
  match_fwd :: usize_t
  match_maxfwd :: usize_t
  maxsrcaddr :: xoff_t
  buf_in :: "uint8 list option"
  buf_leftover :: "uint8 list option"
  enc_current :: "xd3_output list"
  recode_adler32 :: uint32
  iopt_used :: "xd3_rinst list"
  iopt_free :: "xd3_rinst list"
  iout :: xd3_iout
  enc_appheader :: "uint8 list option"
  n_scpy :: xoff_t
  n_tcpy :: xoff_t
  n_add :: xoff_t
  n_run :: xoff_t
  l_scpy :: xoff_t
  l_tcpy :: xoff_t
  l_add :: xoff_t
  l_run :: xoff_t
  source_copy_highwater :: xoff_t
  source_window_min :: xoff_t
  i_slots_used :: usize_t

definition avail_in :: "'a xd3_stream_scheme \<Rightarrow> usize_t" where
  "avail_in s = of_nat (length (next_in s))"

definition rinst_zero :: xd3_rinst where
  "rinst_zero = \<lparr>ri_type = 0, ri_xtra = 0, ri_code1 = 0, ri_code2 = 0, ri_pos = 0, ri_size = 0, ri_addr = 0\<rparr>"

definition hash_cfg_zero :: xd3_hash_cfg where
  "hash_cfg_zero = \<lparr>hc_size = 0, hc_shift = 0, hc_mask = 0, hc_look = 0, hc_multiplier = 0, hc_powers = []\<rparr>"

definition smatcher_zero :: xd3_smatcher where
  "smatcher_zero = \<lparr>sm_name = '''', large_look = 0, large_step = 0, small_look = 0, small_chain = 0,
     small_lchain = 0, max_lazy = 0, long_enough = 0\<rparr>"

definition encoder_zero :: xd3_encoder where
  "encoder_zero = xd3_outputs.extend outputs_zero
     \<lparr> next_in_null = True, smatcher = smatcher_zero, large_table = None, large_hash = hash_cfg_zero,
       small_table = None, small_prev = None, small_reset = False, small_hash = hash_cfg_zero,
       taroff = 0, input_position = 0, min_match = 0, unencoded_offset = 0, srcwin_decided = False,
       srcwin_decided_early = False, srcwin_cksum_pos = 0, match_state = MATCH_TARGET,
       match_srcpos = 0, match_last_srcpos = 0, match_minaddr = 0, match_maxaddr = 0,
       match_back = 0, match_maxback = 0, match_fwd = 0, match_maxfwd = 0, maxsrcaddr = 0,
       buf_in = None, buf_leftover = None, enc_current = [], recode_adler32 = 0, iopt_used = [],
       iopt_free = [], iout = Iout_none, enc_appheader = None, n_scpy = 0, n_tcpy = 0, n_add = 0,
       n_run = 0, l_scpy = 0, l_tcpy = 0, l_add = 0, l_run = 0, source_copy_highwater = 0,
       source_window_min = 0, i_slots_used = 0 \<rparr>"

text \<open>The input interface; a null pointer never becomes one again.\<close>

definition enc_avail_input :: "uint8 list \<Rightarrow> xd3_encoder \<Rightarrow> xd3_encoder" where
  "enc_avail_input idata s = (xd3_avail_input idata s)\<lparr>next_in_null := False\<rparr>"

text \<open>\<open>next_out\<close> with \<open>avail_out\<close> bytes: the page being output.\<close>

definition enc_next_out :: "xd3_encoder \<Rightarrow> uint8 list" where
  "enc_next_out s = (if avail_out s = 0 then [] else out_base (hd (enc_current s)))"

definition xd3_encoder_used_source :: "'a xd3_stream_scheme \<Rightarrow> bool" where
  "xd3_encoder_used_source stream \<longleftrightarrow> (case src stream of None \<Rightarrow> False | Some s \<Rightarrow> srclen s > 0)"

definition xd3_set_appheader :: "xd3_encoder \<Rightarrow> uint8 list option \<Rightarrow> xd3_encoder" where
  "xd3_set_appheader s data = s\<lparr>enc_appheader := data\<rparr>"

section \<open>String matchers\<close>

text \<open>
  The matchers of \<open>xdelta3-cfgs.h\<close>.  The template is compiled with the same constants as the table
  entry holds, so the matching function reads them from the entry.
\<close>

definition smatcher_fastest :: xd3_smatcher where
  "smatcher_fastest = \<lparr>sm_name = ''fastest'', large_look = 9, large_step = 26, small_look = 4,
     small_chain = 1, small_lchain = 1, max_lazy = 6, long_enough = 6\<rparr>"

definition smatcher_faster :: xd3_smatcher where
  "smatcher_faster = \<lparr>sm_name = ''faster'', large_look = 9, large_step = 15, small_look = 4,
     small_chain = 1, small_lchain = 1, max_lazy = 18, long_enough = 18\<rparr>"

definition smatcher_fast :: xd3_smatcher where
  "smatcher_fast = \<lparr>sm_name = ''fast'', large_look = 9, large_step = 8, small_look = 4,
     small_chain = 4, small_lchain = 1, max_lazy = 18, long_enough = 35\<rparr>"

definition smatcher_slow :: xd3_smatcher where
  "smatcher_slow = \<lparr>sm_name = ''slow'', large_look = 9, large_step = 2, small_look = 4,
     small_chain = 44, small_lchain = 13, max_lazy = 90, long_enough = 70\<rparr>"

definition smatcher_default :: xd3_smatcher where
  "smatcher_default = \<lparr>sm_name = ''default'', large_look = 9, large_step = 3, small_look = 4,
     small_chain = 8, small_lchain = 2, max_lazy = 36, long_enough = 70\<rparr>"

section \<open>Configuration\<close>

text \<open>\<open>XD3_SMATCH_OTHER\<close> stands for a value outside the enumeration.\<close>

datatype xd3_smatch_cfg =
    XD3_SMATCH_DEFAULT | XD3_SMATCH_SLOW | XD3_SMATCH_FAST | XD3_SMATCH_FASTER
  | XD3_SMATCH_FASTEST | XD3_SMATCH_SOFT | XD3_SMATCH_OTHER

record xd3_config =
  cfg_winsize :: usize_t
  cfg_sprevsz :: usize_t
  cfg_iopt_size :: usize_t
  cfg_getblk :: "(xd3_source \<Rightarrow> xoff_t \<Rightarrow> xd3_rvalue \<times> xd3_source) option"
  cfg_alloc :: "nat \<Rightarrow> bool"
  cfg_flags :: uint32
  cfg_sec_data :: xd3_sec_cfg
  cfg_sec_inst :: xd3_sec_cfg
  cfg_sec_addr :: xd3_sec_cfg
  cfg_smatch :: xd3_smatch_cfg
  cfg_smatcher_soft :: xd3_smatcher

abbreviation (input) XD3_DEFAULT_WINSIZE :: usize_t where "XD3_DEFAULT_WINSIZE \<equiv> 0x800000"
abbreviation (input) XD3_DEFAULT_SPREVSZ :: usize_t where "XD3_DEFAULT_SPREVSZ \<equiv> 0x40000"
abbreviation (input) IOPT_SLOTS :: usize_t where "IOPT_SLOTS \<equiv> 341"
abbreviation (input) XD3_COMPLEVEL_SHIFT :: nat where "XD3_COMPLEVEL_SHIFT \<equiv> 20"
abbreviation (input) XD3_COMPLEVEL_MASK :: uint32 where "XD3_COMPLEVEL_MASK \<equiv> 0xF00000"

text \<open>
  \<open>xd3_config_stream\<close>.  The first part sets the fields encoder and decoder share, the second chooses
  the string matcher.  The matcher's fields are still zero when \<open>sprevsz\<close> is checked.  The sizes of the
  integer types are those of the build, so of the check of static sizes only the power of two is left.
\<close>

definition config_sizes :: "xd3_config \<Rightarrow> 'a xd3_stream_scheme \<Rightarrow> xd3_rvalue \<times> 'a xd3_stream_scheme" where
  "config_sizes config s =
     (let s = s\<lparr>winsize := if cfg_winsize config \<noteq> 0 then cfg_winsize config else XD3_DEFAULT_WINSIZE,
                sprevsz := if cfg_sprevsz config \<noteq> 0 then cfg_sprevsz config else XD3_DEFAULT_SPREVSZ\<rparr> in
      if winsize s > XD3_MAXSRCWINSZ
      then (XD3_INVALID, s\<lparr>msg := Some ''winsize exceeds the maximum source window size''\<rparr>)
      else
        let s = (if cfg_iopt_size config = 0 then s\<lparr>iopt_size := IOPT_SLOTS, iopt_unlimited := True\<rparr>
                 else s\<lparr>iopt_size := cfg_iopt_size config\<rparr>);
            s = s\<lparr>getblk := cfg_getblk config, alloc := cfg_alloc config, flags := cfg_flags config,
                  sec_data := (cfg_sec_data config)\<lparr>data_type := DATA_SECTION\<rparr>,
                  sec_inst := (cfg_sec_inst config)\<lparr>data_type := INST_SECTION\<rparr>,
                  sec_addr := (cfg_sec_addr config)\<lparr>data_type := ADDR_SECTION\<rparr>\<rparr> in
        if fst (xd3_check_pow2 XD3_ALLOCSIZE) \<noteq> XD3_OK
        then (XD3_INTERNAL, s\<lparr>msg := Some ''incorrect compilation: wrong integer sizes''\<rparr>)
        else (XD3_OK, s))"

definition config_secondary ::
  "(usize_t \<Rightarrow> xd3_sec_type option) \<Rightarrow> 'a xd3_stream_scheme \<Rightarrow> xd3_rvalue \<times> 'a xd3_stream_scheme" where
  "config_secondary secs s =
     (let t = flags s AND XD3_SEC_TYPE in
      if t = 0 then
        if flags s AND XD3_SEC_NOALL \<noteq> 0
        then (XD3_INTERNAL, s\<lparr>msg := Some ''XD3_SEC flags require a secondary compressor type''\<rparr>)
        else (XD3_OK, s)
      else if t = XD3_SEC_FGK then choose_secondary secs 16 ''FGK Adaptive Huffman'' s
      else if t = XD3_SEC_DJW then choose_secondary secs 1 ''DJW Static Huffman'' s
      else if t = XD3_SEC_LZMA then choose_secondary secs 2 ''LZMA'' s
      else (XD3_INTERNAL, s\<lparr>msg := Some ''too many secondary compressor types set''\<rparr>))"

definition config_sprev :: "xd3_smatcher \<Rightarrow> 'a xd3_stream_scheme \<Rightarrow> xd3_rvalue \<times> 'a xd3_stream_scheme" where
  "config_sprev sm s =
     (if small_chain sm = 1 \<and> small_lchain sm = 1 then (XD3_OK, s\<lparr>sprevsz := 0\<rparr>)
      else if fst (xd3_check_pow2 (sprevsz s)) \<noteq> XD3_OK
      then (XD3_INTERNAL, s\<lparr>msg := Some ''sprevsz is required to be a power of two''\<rparr>)
      else (XD3_OK, s\<lparr>sprevmask := sprevsz s - 1\<rparr>))"

definition smatcher_of_level :: "uint32 \<Rightarrow> xd3_smatcher" where
  "smatcher_of_level level =
     (if level = 1 then smatcher_fastest
      else if level = 2 then smatcher_faster
      else if level = 3 \<or> level = 4 \<or> level = 5 then smatcher_fast
      else if level = 6 then smatcher_default
      else smatcher_slow)"

definition config_smatcher :: "xd3_config \<Rightarrow> xd3_encoder \<Rightarrow> xd3_rvalue \<times> xd3_encoder" where
  "config_smatcher config s =
     xd3_try
       (case cfg_smatch config of
          XD3_SMATCH_SOFT \<Rightarrow>
            (let sm = (cfg_smatcher_soft config)\<lparr>sm_name := ''soft''\<rparr>; s = s\<lparr>smatcher := sm\<rparr> in
             if large_look sm < 4 \<or> large_step sm < 1 \<or> small_look sm < 4
             then (XD3_INVALID, s\<lparr>msg := Some ''invalid soft string-match config''\<rparr>)
             else (XD3_OK, s))
        | XD3_SMATCH_DEFAULT \<Rightarrow> (XD3_OK, s\<lparr>smatcher := smatcher_default\<rparr>)
        | XD3_SMATCH_SLOW \<Rightarrow> (XD3_OK, s\<lparr>smatcher := smatcher_slow\<rparr>)
        | XD3_SMATCH_FASTEST \<Rightarrow> (XD3_OK, s\<lparr>smatcher := smatcher_fastest\<rparr>)
        | XD3_SMATCH_FASTER \<Rightarrow> (XD3_OK, s\<lparr>smatcher := smatcher_faster\<rparr>)
        | XD3_SMATCH_FAST \<Rightarrow> (XD3_OK, s\<lparr>smatcher := smatcher_fast\<rparr>)
        | XD3_SMATCH_OTHER \<Rightarrow> (XD3_INTERNAL, s\<lparr>msg := Some ''invalid string match config type''\<rparr>))
       (\<lambda>s. if cfg_smatch config = XD3_SMATCH_DEFAULT \<and> flags s AND XD3_COMPLEVEL_MASK \<noteq> 0
            then (XD3_OK, s\<lparr>smatcher := smatcher_of_level (drop_bit XD3_COMPLEVEL_SHIFT (flags s AND XD3_COMPLEVEL_MASK))\<rparr>)
            else (XD3_OK, s))"

text \<open>Encoder and decoder use the same function; the encoder gives the matcher's fields a use.  The
  code table description and function are the only ones there are, \<open>rfc3284_code_table_desc\<close> and
  \<open>xd3_rfc3284_code_table\<close>.\<close>

definition xd3_config_stream ::
  "(usize_t \<Rightarrow> xd3_sec_type option) \<Rightarrow> xd3_config \<Rightarrow> xd3_rvalue \<times> xd3_encoder" where
  "xd3_config_stream secs config =
     xd3_try (config_sizes config encoder_zero) (\<lambda>s.
     xd3_try (config_secondary secs s) (\<lambda>s.
     xd3_try (config_sprev (smatcher s) s) (config_smatcher config)))"

end
