(* ===== verification/Xd3_Iopt.thy ===== *)
theory Xd3_Iopt
  imports Xd3_Encoder
begin

text \<open>
  The instruction buffer of the encoder.  Matches enter it as they are found; when it is full, or at
  the end of a window, overlapping instructions are trimmed, ADDs are made for what is not matched,
  and the instructions are written to the data, instruction and address sections.  The slots are moved
  between the used and the free list as \<open>Xd3_List\<close> says.
\<close>

section \<open>The source window\<close>

text \<open>
  \<open>xd3_source_window_update\<close>: the window is doubled until it holds what is retained.
  \<open>MAX_LRU_SIZE\<close> is 32.
\<close>

definition window_retained :: "xoff_t \<Rightarrow> xoff_t \<Rightarrow> xoff_t \<Rightarrow> xoff_t" where
  "window_retained highwater addr window =
     (let block_size = window div 32; block_mask = block_size - 1 in
      (highwater AND NOT block_mask) - (addr AND NOT block_mask) +
      (if highwater AND block_mask \<noteq> 0 then block_size else 0))"

function window_grow :: "xoff_t \<Rightarrow> xoff_t \<Rightarrow> xoff_t \<Rightarrow> xoff_t" where
  "window_grow highwater addr window =
     (if window_retained highwater addr window \<le> window then window
      else window_grow highwater addr (window * 2))"
  by pat_completeness auto

lemma doublings_left:
  assumes "(w :: 64 word) \<noteq> 0"
  shows "(LEAST n. push_bit n (w * 2) = 0) < (LEAST n. push_bit n w = 0)"
proof -
  have "push_bit 64 w = 0" by (rule bit_word_eqI) (simp add: bit_simps)
  then have "(LEAST n. push_bit n w = 0) = Suc (LEAST n. push_bit (Suc n) w = 0)"
    by (rule Least_Suc) (use assms in simp)
  then show ?thesis by (simp add: mult.commute)
qed

termination window_grow
proof (relation "measure (\<lambda>(highwater, addr, window). LEAST n. push_bit n window = 0)", goal_cases)
  case prems: (2 highwater addr window)
  then have "window \<noteq> 0" by (auto simp: window_retained_def Let_def split: if_splits)
  from doublings_left [OF this] show ?case by simp
qed simp

declare window_grow.simps [simp del]

definition xd3_source_window_update :: "xd3_encoder \<Rightarrow> xoff_t \<Rightarrow> usize_t \<Rightarrow> xd3_encoder" where
  "xd3_source_window_update stream addr sz =
     (let window = (if source_window_min stream = 0 then XD3_ALLOCSIZE else source_window_min stream);
          window = (if addr < source_copy_highwater stream
                    then window_grow (source_copy_highwater stream) addr window else window)
      in stream\<lparr>source_window_min := window,
                source_copy_highwater := max (source_copy_highwater stream) (addr + sz)\<rparr>)"

text \<open>
  \<open>xd3_srcwin_setup\<close>.  Where \<open>usize_t\<close> and \<open>xoff_t\<close> both have 64 bits \<open>xd3_to_usize\<close> always
  succeeds, here and below.  \<open>srcwin_done\<close> is the code at the label \<open>done\<close>.
\<close>

definition srcwin_done :: "xd3_encoder \<Rightarrow> xd3_rvalue \<times> xd3_encoder" where
  "srcwin_done stream =
     (case src stream of None \<Rightarrow> (C_UNDEFINED, stream)
      | Some s \<Rightarrow> (XD3_OK, stream\<lparr>taroff := srclen s\<rparr>))"

definition xd3_srcwin_setup :: "xd3_encoder \<Rightarrow> xd3_rvalue \<times> xd3_encoder" where
  "xd3_srcwin_setup stream =
     (case src stream of None \<Rightarrow> (C_UNDEFINED, stream)
      | Some s \<Rightarrow>
          let stream = stream\<lparr>srcwin_decided := True\<rparr> in
          if enc_state stream = ENC_INSTR \<and> match_maxaddr stream = 0 then srcwin_done stream
          else
            let len = match_maxaddr stream - match_minaddr stream in
            if enc_state stream = ENC_INSTR then
              srcwin_done (stream\<lparr>src := Some (s\<lparr>srcbase := match_minaddr stream, srclen := len\<rparr>)\<rparr>)
            else
              let s = s\<lparr>srcbase := match_minaddr stream,
                        srclen := max len (avail_in stream + drop_bit 2 (avail_in stream))\<rparr>;
                  s = (if eof_known s then
                         let remaining = xd3_source_eof s - srcbase s in
                         if remaining < srclen s then s\<lparr>srclen := remaining\<rparr> else s
                       else s)
              in srcwin_done (stream\<lparr>src := Some s\<rparr>))"

section \<open>Emitting instructions\<close>

definition xd3_emit_single :: "xd3_encoder \<Rightarrow> xd3_rinst \<Rightarrow> uint8 \<Rightarrow> xd3_rvalue \<times> xd3_encoder" where
  "xd3_emit_single stream single code =
     (if length (code_table stream) \<le> unat code then (C_UNDEFINED, stream)
      else
        let has_size = size1 (code_table stream ! unat code) = 0 in
        xd3_try (xd3_to_section INST (\<lambda>s chain. xd3_emit_byte s chain code) stream) (\<lambda>s.
          if has_size then xd3_to_section INST (\<lambda>s chain. xd3_emit_size s chain (ri_size single)) s
          else (XD3_OK, s)))"

definition xd3_emit_double ::
  "xd3_encoder \<Rightarrow> xd3_rinst \<Rightarrow> xd3_rinst \<Rightarrow> uint8 \<Rightarrow> xd3_rvalue \<times> xd3_encoder" where
  "xd3_emit_double stream first second code =
     xd3_to_section INST (\<lambda>s chain. xd3_emit_byte s chain code) stream"

definition xd3_iopt_free_nonadd :: "xd3_rinst \<Rightarrow> xd3_encoder \<Rightarrow> xd3_encoder" where
  "xd3_iopt_free_nonadd i stream =
     (if ri_type i \<noteq> XD3_ADD then stream\<lparr>iopt_free := iopt_free stream @ [i]\<rparr> else stream)"

text \<open>
  \<open>xd3_iopt_finish_encoding\<close>, in its order: the address of a copy within the window, the operands of
  the instruction, and the codes.
\<close>

definition copy_srcwin :: "xd3_encoder \<Rightarrow> xd3_rvalue \<times> xd3_encoder" where
  "copy_srcwin stream =
     (case src stream of None \<Rightarrow> (C_UNDEFINED, stream)
      | Some s \<Rightarrow>
          if \<not> srcwin_decided stream then xd3_srcwin_setup stream
          else (XD3_OK, stream\<lparr>srcwin_decided_early :=
                  \<not> eof_known s \<or> srcwin_cksum_pos stream < xd3_source_eof s\<rparr>))"

definition copy_address :: "xd3_rinst \<Rightarrow> xd3_encoder \<Rightarrow> usize_t \<times> xd3_encoder" where
  "copy_address inst stream =
     (case src stream of
        None \<Rightarrow> (ri_addr inst, stream\<lparr>n_tcpy := n_tcpy stream + 1, l_tcpy := l_tcpy stream + ri_size inst\<rparr>)
      | Some s \<Rightarrow>
          if ri_xtra inst \<noteq> 0 then
            (ri_addr inst - srcbase s,
             let stream = (if flags stream AND 0x1000 \<noteq> 0
                           then xd3_source_window_update stream (ri_addr inst) (ri_size inst) else stream)
             in stream\<lparr>n_scpy := n_scpy stream + 1, l_scpy := l_scpy stream + ri_size inst\<rparr>)
          else
            (taroff stream + ri_addr inst,
             stream\<lparr>n_tcpy := n_tcpy stream + 1, l_tcpy := l_tcpy stream + ri_size inst\<rparr>))"

definition finish_copy :: "xd3_rinst \<Rightarrow> xd3_encoder \<Rightarrow> xd3_rvalue \<times> xd3_encoder \<times> xd3_rinst" where
  "finish_copy inst stream =
     (case (if src stream = None then (XD3_OK, stream) else copy_srcwin stream) of
        (ret, s) \<Rightarrow>
          if ret \<noteq> XD3_OK then (ret, s, inst)
          else
            let (addr, s) = copy_address inst s in
            case xd3_encode_address s addr (ri_pos inst + taroff s) (ri_type inst) of
              (ret, s, mode) \<Rightarrow> (ret, s, inst\<lparr>ri_type := mode\<rparr>))"

definition finish_run :: "xd3_rinst \<Rightarrow> xd3_encoder \<Rightarrow> xd3_rvalue \<times> xd3_encoder \<times> xd3_rinst" where
  "finish_run inst stream =
     (case xd3_to_section DATA (\<lambda>s chain. xd3_emit_byte s chain (ri_xtra inst)) stream of
        (ret, s) \<Rightarrow>
          (ret, if ret = XD3_OK then s\<lparr>n_run := n_run s + 1, l_run := l_run s + ri_size inst\<rparr> else s, inst))"

definition finish_add :: "xd3_rinst \<Rightarrow> xd3_encoder \<Rightarrow> xd3_rvalue \<times> xd3_encoder \<times> xd3_rinst" where
  "finish_add inst stream =
     (let pos = unat (ri_pos inst); sz = unat (ri_size inst) in
      if pos + sz > length (next_in stream) then (C_UNDEFINED, stream, inst)
      else
        case xd3_to_section DATA (\<lambda>s chain. xd3_emit_bytes s chain (take sz (drop pos (next_in s)))) stream of
          (ret, s) \<Rightarrow>
            (ret, if ret = XD3_OK then s\<lparr>n_add := n_add s + 1, l_add := l_add s + ri_size inst\<rparr> else s, inst))"

definition finish_operands :: "xd3_rinst \<Rightarrow> xd3_encoder \<Rightarrow> xd3_rvalue \<times> xd3_encoder \<times> xd3_rinst" where
  "finish_operands inst stream =
     (if ri_type inst = XD3_CPY then finish_copy inst stream
      else if ri_type inst = XD3_RUN then finish_run inst stream
      else if ri_type inst = XD3_ADD then finish_add inst stream
      else (XD3_OK, stream, inst))"

definition finish_codes :: "xd3_rinst \<Rightarrow> xd3_encoder \<Rightarrow> xd3_rvalue \<times> xd3_encoder" where
  "finish_codes inst stream =
     (case iout stream of
        Iout_dead \<Rightarrow> (C_UNDEFINED, stream)
      | Iout_none \<Rightarrow> (XD3_OK, stream\<lparr>iout := Iout (snd (xd3_choose_instruction None inst))\<rparr>)
      | Iout p \<Rightarrow>
          (case xd3_choose_instruction (Some p) inst of
             (None, inst) \<Rightarrow> (C_UNDEFINED, stream)
           | (Some p, inst) \<Rightarrow>
               let stream = stream\<lparr>iout := Iout p\<rparr> in
               if ri_code2 p \<noteq> 0 then
                 xd3_try (xd3_emit_double stream p inst (ri_code2 p)) (\<lambda>s.
                   (XD3_OK, (xd3_iopt_free_nonadd inst (xd3_iopt_free_nonadd p s))\<lparr>iout := Iout_none\<rparr>))
               else
                 xd3_try (xd3_emit_single stream p (ri_code1 p)) (\<lambda>s.
                   (XD3_OK, (xd3_iopt_free_nonadd p s)\<lparr>iout := Iout inst\<rparr>))))"

definition xd3_iopt_finish_encoding :: "xd3_encoder \<Rightarrow> xd3_rinst \<Rightarrow> xd3_rvalue \<times> xd3_encoder" where
  "xd3_iopt_finish_encoding stream inst =
     (case finish_operands inst stream of
        (ret, s, inst) \<Rightarrow>
          if ret \<noteq> XD3_OK then (ret, s)
          else finish_codes (inst\<lparr>ri_code2 := 0\<rparr>) (s\<lparr>unencoded_offset := unencoded_offset s + ri_size inst\<rparr>))"

text \<open>
  The ADD before an instruction is a local variable of the caller, which \<open>iout\<close> must not point to when
  the caller returns: ADDs in \<open>iout\<close> are always such variables.
\<close>

definition xd3_iopt_add :: "xd3_encoder \<Rightarrow> usize_t \<Rightarrow> xd3_rvalue \<times> xd3_encoder" where
  "xd3_iopt_add stream pos =
     (let off = unencoded_offset stream in
      if pos > off
      then xd3_iopt_finish_encoding stream (rinst_zero\<lparr>ri_type := XD3_ADD, ri_pos := off, ri_size := pos - off\<rparr>)
      else (XD3_OK, stream))"

definition end_iadd :: "xd3_encoder \<Rightarrow> xd3_encoder" where
  "end_iadd stream =
     (case iout stream of
        Iout i \<Rightarrow> if ri_type i = XD3_ADD then stream\<lparr>iout := Iout_dead\<rparr> else stream
      | _ \<Rightarrow> stream)"

definition xd3_iopt_add_encoding :: "xd3_encoder \<Rightarrow> xd3_rinst \<Rightarrow> xd3_rvalue \<times> xd3_encoder" where
  "xd3_iopt_add_encoding stream inst =
     (case xd3_try (xd3_iopt_add stream (ri_pos inst)) (\<lambda>s. xd3_iopt_finish_encoding s inst) of
        (ret, s) \<Rightarrow> (ret, end_iadd s))"

definition xd3_iopt_add_finalize :: "xd3_encoder \<Rightarrow> xd3_rvalue \<times> xd3_encoder" where
  "xd3_iopt_add_finalize stream =
     (case xd3_try (xd3_iopt_add stream (avail_in stream)) (\<lambda>s.
             case iout s of
               Iout_none \<Rightarrow> (XD3_OK, s)
             | Iout_dead \<Rightarrow> (C_UNDEFINED, s)
             | Iout i \<Rightarrow>
                 xd3_try (xd3_emit_single s i (ri_code1 i)) (\<lambda>s.
                   (XD3_OK, (xd3_iopt_free_nonadd i s)\<lparr>iout := Iout_none\<rparr>))) of
        (ret, s) \<Rightarrow> (ret, end_iadd s))"

section \<open>Choosing instructions\<close>

text \<open>The end of two overlapping instructions that are both kept: one of them or both are shortened.\<close>

definition iopt_split :: "xd3_rinst \<Rightarrow> xd3_rinst \<Rightarrow> xd3_rinst \<times> xd3_rinst" where
  "iopt_split r1 r2 =
     (let r1end = ri_pos r1 + ri_size r1; r2end = ri_pos r2 + ri_size r2;
          gap = r2end - ri_pos r1; average = gap div 2; newsize = min 18 (gap - average);
          (r1, adjust1) =
            (if newsize > ri_size r1 then (r1, r1end - ri_pos r2)
             else if newsize > ri_size r2 then
               (r1\<lparr>ri_size := ri_size r1 - (r1end - ri_pos r2)\<rparr>, 0)
             else
               let adjust1 = ri_size r1 - newsize;
                   adjust1 = (if ri_pos r2 > r1end - adjust1
                              then adjust1 - (ri_pos r2 - (r1end - adjust1)) else adjust1);
                   r1 = r1\<lparr>ri_size := ri_size r1 - adjust1\<rparr>
               in (r1, ri_pos r1 + ri_size r1 - ri_pos r2))
      in (r1, r2\<lparr>ri_size := ri_size r2 - adjust1, ri_pos := ri_pos r2 + adjust1, ri_addr := ri_addr r2 + adjust1\<rparr>))"

text \<open>
  The first loop of \<open>xd3_iopt_flush_instructions\<close>: \<open>kept\<close> are the instructions before \<open>r1\<close>, the next
  argument is the list from \<open>r1\<close> on, and \<open>fr\<close> are the slots freed so far.
\<close>

function (sequential) iopt_compact ::
  "bool \<Rightarrow> xd3_rinst list \<Rightarrow> xd3_rinst list \<Rightarrow> xd3_rinst list \<Rightarrow> xd3_rinst list \<times> xd3_rinst list" where
  "iopt_compact force kept (r1 # r2 # rs) fr =
     (let r1end = ri_pos r1 + ri_size r1 in
      if r1end \<le> ri_pos r2 then iopt_compact force (kept @ [r1]) (r2 # rs) fr
      else
        let r2end = ri_pos r2 + ri_size r2 in
        if rs \<noteq> [] \<and> ri_pos (hd rs) \<le> r1end + 1 then iopt_compact force kept (r1 # rs) (fr @ [r2])
        else if rs = [] \<and> \<not> force then (kept @ [r1, r2], fr)
        else
          let r2off = ri_pos r2 - ri_pos r1; r2moff = r2end - r1end; gap = r2end - ri_pos r1 in
          if gap < 2 * 4 \<or> r2moff \<le> 2 \<or> r2off \<le> 2 then
            if ri_size r1 < ri_size r2 then iopt_compact force kept (r2 # rs) (fr @ [r1])
            else iopt_compact force (kept @ [r1]) rs (fr @ [r2])
          else iopt_compact force (kept @ [fst (iopt_split r1 r2)]) (snd (iopt_split r1 r2) # rs) fr)"
| "iopt_compact force kept rs fr = (kept @ rs, fr)"
  by pat_completeness auto

termination iopt_compact
  by (relation "measure (\<lambda>(force, kept, rs, fr). length rs)") auto

text \<open>The second loop: instructions are encoded, all of them or about half.\<close>

fun iopt_pick :: "bool \<Rightarrow> usize_t \<Rightarrow> xd3_rinst list \<Rightarrow> xd3_encoder \<Rightarrow> xd3_rvalue \<times> xd3_encoder" where
  "iopt_pick force flushed [] stream = (XD3_OK, stream)"
| "iopt_pick force flushed (renc # used) stream =
     xd3_try (xd3_iopt_add_encoding (stream\<lparr>iopt_used := used\<rparr>) renc) (\<lambda>s.
       if force then iopt_pick force flushed used s
       else if flushed + 1 > iopt_size s div 2 then (XD3_OK, s)
       else if length used < 3 then (XD3_OK, s)
       else iopt_pick force (flushed + 1) used s)"

definition xd3_iopt_flush_instructions :: "xd3_encoder \<Rightarrow> bool \<Rightarrow> xd3_rvalue \<times> xd3_encoder" where
  "xd3_iopt_flush_instructions stream force =
     (case iopt_compact force [] (iopt_used stream) [] of
        (used, fr) \<Rightarrow>
          iopt_pick force 0 used (stream\<lparr>iopt_used := used, iopt_free := iopt_free stream @ fr\<rparr>))"

section \<open>Slots\<close>

text \<open>
  \<open>xd3_alloc_iopt\<close>; the contents of a new slot is indeterminate and never read before it is written,
  but for the address of a run, which reaches no output: it is zero here.  The records of the blocks,
  needed to free them, are left out.
\<close>

definition xd3_alloc_iopt :: "xd3_encoder \<Rightarrow> usize_t \<Rightarrow> xd3_rvalue \<times> xd3_encoder" where
  "xd3_alloc_iopt stream elts =
     (case xd3_alloc stream of
        (False, s) \<Rightarrow> (ENOMEM, s)
      | (True, s) \<Rightarrow>
          (case xd3_alloc s of
             (False, s) \<Rightarrow> (ENOMEM, s)
           | (True, s) \<Rightarrow> (XD3_OK, s\<lparr>iopt_free := iopt_free s @ replicate (unat elts) rinst_zero\<rparr>)))"

text \<open>
  \<open>xd3_iopt_get_slot\<close>: the slot is the last one of the used list.  Taking a slot from an empty list is
  undefined.  The second definition writes the new slot.
\<close>

definition xd3_iopt_get_slot :: "xd3_encoder \<Rightarrow> xd3_rvalue \<times> xd3_encoder" where
  "xd3_iopt_get_slot stream =
     xd3_try
       (if iopt_free stream = [] then
          if iopt_unlimited stream then
            xd3_try (xd3_alloc_iopt stream IOPT_SLOTS) (\<lambda>s. (XD3_OK, s\<lparr>iopt_size := iopt_size s + IOPT_SLOTS\<rparr>))
          else xd3_iopt_flush_instructions stream False
        else (XD3_OK, stream))
       (\<lambda>s. if iopt_free s = [] then (C_UNDEFINED, s)
            else (XD3_OK, s\<lparr>iopt_free := butlast (iopt_free s), iopt_used := iopt_used s @ [last (iopt_free s)],
                            i_slots_used := i_slots_used s + 1\<rparr>))"

definition set_slot :: "(xd3_rinst \<Rightarrow> xd3_rinst) \<Rightarrow> xd3_encoder \<Rightarrow> xd3_encoder" where
  "set_slot f stream = stream\<lparr>iopt_used := butlast (iopt_used stream) @ [f (last (iopt_used stream))]\<rparr>"

definition xd3_emit_run :: "xd3_encoder \<Rightarrow> usize_t \<Rightarrow> usize_t \<Rightarrow> uint8 \<Rightarrow> xd3_rvalue \<times> xd3_encoder" where
  "xd3_emit_run stream pos sz run_c =
     xd3_try (xd3_iopt_get_slot stream) (\<lambda>s.
       (XD3_OK, set_slot (\<lambda>ri. ri\<lparr>ri_type := XD3_RUN, ri_xtra := run_c, ri_pos := pos, ri_size := sz\<rparr>) s))"

definition xd3_found_match ::
  "xd3_encoder \<Rightarrow> usize_t \<Rightarrow> usize_t \<Rightarrow> xoff_t \<Rightarrow> bool \<Rightarrow> xd3_rvalue \<times> xd3_encoder" where
  "xd3_found_match stream pos sz addr is_source =
     xd3_try (xd3_iopt_get_slot stream) (\<lambda>s.
       (XD3_OK, set_slot (\<lambda>ri. ri\<lparr>ri_type := XD3_CPY, ri_xtra := (if is_source then 1 else 0),
                                  ri_pos := pos, ri_size := sz, ri_addr := addr\<rparr>) s))"

function xd3_iopt_erase :: "xd3_encoder \<Rightarrow> usize_t \<Rightarrow> usize_t \<Rightarrow> xd3_encoder" where
  "xd3_iopt_erase stream pos sz =
     (if iopt_used stream = [] then stream
      else
        let r = last (iopt_used stream) in
        if ri_pos r < pos then stream
        else xd3_iopt_erase (stream\<lparr>iopt_used := butlast (iopt_used stream), iopt_free := iopt_free stream @ [r],
                                    i_slots_used := i_slots_used stream - 1\<rparr>) pos sz)"
  by pat_completeness auto

termination xd3_iopt_erase
  by (relation "measure (\<lambda>(stream, pos, sz). length (iopt_used stream))") auto

declare xd3_iopt_erase.simps [simp del]

definition xd3_iopt_last_matched :: "xd3_encoder \<Rightarrow> usize_t" where
  "xd3_iopt_last_matched stream =
     (if iopt_used stream = [] then 0
      else ri_pos (last (iopt_used stream)) + ri_size (last (iopt_used stream)))"

end
