(* ===== verification/Xd3_Match.thy ===== *)
theory Xd3_Match
  imports Xd3_Iopt
begin

text \<open>
  Finding matches: extending a match in the source backward and forward over its blocks, the hash
  chains of the target, the indexing of the source, and the loop of the string matcher.  Where the
  code reads beyond the object it reads from, the result is \<open>C_UNDEFINED\<close>.
\<close>

section \<open>Common prefixes\<close>

text \<open>
  \<open>xd3_forward_match\<close> where unaligned reads are allowed: \<open>int_scan\<close> is the condition of the first loop,
  up to eight comparisons of four bytes with their increments, \<open>byte_loop\<close> the second loop.
\<close>

fun int_scan :: "uint8 list \<Rightarrow> uint8 list \<Rightarrow> nat \<Rightarrow> nat \<Rightarrow> bool \<times> nat" where
  "int_scan s1 s2 0 i = (True, i)"
| "int_scan s1 s2 (Suc k) i =
     (if take 4 (drop (4 * i) s1) = take 4 (drop (4 * i) s2) then int_scan s1 s2 k (i + 1) else (False, i + 1))"

lemma int_scan_all: "int_scan s1 s2 k i = (True, j) \<Longrightarrow> j = i + k"
  by (induction k arbitrary: i) (fastforce split: if_splits)+

function int_loop :: "uint8 list \<Rightarrow> uint8 list \<Rightarrow> nat \<Rightarrow> nat \<Rightarrow> nat" where
  "int_loop s1 s2 nint_8 i =
     (if i \<le> nint_8 then
        case int_scan s1 s2 8 i of (True, j) \<Rightarrow> int_loop s1 s2 nint_8 j | (False, j) \<Rightarrow> j
      else i)"
  by pat_completeness auto

termination int_loop
  by (relation "measure (\<lambda>(s1, s2, nint_8, i). nint_8 + 1 - i)") (auto dest: int_scan_all [OF sym])

declare int_loop.simps [simp del]

function byte_loop :: "uint8 list \<Rightarrow> uint8 list \<Rightarrow> nat \<Rightarrow> nat \<Rightarrow> nat" where
  "byte_loop s1 s2 n i = (if i < n \<and> s1 ! i = s2 ! i then byte_loop s1 s2 n (i + 1) else i)"
  by pat_completeness auto

termination byte_loop
  by (relation "measure (\<lambda>(s1, s2, n, i). n - i)") auto

declare byte_loop.simps [simp del]

definition xd3_forward_match :: "uint8 list \<Rightarrow> uint8 list \<Rightarrow> nat \<Rightarrow> nat" where
  "xd3_forward_match s1c s2c n =
     (let nint = n div 4;
          i = (if drop_bit 3 nint \<noteq> 0 then (int_loop s1c s2c (nint - 8) 0 - 1) * 4 else 0)
      in byte_loop s1c s2c n i)"

section \<open>Source matches\<close>

text \<open>\<open>xd3_source_match_setup\<close>: the result is true for 0, success; the labels \<open>good\<close> and \<open>bad\<close> are the
  first two definitions.\<close>

definition match_good :: "xoff_t \<Rightarrow> xd3_encoder \<Rightarrow> bool \<times> xd3_encoder" where
  "match_good srcpos s =
     (True, s\<lparr>match_state := MATCH_BACKWARD, match_srcpos := srcpos, match_last_srcpos := srcpos\<rparr>)"

definition match_bad :: "xoff_t \<Rightarrow> xd3_encoder \<Rightarrow> bool \<times> xd3_encoder" where
  "match_bad srcpos s = (False, s\<lparr>match_state := MATCH_SEARCHING, match_last_srcpos := srcpos\<rparr>)"

definition match_limits :: "xd3_source \<Rightarrow> xoff_t \<Rightarrow> xd3_encoder \<Rightarrow> bool \<times> xd3_encoder" where
  "match_limits source srcpos s =
     (if \<not> srcwin_decided s then
        let s = (if srcpos < match_maxback s then s\<lparr>match_maxback := srcpos\<rparr> else s);
            s = (if eof_known source then
                   let srcavail = xd3_source_eof source - srcpos in
                   if srcavail < match_maxfwd s then s\<lparr>match_maxfwd := srcavail\<rparr> else s
                 else s)
        in match_good srcpos s
      else if srcpos < srcbase source \<or> srcpos > srcbase source + srclen source then match_bad srcpos s
      else
        let srcavail = srcpos - srcbase source;
            s = (if srcavail < match_maxback s then s\<lparr>match_maxback := srcavail\<rparr> else s);
            srcavail = srcbase source + srclen source - srcpos;
            s = (if srcavail < match_maxfwd s then s\<lparr>match_maxfwd := srcavail\<rparr> else s)
        in match_good srcpos s)"

definition xd3_source_match_setup ::
  "xd3_encoder \<Rightarrow> xd3_source \<Rightarrow> xoff_t \<Rightarrow> bool \<times> xd3_encoder" where
  "xd3_source_match_setup stream source srcpos =
     (let s = stream\<lparr>match_back := 0, match_maxback := 0, match_fwd := 0, match_maxfwd := 0\<rparr> in
      if srcpos \<noteq> 0 \<and> srcpos = match_last_srcpos s then match_bad srcpos s
      else if srcpos < srcwin_cksum_pos s \<and> srcwin_cksum_pos s - srcpos > max_winsize source
      then match_bad srcpos s
      else
        let greedy_or_not = (if flags s AND XD3_BEGREEDY \<noteq> 0 then xd3_iopt_last_matched s else unencoded_offset s);
            s = s\<lparr>match_maxback := input_position s - greedy_or_not,
                  match_maxfwd := avail_in s - input_position s\<rparr>
        in match_limits source srcpos s)"

text \<open>
  \<open>xd3_source_extend_match\<close>.  The current block is that of the source after \<open>xd3_getblk\<close>.  The two
  loops end at one of the labels or return.  A block size of zero, which \<open>xd3_set_source\<close> does not
  leave, would keep the backward loop from ending.
\<close>

datatype extend_exit = Goto_doneback | Goto_donefwd | Extend_return xd3_rvalue

definition src_block :: "xd3_encoder \<Rightarrow> uint8 list option" where
  "src_block s = Option.bind (src s) curblk"

fun back_scan :: "uint8 list \<Rightarrow> uint8 list \<Rightarrow> nat \<Rightarrow> nat \<Rightarrow> nat \<Rightarrow> nat option" where
  "back_scan blk inp 0 tryoff streamoff = Some 0"
| "back_scan blk inp (Suc tryrem) tryoff streamoff =
     (if tryoff = 0 \<or> length blk < tryoff \<or> streamoff = 0 \<or> length inp < streamoff then None
      else if blk ! (tryoff - 1) \<noteq> inp ! (streamoff - 1) then Some 0
      else map_option Suc (back_scan blk inp tryrem (tryoff - 1) (streamoff - 1)))"

definition src_blksize :: "xd3_encoder \<Rightarrow> usize_t" where
  "src_blksize s = (case src s of None \<Rightarrow> 0 | Some x \<Rightarrow> blksize x)"

lemma back_scan_le: "back_scan blk inp n i j = Some m \<Longrightarrow> m \<le> n"
  by (induction blk inp n i j arbitrary: m rule: back_scan.induct) (auto split: if_splits)

lemma getblk_stream: "xd3_getblk s blkno = (ret, t) \<Longrightarrow> \<exists>x m. t = s\<lparr>src := x, msg := m\<rparr>"
  by (cases s) (auto simp: xd3_getblk_def Let_def split: option.splits prod.splits if_splits)

function extend_back :: "xoff_t \<Rightarrow> usize_t \<Rightarrow> usize_t \<Rightarrow> xd3_encoder \<Rightarrow> extend_exit \<times> xd3_encoder" where
  "extend_back tryblk tryoff streamoff s =
     (if match_back s < match_maxback s then
        let tryblk' = (if tryoff = 0 then tryblk - 1 else tryblk);
            tryoff' = (if tryoff = 0 then src_blksize s else tryoff) in
        case xd3_getblk s tryblk' of
          (ret, s) \<Rightarrow>
            if ret \<noteq> XD3_OK then
              if ret = XD3_TOOFARBACK
              then (if match_back s = 0 then Goto_donefwd else Goto_doneback, s)
              else (Extend_return ret, s)
            else
              let tryrem = min tryoff' (match_maxback s - match_back s) in
              if tryrem = 0 then (Extend_return C_DIVERGES, s)
              else
                (case src_block s of
                  None \<Rightarrow> (Extend_return C_UNDEFINED, s)
                | Some blk \<Rightarrow>
                    (case back_scan blk (next_in s) (unat tryrem) (unat tryoff') (unat streamoff) of
                       None \<Rightarrow> (Extend_return C_UNDEFINED, s)
                     | Some m \<Rightarrow>
                         let s = s\<lparr>match_back := match_back s + of_nat m\<rparr> in
                         if m < unat tryrem then (Goto_doneback, s)
                         else extend_back tryblk' (tryoff' - of_nat m) (streamoff - of_nat m) s))
      else (Goto_doneback, s))"
  by pat_completeness auto

lemma add_within:
  assumes "(a :: 64 word) < b" and "r \<noteq> 0" and "r \<le> b - a"
  shows "unat b - unat (a + r) < unat b - unat a"
proof -
  have ba: "unat (b - a) = unat b - unat a" using assms(1) by (intro unat_sub) simp
  then have r: "unat a + unat r \<le> unat b" using assms by (simp add: word_le_nat_alt word_less_nat_alt)
  then have "unat (a + r) = unat a + unat r"
    by (intro unat_plus_64) (use unat_bound_64 [of b] in simp)
  moreover have "0 < unat r" using assms(2) by (simp add: unat_gt_0)
  ultimately show ?thesis using assms(1) by (simp add: word_less_nat_alt)
qed

termination extend_back
proof (relation "measure (\<lambda>(b, off, soff, s). unat (match_maxback s) - unat (match_back s))", goal_cases)
  case prems: (2 tryblk tryoff streamoff s x xa ret y r blk m z)
  then obtain w mm where t: "y = s\<lparr>src := w, msg := mm\<rparr>" using getblk_stream by metis
  have "m \<le> unat r" using prems by (intro back_scan_le) auto
  then have "of_nat m = r" using prems by simp
  then show ?case using prems t add_within [of "match_back s" "match_maxback s" r] by simp
qed simp

declare extend_back.simps [simp del]

function extend_fwd :: "xoff_t \<Rightarrow> usize_t \<Rightarrow> usize_t \<Rightarrow> xd3_encoder \<Rightarrow> extend_exit \<times> xd3_encoder" where
  "extend_fwd tryblk tryoff streamoff s =
     (if match_fwd s < match_maxfwd s then
        let tryblk' = (if tryoff = src_blksize s then tryblk + 1 else tryblk);
            tryoff' = (if tryoff = src_blksize s then 0 else tryoff) in
        case xd3_getblk s tryblk' of
          (ret, s) \<Rightarrow>
            if ret \<noteq> XD3_OK then
              if ret = XD3_TOOFARBACK then (Goto_donefwd, s) else (Extend_return ret, s)
            else
              (case src s of None \<Rightarrow> (Extend_return C_UNDEFINED, s)
               | Some x \<Rightarrow>
                   let tryrem = min (match_maxfwd s - match_fwd s) (onblk x - tryoff') in
                   if tryrem = 0 then (Goto_donefwd, s)
                   else
                     (case curblk x of None \<Rightarrow> (Extend_return C_UNDEFINED, s)
                      | Some blk \<Rightarrow>
                          if unat tryoff' + unat tryrem > length blk \<or>
                             unat streamoff + unat tryrem > length (next_in s)
                          then (Extend_return C_UNDEFINED, s)
                          else
                            let m = xd3_forward_match (drop (unat tryoff') blk) (drop (unat streamoff) (next_in s))
                                      (unat tryrem);
                                s = s\<lparr>match_fwd := match_fwd s + of_nat m\<rparr> in
                            if tryrem \<noteq> of_nat m then (Goto_donefwd, s)
                            else extend_fwd tryblk' (tryoff' + of_nat m) (streamoff + of_nat m) s))
      else (Goto_donefwd, s))"
  by pat_completeness auto

termination extend_fwd
proof (relation "measure (\<lambda>(b, off, soff, s). unat (match_maxfwd s) - unat (match_fwd s))", goal_cases)
  case prems: (2 tryblk tryoff streamoff s x xa ret y source r blk m z)
  then obtain w mm where t: "y = s\<lparr>src := w, msg := mm\<rparr>" using getblk_stream by metis
  then show ?case using prems add_within [of "match_fwd s" "match_maxfwd s" r] by simp
qed simp

declare extend_fwd.simps [simp del]

text \<open>From the label \<open>donefwd\<close>: whether the match is taken.\<close>

definition extend_take :: "xd3_encoder \<Rightarrow> xd3_rvalue \<times> xd3_encoder" where
  "extend_take s =
     (let total = match_fwd s + match_back s; target_position = input_position s - match_back s;
          match_length = match_back s + match_fwd s; match_position = match_srcpos s - match_back s;
          match_end = match_srcpos s + match_fwd s;
          s = (if match_back s > 0 then xd3_iopt_erase s target_position total else s);
          s = s\<lparr>match_back := 0\<rparr>;
          s = (if match_maxaddr s = 0 \<or> match_position < match_minaddr s
               then s\<lparr>match_minaddr := match_position\<rparr> else s);
          s = (if match_end > match_maxaddr s then s\<lparr>match_maxaddr := match_end\<rparr> else s);
          s = (if match_end > maxsrcaddr s then s\<lparr>maxsrcaddr := match_end\<rparr> else s) in
      xd3_try (xd3_found_match s target_position match_length match_position True) (\<lambda>s.
        if target_position + match_length = avail_in s
        then (XD3_OK, s\<lparr>match_state := MATCH_TARGET, match_srcpos := match_end\<rparr>)
        else (XD3_OK, s)))"

definition extend_done :: "xd3_encoder \<Rightarrow> xd3_rvalue \<times> xd3_encoder" where
  "extend_done s =
     (let s = s\<lparr>match_state := MATCH_SEARCHING\<rparr> in
      if match_fwd s < min_match s then (XD3_OK, s\<lparr>match_fwd := 0\<rparr>) else extend_take s)"

definition extend_forward :: "xd3_encoder \<Rightarrow> xd3_rvalue \<times> xd3_encoder" where
  "extend_forward s =
     (case src s of None \<Rightarrow> (C_UNDEFINED, s)
      | Some x \<Rightarrow>
          (case xd3_blksize_div (match_srcpos s + match_fwd s) x of
             (tryblk, tryoff) \<Rightarrow>
               (case extend_fwd tryblk tryoff (input_position s + match_fwd s) s of
                  (Extend_return ret, s) \<Rightarrow> (ret, s) | (_, s) \<Rightarrow> extend_done s)))"

definition xd3_source_extend_match :: "xd3_encoder \<Rightarrow> xd3_rvalue \<times> xd3_encoder" where
  "xd3_source_extend_match s =
     (case src s of None \<Rightarrow> (C_UNDEFINED, s)
      | Some x \<Rightarrow>
          if match_state s = MATCH_BACKWARD then
            (case xd3_blksize_div (match_srcpos s - match_back s) x of
               (tryblk, tryoff) \<Rightarrow>
                 (case extend_back tryblk tryoff (input_position s - match_back s) s of
                    (Extend_return ret, s) \<Rightarrow> (ret, s)
                  | (Goto_donefwd, s) \<Rightarrow> extend_done s
                  | (Goto_doneback, s) \<Rightarrow> extend_forward (s\<lparr>match_state := MATCH_FORWARD\<rparr>)))
          else extend_forward s)"

section \<open>Longest common prefixes\<close>

fun common :: "'a list \<Rightarrow> 'a list \<Rightarrow> nat" where
  "common (x # xs) (y # ys) = (if x = y then Suc (common xs ys) else 0)"
| "common _ _ = 0"

lemma common_le: "common xs ys \<le> length xs" "common xs ys \<le> length ys"
  by (induction xs ys rule: common.induct) auto

lemma common_take: "take (common xs ys) xs = take (common xs ys) ys"
  by (induction xs ys rule: common.induct) auto

lemma common_maximal: "common xs ys < length xs \<Longrightarrow> common xs ys < length ys \<Longrightarrow> xs ! common xs ys \<noteq> ys ! common xs ys"
  by (induction xs ys rule: common.induct) auto

lemma common_append: "length xs = length ys \<Longrightarrow> xs = ys \<Longrightarrow> common (xs @ us) (ys @ vs) = length xs + common us vs"
  by (induction xs ys rule: list_induct2) auto

lemma byte_loop_common:
  assumes "i \<le> n" and "n \<le> length s1" and "n \<le> length s2"
  shows "byte_loop s1 s2 n i = i + common (drop i (take n s1)) (drop i (take n s2))"
  using assms
proof (induction s1 s2 n i rule: byte_loop.induct)
  case (1 s1 s2 n i)
  show ?case
  proof (cases "i < n")
    case True
    then have d: "drop i (take n s1) = s1 ! i # drop (i + 1) (take n s1)"
      "drop i (take n s2) = s2 ! i # drop (i + 1) (take n s2)"
      using 1(3,4) by (simp_all add: Cons_nth_drop_Suc [symmetric])
    show ?thesis
      using 1 True by (subst byte_loop.simps) (simp add: d)
  qed (use 1 in \<open>subst byte_loop.simps; simp\<close>)
qed

lemma take_4_more:
  assumes "take (4 * i) s1 = take (4 * i) s2" and "take 4 (drop (4 * i) s1) = take 4 (drop (4 * i) s2)"
  shows "take (4 * (i + 1)) s1 = take (4 * (i + 1)) s2"
proof -
  have "take (4 * (i + 1)) s = take (4 * i) s @ take 4 (drop (4 * i) s)" for s :: "'a list"
    using take_add [of "4 * i" 4 s] by (simp add: algebra_simps)
  then show ?thesis using assms by simp
qed

lemma int_scan_prefix:
  assumes "int_scan s1 s2 k i = (b, j)" and "take (4 * i) s1 = take (4 * i) s2"
  shows "(if b then take (4 * j) s1 = take (4 * j) s2 else 0 < j \<and> take (4 * (j - 1)) s1 = take (4 * (j - 1)) s2) \<and>
    i \<le> j \<and> j \<le> i + k"
  using assms
proof (induction s1 s2 k i rule: int_scan.induct)
  case (2 s1 s2 k i)
  show ?case
  proof (cases "take 4 (drop (4 * i) s1) = take 4 (drop (4 * i) s2)")
    case True
    then show ?thesis using 2 take_4_more [OF 2(3) True] by (auto split: if_splits)
  next
    case False
    then show ?thesis using 2 by auto
  qed
qed simp

lemma int_loop_prefix:
  assumes "take (4 * i) s1 = take (4 * i) s2" and "0 < i \<or> i \<le> nint_8" and "i \<le> nint_8 + 8"
  shows "take (4 * (int_loop s1 s2 nint_8 i - 1)) s1 = take (4 * (int_loop s1 s2 nint_8 i - 1)) s2 \<and>
    int_loop s1 s2 nint_8 i \<le> nint_8 + 8"
  using assms
proof (induction s1 s2 nint_8 i rule: int_loop.induct)
  case (1 s1 s2 nint_8 i)
  show ?case
  proof (cases "i \<le> nint_8")
    case True
    obtain b j where r: "int_scan s1 s2 8 i = (b, j)" by fastforce
    note p = int_scan_prefix [OF r 1(2)]
    have j: "b \<Longrightarrow> j = i + 8" using int_scan_all [of s1 s2 8 i j] r by (cases b) auto
    show ?thesis
    proof (cases b)
      case True
      then show ?thesis
        using 1(1) [OF \<open>i \<le> nint_8\<close>] r p j 1(4) \<open>i \<le> nint_8\<close> by (subst (1 2 3) int_loop.simps) simp
    next
      case False
      then show ?thesis using r p \<open>i \<le> nint_8\<close> by (subst (1 2 3) int_loop.simps) simp
    qed
  next
    case False
    have "take (4 * (i - 1)) s1 = take (4 * (i - 1)) s2"
      using arg_cong [OF 1(2), of "take (4 * (i - 1))"] by (simp add: take_take min_def split: if_splits)
    then show ?thesis using False 1(4) by (subst (1 2 3) int_loop.simps) simp
  qed
qed

lemma forward_match_common:
  assumes "n \<le> length s1" and "n \<le> length s2"
  shows "xd3_forward_match s1 s2 n = common (take n s1) (take n s2)"
proof -
  define i where "i = (if drop_bit 3 (n div 4) \<noteq> 0 then (int_loop s1 s2 (n div 4 - 8) 0 - 1) * 4 else 0)"
  have i: "take i s1 = take i s2 \<and> i \<le> n"
  proof (cases "drop_bit 3 (n div 4) \<noteq> 0")
    case True
    then have "8 \<le> n div 4" by (simp add: drop_bit_eq_div)
    then show ?thesis
      using int_loop_prefix [of 0 s1 s2 "n div 4 - 8"] True by (auto simp: i_def mult.commute)
  qed (simp add: i_def)
  then have t: "take i (take n s1) = take i (take n s2)" by (simp add: take_take min_def)
  have "common (take n s1) (take n s2) = common (take i (take n s1) @ drop i (take n s1)) (take i (take n s2) @ drop i (take n s2))"
    by (simp only: append_take_drop_id)
  also have "\<dots> = i + common (drop i (take n s1)) (drop i (take n s2))"
    using common_append [OF _ t] i assms by (simp add: min_def)
  finally have "common (take n s1) (take n s2) = i + common (drop i (take n s1)) (drop i (take n s2))" .
  moreover have "xd3_forward_match s1 s2 n = byte_loop s1 s2 n i"
    by (simp only: xd3_forward_match_def Let_def i_def)
  ultimately show ?thesis using byte_loop_common i assms by simp
qed

section \<open>Properties\<close>

text \<open>C21: \<open>xd3_forward_match\<close>, which compares words and then bytes, finds the length of the longest
  common prefix of its two arguments, cut at \<open>n\<close>: the bytes before agree and the next ones differ.\<close>

theorem forward_match_longest:
  assumes "n \<le> length s1" and "n \<le> length s2"
  shows "xd3_forward_match s1 s2 n \<le> n \<and>
    take (xd3_forward_match s1 s2 n) s1 = take (xd3_forward_match s1 s2 n) s2 \<and>
    (xd3_forward_match s1 s2 n < n \<longrightarrow> s1 ! xd3_forward_match s1 s2 n \<noteq> s2 ! xd3_forward_match s1 s2 n)"
proof -
  define c where "c = common (take n s1) (take n s2)"
  have le: "c \<le> n" using common_le(1) [of "take n s1" "take n s2"] assms by (simp add: c_def)
  have "take c (take n s1) = take c (take n s2)" unfolding c_def by (rule common_take)
  then have "take c s1 = take c s2" using le by (simp add: take_take min_def)
  moreover have "s1 ! c \<noteq> s2 ! c" if "c < n"
    using common_maximal [of "take n s1" "take n s2"] that assms by (simp add: c_def [symmetric])
  ultimately show ?thesis using le forward_match_common [OF assms] by (simp add: c_def)
qed

theorem forward_match_longest_witness:
  "let s1 = replicate 40 7 @ [1, 2]; s2 = replicate 40 7 @ [1, 3]; k = xd3_forward_match s1 s2 42 in
   k \<le> 42 \<and> take k s1 = take k s2 \<and> (k < 42 \<longrightarrow> s1 ! k \<noteq> s2 ! k)"
  unfolding Let_def by (rule forward_match_longest) simp_all

end
