(* ===== verification/Xd3_String_Match.thy ===== *)
theory Xd3_String_Match
  imports Xd3_Match
begin

text \<open>
  The string matcher: the hash table of the target with its chains of earlier positions, the hash table
  of the source, and the template \<open>xd3_string_match_\<close>.
\<close>

section \<open>The tables\<close>

definition xd3_string_match_init :: "xd3_encoder \<Rightarrow> xd3_rvalue \<times> xd3_encoder" where
  "xd3_string_match_init stream =
     xd3_try
       (if src stream \<noteq> None \<and> large_table stream = None then
          case xd3_alloc stream of
            (False, s) \<Rightarrow> (ENOMEM, s)
          | (True, s) \<Rightarrow> (XD3_OK, s\<lparr>large_table := Some (replicate (unat (hc_size (large_hash s))) 0)\<rparr>)
        else (XD3_OK, stream))
       (\<lambda>s.
          if flags s AND XD3_NOCOMPRESS \<noteq> 0 then (XD3_OK, s)
          else if small_table s \<noteq> None then
            if small_reset s then
              (XD3_OK, s\<lparr>small_table := Some (replicate (unat (hc_size (small_hash s))) 0), small_reset := False\<rparr>)
            else (XD3_OK, s)
          else
            case xd3_alloc s of
              (False, s) \<Rightarrow> (ENOMEM, s)
            | (True, s) \<Rightarrow>
                let s = s\<lparr>small_table := Some (replicate (unat (hc_size (small_hash s))) 0)\<rparr> in
                if small_lchain (smatcher s) > 1 \<or> small_chain (smatcher s) > 1 then
                  case xd3_alloc s of
                    (False, s) \<Rightarrow> (ENOMEM, s)
                  | (True, s) \<Rightarrow> (XD3_OK, s\<lparr>small_prev := Some (replicate (unat (sprevsz s)) 0)\<rparr>)
                else (XD3_OK, s))"

text \<open>An entry of a table, and its update; undefined beyond the table and for a null pointer.\<close>

definition table_get :: "usize_t list option \<Rightarrow> usize_t \<Rightarrow> usize_t option" where
  "table_get t i = (case t of None \<Rightarrow> None | Some xs \<Rightarrow> if unat i < length xs then Some (xs ! unat i) else None)"

definition table_put :: "usize_t list option \<Rightarrow> usize_t \<Rightarrow> usize_t \<Rightarrow> usize_t list option" where
  "table_put t i v =
     (case t of None \<Rightarrow> None | Some xs \<Rightarrow> if unat i < length xs then Some (xs[unat i := v]) else None)"

text \<open>
  \<open>xd3_scksum_insert\<close>; table entries are offset by \<open>HASH_CKOFFSET\<close>, 1.  \<open>small_prev\<close> is fresh memory
  of indeterminate contents; an entry is only followed from a position that was inserted, so the zeros
  of the model are never told from it.
\<close>

definition xd3_scksum_insert :: "xd3_encoder \<Rightarrow> usize_t \<Rightarrow> usize_t \<Rightarrow> xd3_rvalue \<times> xd3_encoder" where
  "xd3_scksum_insert stream inx pos =
     (case table_get (small_table stream) inx of
        None \<Rightarrow> (C_UNDEFINED, stream)
      | Some last_pos \<Rightarrow>
          (case (if small_prev stream = None then Some stream
                 else case table_put (small_prev stream) (pos AND sprevmask stream) last_pos of
                        None \<Rightarrow> None | Some t \<Rightarrow> Some (stream\<lparr>small_prev := Some t\<rparr>)) of
             None \<Rightarrow> (C_UNDEFINED, stream)
           | Some s \<Rightarrow> (XD3_OK, s\<lparr>small_table := table_put (small_table s) inx (pos + 1)\<rparr>)))"

section \<open>Matches in the target\<close>

text \<open>
  \<open>xd3_smatch\<close>: from the label \<open>again\<close>, with the base, the chain limit, and the best length and offset
  so far; the result is length and offset.  A base that is not before the input position, which the
  code asserts never to be, is undefined.
\<close>

function smatch_again ::
  "xd3_encoder \<Rightarrow> usize_t \<Rightarrow> usize_t \<Rightarrow> usize_t \<Rightarrow> usize_t \<Rightarrow> (usize_t \<times> usize_t) option" where
  "smatch_again stream base chain match_length match_offset =
     (let inp = next_in stream; pos = unat (input_position stream); n = length inp - pos in
      if \<not> base < input_position stream then None
      else
        let cmp = byte_loop (drop (unat base) inp) (drop pos inp) n 0; cmp_len = of_nat cmp;
            better = cmp_len > match_length;
            match_length' = (if better then cmp_len else match_length);
            match_offset' = (if better then base else match_offset) in
        if better \<and> (cmp = n \<or> cmp_len \<ge> long_enough (smatcher stream)) then Some (match_length', match_offset')
        else if chain - 1 = 0 then Some (match_length', match_offset')
        else
          case table_get (small_prev stream) (base AND sprevmask stream) of
            None \<Rightarrow> None
          | Some prev_pos \<Rightarrow>
              if prev_pos = 0 then Some (match_length', match_offset')
              else if prev_pos - 1 > base then Some (match_length', match_offset')
              else if (input_position stream - (prev_pos - 1)) AND NOT (sprevmask stream) \<noteq> 0
              then Some (match_length', match_offset')
              else smatch_again stream (prev_pos - 1) (chain - 1) match_length' match_offset')"
  by pat_completeness auto

lemma pred_decreases: "(c :: 64 word) \<noteq> 1 \<Longrightarrow> unat (c - 2) < unat (c - 1)"
  using measure_unat [of "c - 1"] by (simp add: algebra_simps)

termination smatch_again
proof (relation "measure (\<lambda>(stream, base, chain, len, off). unat (chain - 1))", goal_cases)
  case prems: (2 stream base chain)
  then have "chain \<noteq> 1" by auto
  from pred_decreases [OF this] show ?case by simp
qed simp

declare smatch_again.simps [simp del]

definition xd3_smatch :: "xd3_encoder \<Rightarrow> usize_t \<Rightarrow> (usize_t \<times> usize_t) option" where
  "xd3_smatch stream base =
     (let chain = (if min_match stream = 4 then small_chain (smatcher stream) else small_lchain (smatcher stream)) in
      case smatch_again stream (base - 1) chain 0 0 of
        None \<Rightarrow> None
      | Some (match_length, match_offset) \<Rightarrow>
          if match_length = 4 \<and> input_position stream - match_offset \<ge> push_bit 14 1 then Some (0, match_offset)
          else if match_length = 5 \<and> input_position stream - match_offset \<ge> push_bit 21 1 then Some (0, match_offset)
          else Some (match_length, match_offset))"

section \<open>Indexing the source\<close>

text \<open>
  \<open>xd3_srcwin_move_point\<close>: the inner loop enters a block's checksums from its end, stepping back to
  \<open>oldpos\<close>; the outer loop goes over the blocks.  \<open>None\<close> means that a loop does not end.  Positions in
  a block are of type \<open>ptrdiff_t\<close>.
\<close>

partial_function (option) index_block ::
  "uint8 list \<Rightarrow> xoff_t \<Rightarrow> int \<Rightarrow> int \<Rightarrow> xd3_encoder \<Rightarrow> (xd3_rvalue \<times> xd3_encoder) option" where
  "index_block blk blkbase oldpos blkpos s =
     (if blkpos < 0 \<or> int (length blk) < blkpos + uint (large_look (smatcher s)) then Some (C_UNDEFINED, s)
      else
        let cksum = xd3_large64_cksum (large_hash s) (drop (nat blkpos) blk) (large_look (smatcher s));
            hval = xd3_checksum_hash (large_hash s) cksum in
        case table_put (large_table s) hval (blkbase + of_int (blkpos + 1)) of
          None \<Rightarrow> Some (C_UNDEFINED, s)
        | Some t \<Rightarrow>
            let s = s\<lparr>large_table := Some t\<rparr>; blkpos = blkpos - sint (large_step (smatcher s)) in
            if blkpos \<ge> oldpos then index_block blk blkbase oldpos blkpos s else Some (XD3_OK, s))"

declare index_block.simps [code]

partial_function (option) move_loop :: "xoff_t \<Rightarrow> xd3_encoder \<Rightarrow> (xd3_rvalue \<times> xd3_encoder) option" where
  "move_loop target_cksum_pos s =
     (case src s of
        None \<Rightarrow> Some (C_UNDEFINED, s)
      | Some x \<Rightarrow>
          if srcwin_cksum_pos s < target_cksum_pos \<and> (\<not> eof_known x \<or> srcwin_cksum_pos s < xd3_source_eof x) then
            (case xd3_blksize_div (srcwin_cksum_pos s) x of
               (blkno, blkrem) \<Rightarrow>
                 (case xd3_getblk s blkno of
                    (ret, s) \<Rightarrow>
                      if ret \<noteq> XD3_OK then Some (if ret = XD3_TOOFARBACK then XD3_INTERNAL else ret, s)
                      else
                        case src s of
                          None \<Rightarrow> Some (C_UNDEFINED, s)
                        | Some x \<Rightarrow>
                            let blkpos = sint (xd3_bytes_on_srcblk x blkno); next_pos = (blkno + 1) * blksize x in
                            if blkpos < sint (large_look (smatcher s))
                            then move_loop target_cksum_pos (s\<lparr>srcwin_cksum_pos := next_pos\<rparr>)
                            else
                              case index_block (case curblk x of None \<Rightarrow> [] | Some b \<Rightarrow> b) (blksize x * blkno) (sint blkrem)
                                     (blkpos - sint (large_look (smatcher s))) s of
                                None \<Rightarrow> None
                              | Some (ret, s) \<Rightarrow>
                                  if ret \<noteq> XD3_OK then Some (ret, s)
                                  else move_loop target_cksum_pos (s\<lparr>srcwin_cksum_pos := next_pos\<rparr>)))
          else Some (XD3_OK, s))"

declare move_loop.simps [code]

definition move_target :: "xd3_source \<Rightarrow> xd3_encoder \<Rightarrow> xoff_t" where
  "move_target x s =
     (let absolute_input_pos = total_in s + input_position s in
      if absolute_input_pos < max_winsize x div 2 then max_winsize x
      else (absolute_input_pos + max_winsize x div 2 + blksize x * 2) AND NOT (maskby x))"

text \<open>The result has the value of \<open>*next_move_point\<close> when the function succeeds.\<close>

definition xd3_srcwin_move_point :: "xd3_encoder \<Rightarrow> xd3_rvalue \<times> xd3_encoder \<times> usize_t" where
  "xd3_srcwin_move_point stream =
     (case src stream of
        None \<Rightarrow> (C_UNDEFINED, stream, 0)
      | Some x \<Rightarrow>
          if eof_known x \<and> srcwin_cksum_pos stream = xd3_source_eof x then (XD3_OK, stream, USIZE_T_MAX)
          else
            let target = move_target x stream;
                s = (if maxsrcaddr stream > srcwin_cksum_pos stream
                     then stream\<lparr>srcwin_cksum_pos := maxsrcaddr stream\<rparr> else stream);
                target = (if target < srcwin_cksum_pos s then srcwin_cksum_pos s else target) in
            case move_loop target s of
              None \<Rightarrow> (C_DIVERGES, s, 0)
            | Some (ret, s) \<Rightarrow>
                if ret \<noteq> XD3_OK then (ret, s, 0)
                else
                  case src s of
                    None \<Rightarrow> (C_UNDEFINED, s, 0)
                  | Some x \<Rightarrow>
                      if eof_known x \<and> srcwin_cksum_pos s \<ge> xd3_source_eof x
                      then (XD3_OK, s\<lparr>srcwin_cksum_pos := xd3_source_eof x\<rparr>, USIZE_T_MAX)
                      else (XD3_OK, s,
                            input_position s + blksize x - ((srcwin_cksum_pos s - target) AND maskby x)))"

section \<open>The matching loop\<close>

text \<open>
  The local variables of the template: the two checksums, the run and the next move point.  \<open>inp\<close> is
  always \<open>next_in + input_position\<close>, and the state of the small checksum is read afresh each time.
  Each piece of the function ends in one of the jumps: to the next statement, to \<open>updateone\<close>, to
  \<open>restartloop\<close>, or it returns.
\<close>

record sm_vars =
  v_scksum :: uint32
  v_lcksum :: usize_t
  v_run_c :: uint8
  v_run_l :: usize_t
  v_next_move_point :: usize_t

datatype sm_jump = Sm_next | Sm_updateone | Sm_restart | Sm_return xd3_rvalue

definition sm_inp :: "xd3_encoder \<Rightarrow> uint8 list" where
  "sm_inp s = drop (unat (input_position s)) (next_in s)"

definition DO_SMALL :: "xd3_encoder \<Rightarrow> bool" where
  "DO_SMALL s \<longleftrightarrow> flags s AND XD3_NOCOMPRESS = 0"

definition DO_LARGE :: "xd3_encoder \<Rightarrow> bool" where
  "DO_LARGE s \<longleftrightarrow> src s \<noteq> None"

definition TRYLAZYLEN :: "xd3_encoder \<Rightarrow> usize_t \<Rightarrow> bool" where
  "TRYLAZYLEN s len \<longleftrightarrow> max_lazy (smatcher s) > 0 \<and> len < max_lazy (smatcher s) \<and>
     input_position s + len \<le> avail_in s - 2"

definition HANDLELAZY :: "usize_t \<Rightarrow> sm_vars \<Rightarrow> xd3_encoder \<Rightarrow> sm_jump \<times> sm_vars \<times> xd3_encoder" where
  "HANDLELAZY mlen v s =
     (if TRYLAZYLEN s mlen then (Sm_updateone, v, s\<lparr>min_match := mlen\<rparr>)
      else (Sm_restart, v, s\<lparr>input_position := input_position s + mlen\<rparr>))"

text \<open>From \<open>restartloop\<close> to the loop.\<close>

definition sm_restart :: "sm_vars \<Rightarrow> xd3_encoder \<Rightarrow> sm_jump \<times> sm_vars \<times> xd3_encoder" where
  "sm_restart v s =
     (let slook = small_look (smatcher s); llook = large_look (smatcher s) in
      if input_position s + slook > avail_in s then (Sm_return XD3_OK, v, s)
      else if length (sm_inp s) < unat slook \<or> length (sm_inp s) < 4 then (Sm_return C_UNDEFINED, v, s)
      else
        let lastm = xd3_iopt_last_matched s;
            s = s\<lparr>min_match := if lastm > input_position s then max 4 (1 + lastm - input_position s) else 4\<rparr>;
            v = (if DO_SMALL s then v\<lparr>v_scksum := snd (xd3_scksum (sm_inp s) slook)\<rparr> else v);
            v = (case xd3_comprun (sm_inp s) slook of (l, c) \<Rightarrow> v\<lparr>v_run_c := c, v_run_l := l\<rparr>) in
        if DO_LARGE s \<and> input_position s + llook \<le> avail_in s then
          (case xd3_srcwin_move_point s of
             (ret, s, nmp) \<Rightarrow>
               if ret \<noteq> XD3_OK then (Sm_return ret, v, s)
               else (Sm_next, v\<lparr>v_lcksum := xd3_large64_cksum (large_hash s) (sm_inp s) llook,
                                v_next_move_point := nmp\<rparr>, s))
        else (Sm_next, v, s))"

text \<open>The run: its length goes on to the first other byte.\<close>

function run_extend :: "uint8 list \<Rightarrow> uint8 \<Rightarrow> usize_t \<Rightarrow> usize_t \<Rightarrow> usize_t" where
  "run_extend inp run_c max_len run_l =
     (if run_l < max_len \<and> inp ! unat run_l = run_c then run_extend inp run_c max_len (run_l + 1) else run_l)"
  by pat_completeness auto

termination run_extend
proof (relation "measure (\<lambda>(inp, run_c, max_len, run_l). unat max_len - unat run_l)", goal_cases)
  case prems: (2 inp run_c max_len run_l)
  then have l: "run_l < max_len" by simp
  then have "unat (max_len - run_l) = unat max_len - unat run_l" by (intro unat_sub) simp
  with l have "1 \<le> max_len - run_l" by (simp add: word_le_nat_alt word_less_nat_alt)
  from add_within [OF l _ this] show ?case by simp
qed simp

declare run_extend.simps [simp del]

definition sm_run :: "sm_vars \<Rightarrow> xd3_encoder \<Rightarrow> sm_jump \<times> sm_vars \<times> xd3_encoder" where
  "sm_run v s =
     (if v_run_l v = small_look (smatcher s) then
        let l = run_extend (sm_inp s) (v_run_c v) (avail_in s - input_position s) (v_run_l v);
            v = v\<lparr>v_run_l := l\<rparr> in
        if l \<ge> min_match s \<and> l \<ge> 8 then
          case xd3_emit_run s (input_position s) l (v_run_c v) of
            (ret, s) \<Rightarrow> if ret \<noteq> XD3_OK then (Sm_return ret, v, s) else HANDLELAZY l v s
        else (Sm_next, v, s)
      else (Sm_next, v, s))"

definition sm_large :: "sm_vars \<Rightarrow> xd3_encoder \<Rightarrow> sm_jump \<times> sm_vars \<times> xd3_encoder" where
  "sm_large v s =
     (if DO_LARGE s \<and> input_position s + large_look (smatcher s) \<le> avail_in s then
        case (if input_position s \<ge> v_next_move_point v
              then case xd3_srcwin_move_point s of
                     (ret, s, nmp) \<Rightarrow> (ret, if ret = XD3_OK then v\<lparr>v_next_move_point := nmp\<rparr> else v, s)
              else (XD3_OK, v, s)) of
          (ret, v, s) \<Rightarrow>
            if ret \<noteq> XD3_OK then (Sm_return ret, v, s)
            else
              case table_get (large_table s) (xd3_checksum_hash (large_hash s) (v_lcksum v)) of
                None \<Rightarrow> (Sm_return C_UNDEFINED, v, s)
              | Some e \<Rightarrow>
                  if e = 0 then (Sm_next, v, s)
                  else
                    case src s of
                      None \<Rightarrow> (Sm_return C_UNDEFINED, v, s)
                    | Some x \<Rightarrow>
                        (case xd3_source_match_setup s x (e - 1) of
                           (good, s) \<Rightarrow>
                             if good then
                               case xd3_source_extend_match s of
                                 (ret, s) \<Rightarrow>
                                   if ret \<noteq> XD3_OK then (Sm_return ret, v, s)
                                   else if match_fwd s > 0 then HANDLELAZY (match_fwd s) v s
                                   else (Sm_next, v, s)
                             else (Sm_next, v, s))
      else (Sm_next, v, s))"

definition sm_small :: "sm_vars \<Rightarrow> xd3_encoder \<Rightarrow> sm_jump \<times> sm_vars \<times> xd3_encoder" where
  "sm_small v s =
     (if DO_SMALL s then
        let sinx = xd3_checksum_hash (small_hash s) (ucast (v_scksum v)) in
        case table_get (small_table s) sinx of
          None \<Rightarrow> (Sm_return C_UNDEFINED, v, s)
        | Some e \<Rightarrow>
            (case (if e \<noteq> 0 then xd3_smatch s e else Some (0, 0)) of
               None \<Rightarrow> (Sm_return C_UNDEFINED, v, s)
             | Some (match_length, match_offset) \<Rightarrow>
                 (case xd3_scksum_insert s sinx (input_position s) of
                    (ret, s) \<Rightarrow>
                      if ret \<noteq> XD3_OK then (Sm_return ret, v, s)
                      else if match_length \<ge> min_match s then
                        case xd3_found_match s (input_position s) match_length match_offset False of
                          (ret, s) \<Rightarrow> if ret \<noteq> XD3_OK then (Sm_return ret, v, s) else HANDLELAZY match_length v s
                      else (Sm_next, v, s)))
      else (Sm_next, v, s))"

text \<open>The body of the loop up to \<open>updateone\<close>, and from there to its next round.\<close>

definition sm_then ::
  "sm_jump \<times> sm_vars \<times> xd3_encoder \<Rightarrow> (sm_vars \<Rightarrow> xd3_encoder \<Rightarrow> sm_jump \<times> sm_vars \<times> xd3_encoder) \<Rightarrow>
     sm_jump \<times> sm_vars \<times> xd3_encoder" where
  "sm_then r f = (case r of (j, v, s) \<Rightarrow> if j = Sm_next then f v s else r)"

definition sm_body :: "sm_vars \<Rightarrow> xd3_encoder \<Rightarrow> sm_jump \<times> sm_vars \<times> xd3_encoder" where
  "sm_body v s =
     sm_then (sm_run v s) (\<lambda>v s. sm_then (sm_large v s) (\<lambda>v s. sm_then (sm_small v s) (\<lambda>v s.
       (Sm_updateone, v, if min_match s > 4 then s\<lparr>min_match := min_match s - 1\<rparr> else s))))"

definition sm_update :: "sm_vars \<Rightarrow> xd3_encoder \<Rightarrow> sm_jump \<times> sm_vars \<times> xd3_encoder" where
  "sm_update v s =
     (let slook = small_look (smatcher s); llook = large_look (smatcher s); inp = sm_inp s in
      if input_position s + slook = avail_in s then (Sm_return XD3_OK, v, s)
      else if length inp \<le> unat slook \<or> length inp \<le> 4 then (Sm_return C_UNDEFINED, v, s)
      else
        let v = (case NEXTRUN (v_run_c v, v_run_l v) (inp ! unat slook) of (c, l) \<Rightarrow> v\<lparr>v_run_c := c, v_run_l := l\<rparr>);
            v = (if DO_SMALL s then v\<lparr>v_scksum := snd (xd3_small_cksum_update inp slook)\<rparr> else v);
            v = (if DO_LARGE s \<and> input_position s + llook < avail_in s
                 then v\<lparr>v_lcksum := xd3_large64_cksum_update (large_hash s) (v_lcksum v) inp llook\<rparr> else v)
        in (Sm_next, v, s\<lparr>input_position := input_position s + 1\<rparr>))"

partial_function (option) sm_loop :: "sm_vars \<Rightarrow> xd3_encoder \<Rightarrow> (xd3_rvalue \<times> xd3_encoder) option" where
  "sm_loop v s =
     (case sm_body v s of
        (j, v, s) \<Rightarrow>
          (case (case j of Sm_return ret \<Rightarrow> (j, v, s) | Sm_restart \<Rightarrow> sm_restart v s | _ \<Rightarrow> sm_update v s) of
             (j, v, s) \<Rightarrow> (case j of Sm_return ret \<Rightarrow> Some (ret, s) | _ \<Rightarrow> sm_loop v s)))"

declare sm_loop.simps [code]

definition xd3_string_match :: "xd3_encoder \<Rightarrow> xd3_rvalue \<times> xd3_encoder" where
  "xd3_string_match s =
     (if input_position s + small_look (smatcher s) > avail_in s then (XD3_OK, s)
      else
        xd3_try (xd3_string_match_init s) (\<lambda>s.
          case sm_restart \<lparr>v_scksum = 0, v_lcksum = 0, v_run_c = 0, v_run_l = 0, v_next_move_point = 0\<rparr> s of
            (j, v, s) \<Rightarrow>
              (case j of
                 Sm_return ret \<Rightarrow> (ret, s)
               | _ \<Rightarrow> (case sm_loop v s of None \<Rightarrow> (C_DIVERGES, s) | Some r \<Rightarrow> r))))"

end
