(* ===== verification/Xd3_Encode.thy ===== *)
theory Xd3_Encode
  imports Xd3_String_Match Xd3_Second
begin

text \<open>
  The encoder: writing the headers of a file and of a window, buffering input to whole windows, setting
  up and resetting the stream, and the state machine \<open>xd3_encode_input\<close>.
\<close>

section \<open>Headers\<close>

text \<open>Emissions into the header section.\<close>

definition hdr_byte :: "uint8 \<Rightarrow> xd3_encoder \<Rightarrow> xd3_rvalue \<times> xd3_encoder" where
  "hdr_byte b = xd3_to_section HDR (\<lambda>s chain. xd3_emit_byte s chain b)"

definition hdr_size :: "usize_t \<Rightarrow> xd3_encoder \<Rightarrow> xd3_rvalue \<times> xd3_encoder" where
  "hdr_size n = xd3_to_section HDR (\<lambda>s chain. xd3_emit_size s chain n)"

definition hdr_offset :: "xoff_t \<Rightarrow> xd3_encoder \<Rightarrow> xd3_rvalue \<times> xd3_encoder" where
  "hdr_offset n = xd3_to_section HDR (\<lambda>s chain. xd3_emit_offset s chain n)"

definition hdr_bytes :: "uint8 list \<Rightarrow> xd3_encoder \<Rightarrow> xd3_rvalue \<times> xd3_encoder" where
  "hdr_bytes bs = xd3_to_section HDR (\<lambda>s chain. xd3_emit_bytes s chain bs)"

text \<open>A sequence of emissions, up to the first that fails.\<close>

fun emit_all :: "(xd3_encoder \<Rightarrow> xd3_rvalue \<times> xd3_encoder) list \<Rightarrow> xd3_encoder \<Rightarrow> xd3_rvalue \<times> xd3_encoder" where
  "emit_all [] s = (XD3_OK, s)"
| "emit_all (f # fs) s = xd3_try (f s) (emit_all fs)"

text \<open>\<open>xd3_emit_hdr\<close>: the file header before the first window, the secondary compression, the window header.\<close>

definition emit_file_header :: "xd3_encoder \<Rightarrow> xd3_rvalue \<times> xd3_encoder" where
  "emit_file_header s =
     (if current_window s = 0 then
        let hdr_ind = (if sec_type s \<noteq> None then VCD_SECONDARY else 0) OR
                      (if enc_appheader s \<noteq> None then VCD_APPHEADER else 0) in
        emit_all
          ([hdr_byte 0xd6, hdr_byte 0xc3, hdr_byte 0xc4, hdr_byte 0, hdr_byte (ucast hdr_ind)] @
           (case sec_type s of None \<Rightarrow> [] | Some t \<Rightarrow> [hdr_byte (sec_id t)]) @
           (case enc_appheader s of None \<Rightarrow> [] | Some d \<Rightarrow> [hdr_size (of_nat (length d)), hdr_bytes d])) s
      else (XD3_OK, s))"

definition emit_secondary_section ::
  "xd3_section_type \<Rightarrow> uint32 \<Rightarrow> xd3_encoder \<Rightarrow> xd3_rvalue \<times> xd3_encoder \<times> bool" where
  "emit_secondary_section k no_flag s =
     (if flags s AND no_flag = 0 then xd3_encode_secondary k s else (XD3_OK, s, False))"

definition emit_secondary :: "xd3_encoder \<Rightarrow> xd3_rvalue \<times> xd3_encoder \<times> usize_t" where
  "emit_secondary s =
     (if sec_type s = None then (XD3_OK, s, 0)
      else
        case emit_secondary_section DATA_SECTION XD3_SEC_NODATA s of
          (ret, s, data_sec) \<Rightarrow>
            if ret \<noteq> XD3_OK then (ret, s, 0)
            else
              case emit_secondary_section INST_SECTION XD3_SEC_NOINST s of
                (ret, s, inst_sec) \<Rightarrow>
                  if ret \<noteq> XD3_OK then (ret, s, 0)
                  else
                    case emit_secondary_section ADDR_SECTION XD3_SEC_NOADDR s of
                      (ret, s, addr_sec) \<Rightarrow>
                        if ret \<noteq> XD3_OK then (ret, s, 0)
                        else (XD3_OK, s, (if data_sec then VCD_DATACOMP else 0) OR
                               (if inst_sec then VCD_INSTCOMP else 0) OR (if addr_sec then VCD_ADDRCOMP else 0)))"

definition use_adler32 :: "xd3_encoder \<Rightarrow> bool" where
  "use_adler32 s \<longleftrightarrow> flags s AND (XD3_ADLER32 OR XD3_ADLER32_RECODE) \<noteq> 0"

definition window_indicator :: "xd3_encoder \<Rightarrow> usize_t" where
  "window_indicator s = (if xd3_encoder_used_source s then VCD_SOURCE else 0) OR
     (if use_adler32 s then VCD_ADLER32 else 0)"

definition source_fields :: "xd3_encoder \<Rightarrow> (xd3_encoder \<Rightarrow> xd3_rvalue \<times> xd3_encoder) list" where
  "source_fields s =
     (if xd3_encoder_used_source s
      then case src s of None \<Rightarrow> [] | Some x \<Rightarrow> [hdr_size (srclen x), hdr_offset (srcbase x)]
      else [])"

definition checksum_bytes :: "xd3_encoder \<Rightarrow> uint8 list" where
  "checksum_bytes s =
     (let a32 = (if flags s AND XD3_ADLER32 \<noteq> 0 then adler32 1 (next_in s) else recode_adler32 s)
      in [ucast (drop_bit 24 a32), ucast (drop_bit 16 a32), ucast (drop_bit 8 a32), ucast (a32 AND 0xff)])"

definition window_enc_len :: "xd3_encoder \<Rightarrow> usize_t" where
  "window_enc_len s =
     (let data_len = xd3_sizeof_output (enc_chain s DATA); inst_len = xd3_sizeof_output (enc_chain s INST);
          addr_len = xd3_sizeof_output (enc_chain s ADDR) in
      1 + ucast (xd3_sizeof_size (avail_in s) + xd3_sizeof_size data_len +
                 xd3_sizeof_size inst_len + xd3_sizeof_size addr_len) +
      data_len + inst_len + addr_len + (if use_adler32 s then 4 else 0))"

definition emit_window_header :: "usize_t \<Rightarrow> xd3_encoder \<Rightarrow> xd3_rvalue \<times> xd3_encoder" where
  "emit_window_header del_ind s =
     emit_all
       ([hdr_byte (ucast (window_indicator s))] @ source_fields s @
        [hdr_size (window_enc_len s), hdr_size (avail_in s), hdr_byte (ucast del_ind),
         hdr_size (xd3_sizeof_output (enc_chain s DATA)), hdr_size (xd3_sizeof_output (enc_chain s INST)),
         hdr_size (xd3_sizeof_output (enc_chain s ADDR))] @
        (if use_adler32 s then [hdr_bytes (checksum_bytes s)] else [])) s"

definition xd3_emit_hdr :: "xd3_encoder \<Rightarrow> xd3_rvalue \<times> xd3_encoder" where
  "xd3_emit_hdr s =
     xd3_try (emit_file_header s) (\<lambda>s.
       case emit_secondary s of
         (ret, s, del_ind) \<Rightarrow> if ret \<noteq> XD3_OK then (ret, s) else emit_window_header del_ind s)"

section \<open>Buffering input\<close>

text \<open>
  \<open>xd3_encode_buffer_leftover\<close>.  The buffer has room for \<open>winsize\<close> bytes; copying more leftover input
  into it is undefined, a write beyond the buffer.
\<close>

definition buffer_take :: "uint8 list \<Rightarrow> xd3_encoder \<Rightarrow> xd3_rvalue \<times> xd3_encoder" where
  "buffer_take buf s =
     (let room = winsize s - of_nat (length buf); take_n = min room (avail_in s);
          buf' = buf @ take (unat take_n) (next_in s); s = s\<lparr>buf_in := Some buf'\<rparr> in
      if take_n < avail_in s then
        (XD3_OK, s\<lparr>next_in := buf', buf_in := Some [], buf_leftover := Some (drop (unat take_n) (next_in s))\<rparr>)
      else if of_nat (length buf') < winsize s \<and> flags s AND XD3_FLUSH = 0 then (XD3_INPUT, s)
      else (XD3_OK, s\<lparr>next_in := buf', buf_in := Some []\<rparr>))"

definition xd3_encode_buffer_leftover :: "xd3_encoder \<Rightarrow> xd3_rvalue \<times> xd3_encoder" where
  "xd3_encode_buffer_leftover s =
     (case (case buf_in s of
              Some buf \<Rightarrow> (True, s)
            | None \<Rightarrow> (case xd3_alloc s of (ok, s) \<Rightarrow> (ok, if ok then s\<lparr>buf_in := Some []\<rparr> else s))) of
        (False, s) \<Rightarrow> (ENOMEM, s)
      | (True, s) \<Rightarrow>
          (case buf_leftover s of
             Some l \<Rightarrow>
               if length l > unat (winsize s) then (C_UNDEFINED, s)
               else buffer_take l (s\<lparr>buf_leftover := None\<rparr>)
           | None \<Rightarrow> buffer_take (case buf_in s of None \<Rightarrow> [] | Some b \<Rightarrow> b) s))"

section \<open>Setting up\<close>

definition init_tables :: "xd3_encoder \<Rightarrow> xd3_rvalue \<times> xd3_encoder" where
  "init_tables s =
     xd3_try
       (case src s of
          None \<Rightarrow> (XD3_OK, s)
        | Some x \<Rightarrow>
            if large_step (smatcher s) = 0 then (C_UNDEFINED, s)
            else
              case xd3_size_hashtable s (max_winsize x div large_step (smatcher s)) (large_look (smatcher s)) (large_hash s) of
                (ret, s, cfg) \<Rightarrow> (ret, s\<lparr>large_hash := cfg\<rparr>))
       (\<lambda>s. if flags s AND XD3_NOCOMPRESS \<noteq> 0 then (XD3_OK, s)
            else
              case xd3_size_hashtable s (winsize s) (small_look (smatcher s)) (small_hash s) of
                (ret, s, cfg) \<Rightarrow> (ret, s\<lparr>small_hash := cfg\<rparr>))"

text \<open>The output buffers of the sections in turn.\<close>

fun init_outputs :: "xd3_sect list \<Rightarrow> xd3_encoder \<Rightarrow> xd3_rvalue \<times> xd3_encoder" where
  "init_outputs [] s = (XD3_OK, s)"
| "init_outputs (sect # sects) s =
     (case xd3_alloc_output s of
        (None, s) \<Rightarrow> (ENOMEM, s\<lparr>enc_chain := (enc_chain s)(sect := [])\<rparr>)
      | (Some page, s) \<Rightarrow> init_outputs sects (s\<lparr>enc_chain := (enc_chain s)(sect := [page])\<rparr>))"

definition xd3_encode_init :: "xd3_encoder \<Rightarrow> bool \<Rightarrow> xd3_rvalue \<times> xd3_encoder" where
  "xd3_encode_init s full_init =
     xd3_try (if full_init then init_tables s else (XD3_OK, s)) (\<lambda>s.
     xd3_try (init_outputs [HDR, DATA, INST, ADDR] s) (\<lambda>s.
       case xd3_alloc_iopt (s\<lparr>iopt_used := [], iopt_free := []\<rparr>) (iopt_size s) of
         (ret, s) \<Rightarrow>
           if ret \<noteq> XD3_OK then (ENOMEM, s)
           else
             xd3_alloc_cache (s\<lparr>acache := (acache s)\<lparr>s_near := ucast (near_modes rfc3284_code_table_desc),
                                                      s_same := ucast (same_modes rfc3284_code_table_desc)\<rparr>,
                                code_table := xd3_rfc3284_code_table\<rparr>)))"

definition xd3_encode_init_full :: "xd3_encoder \<Rightarrow> xd3_rvalue \<times> xd3_encoder" where
  "xd3_encode_init_full s = xd3_encode_init s True"

definition xd3_encode_init_partial :: "xd3_encoder \<Rightarrow> xd3_rvalue \<times> xd3_encoder" where
  "xd3_encode_init_partial s = xd3_encode_init s False"

text \<open>
  \<open>xd3_encode_reset\<close>: the pages, chained together for output, are given back, one to each section and
  the rest to the free list.
\<close>

definition xd3_encode_reset :: "xd3_encoder \<Rightarrow> xd3_rvalue \<times> xd3_encoder" where
  "xd3_encode_reset s =
     (let s = s\<lparr>next_in := [], small_reset := True, i_slots_used := 0\<rparr>;
          s = (case src s of
                 None \<Rightarrow> s
               | Some x \<Rightarrow> s\<lparr>src := Some (x\<lparr>srclen := 0, srcbase := 0\<rparr>), taroff := 0, srcwin_decided := False,
                             srcwin_decided_early := False, match_minaddr := 0, match_maxaddr := 0\<rparr>) in
      case enc_chain s HDR of
        p0 # p1 # p2 # p3 # olist \<Rightarrow>
          (XD3_OK, xd3_freelist_output
             (s\<lparr>enc_chain := (\<lambda>sect. [(case sect of HDR \<Rightarrow> p0 | DATA \<Rightarrow> p1 | INST \<Rightarrow> p2 | ADDR \<Rightarrow> p3)\<lparr>out_base := []\<rparr>])\<rparr>) olist)
      | _ \<Rightarrow> (C_UNDEFINED, s))"

section \<open>The state machine\<close>

text \<open>From the label \<open>enc_flush\<close>.\<close>

definition enc_flush :: "xd3_encoder \<Rightarrow> xd3_rvalue \<times> xd3_encoder" where
  "enc_flush s =
     xd3_try
       (if buf_leftover s \<noteq> None \<or> (case buf_in s of None \<Rightarrow> False | Some b \<Rightarrow> b \<noteq> []) \<or>
           (avail_in s < winsize s \<and> flags s AND XD3_FLUSH = 0)
        then xd3_encode_buffer_leftover s else (XD3_OK, s))
       (\<lambda>s. (XD3_WINSTART, s\<lparr>acache := xd3_init_cache (acache s), enc_state := ENC_SEARCH,
                             input_position := 0, min_match := 4, unencoded_offset := 0\<rparr>))"

definition enc_input :: "xd3_encoder \<Rightarrow> xd3_rvalue \<times> xd3_encoder" where
  "enc_input s = (if next_in_null s then (XD3_INPUT, s) else enc_flush s)"

text \<open>
  From the label \<open>enc_output\<close>: the pages are output one by one, pages without bytes are passed over.
  The argument is the chain from \<open>enc_current\<close> on.
\<close>

fun enc_output :: "xd3_output list \<Rightarrow> xd3_encoder \<Rightarrow> xd3_rvalue \<times> xd3_encoder" where
  "enc_output [] s =
     (XD3_WINFINISH, s\<lparr>total_in := total_in s + avail_in s, enc_state := ENC_POSTWIN, enc_current := []\<rparr>)"
| "enc_output (p # pages) s =
     (let n = of_nat (length (out_base p));
          s = s\<lparr>avail_out := n, total_out := total_out s + n, enc_state := ENC_POSTOUT, enc_current := p # pages\<rparr> in
      if n > 0 then (XD3_OUTPUT, s) else enc_output pages s)"

definition enc_postout :: "xd3_encoder \<Rightarrow> xd3_rvalue \<times> xd3_encoder" where
  "enc_postout s =
     (if avail_out s \<noteq> 0 then (XD3_INTERNAL, s\<lparr>msg := Some ''missed call to consume output''\<rparr>)
      else if enc_current s = [] then (C_UNDEFINED, s)
      else enc_output (tl (enc_current s)) s)"

definition enc_emit :: "xd3_encoder \<Rightarrow> xd3_rvalue \<times> xd3_encoder" where
  "enc_emit s =
     xd3_try (xd3_emit_hdr s) (\<lambda>s.
       let pages = enc_chain s HDR @ enc_chain s DATA @ enc_chain s INST @ enc_chain s ADDR in
       if pages = [] then (C_UNDEFINED, s)
       else enc_output pages (s\<lparr>enc_chain := (\<lambda>_. [])(HDR := pages)\<rparr>))"

definition enc_instr :: "xd3_encoder \<Rightarrow> xd3_rvalue \<times> xd3_encoder" where
  "enc_instr s =
     xd3_try (xd3_try (xd3_iopt_flush_instructions s True) xd3_iopt_add_finalize) (\<lambda>s.
       enc_emit (s\<lparr>enc_state := ENC_FLUSH\<rparr>))"

text \<open>\<open>ENC_SEARCH\<close>: a match that is under way is continued, then the string matcher runs.\<close>

definition enc_continue :: "xd3_encoder \<Rightarrow> xd3_rvalue \<times> xd3_encoder" where
  "enc_continue s =
     (if avail_in s \<noteq> 0 then
        xd3_try (xd3_source_extend_match s) (\<lambda>s.
          (XD3_OK, s\<lparr>input_position := input_position s + match_fwd s\<rparr>))
      else (XD3_OK, s))"

definition enc_rematch :: "xd3_encoder \<Rightarrow> xd3_rvalue \<times> xd3_encoder" where
  "enc_rematch s =
     (case src s of
        None \<Rightarrow> (XD3_OK, s)
      | Some x \<Rightarrow>
          (case match_state s of
             MATCH_TARGET \<Rightarrow>
               enc_continue
                 (if avail_in s > 0
                  then (snd (xd3_source_match_setup s x (match_srcpos s)))\<lparr>match_state := MATCH_FORWARD\<rparr>
                  else s\<lparr>match_state := MATCH_SEARCHING, match_fwd := 0\<rparr>)
           | MATCH_FORWARD \<Rightarrow> enc_continue s
           | MATCH_BACKWARD \<Rightarrow> enc_continue s
           | MATCH_SEARCHING \<Rightarrow> (XD3_OK, s)))"

definition enc_search :: "xd3_encoder \<Rightarrow> xd3_rvalue \<times> xd3_encoder" where
  "enc_search s =
     xd3_try (enc_rematch s) (\<lambda>s.
     xd3_try (if avail_in s \<noteq> 0 then xd3_string_match s else (XD3_OK, s)) (\<lambda>s.
       enc_instr (s\<lparr>enc_state := ENC_INSTR\<rparr>)))"

definition enc_postwin :: "xd3_encoder \<Rightarrow> xd3_rvalue \<times> xd3_encoder" where
  "enc_postwin s =
     xd3_try (xd3_encode_reset s) (\<lambda>s.
       let s = s\<lparr>current_window := current_window s + 1, enc_state := ENC_INPUT\<rparr> in
       if buf_leftover s \<noteq> None then enc_flush s else (XD3_INPUT, s))"

definition xd3_encode_input :: "xd3_encoder \<Rightarrow> xd3_rvalue \<times> xd3_encoder" where
  "xd3_encode_input s =
     (if dec_state s \<noteq> DEC_VCHEAD then (XD3_INTERNAL, s\<lparr>msg := Some ''encoder/decoder transition''\<rparr>)
      else
        case enc_state s of
          ENC_INIT \<Rightarrow> xd3_try (xd3_encode_init_full s) (\<lambda>s. enc_input (s\<lparr>enc_state := ENC_INPUT\<rparr>))
        | ENC_INPUT \<Rightarrow> enc_input s
        | ENC_SEARCH \<Rightarrow> enc_search s
        | ENC_INSTR \<Rightarrow> enc_instr s
        | ENC_FLUSH \<Rightarrow> enc_emit s
        | ENC_POSTOUT \<Rightarrow> enc_postout s
        | ENC_POSTWIN \<Rightarrow> enc_postwin s
        | ENC_ABORTED \<Rightarrow> (XD3_INTERNAL, s\<lparr>msg := Some ''invalid state''\<rparr>))"

section \<open>Closing\<close>

text \<open>\<open>xd3_close_stream\<close>, its two branches and the whole.\<close>

definition close_encoding :: "xd3_encoder \<Rightarrow> xd3_rvalue \<times> xd3_encoder" where
  "close_encoding s =
     (if buf_leftover s \<noteq> None then (XD3_INTERNAL, s\<lparr>msg := Some ''encoding is incomplete''\<rparr>)
      else
        xd3_try
          (if enc_state s = ENC_POSTWIN then
             xd3_try (xd3_encode_reset s) (\<lambda>s.
               (XD3_OK, s\<lparr>current_window := current_window s + 1, enc_state := ENC_INPUT\<rparr>))
           else (XD3_OK, s))
          (\<lambda>s. if enc_state s \<noteq> ENC_INPUT \<or> avail_in s \<noteq> 0
               then (XD3_INTERNAL, s\<lparr>msg := Some ''encoding is incomplete''\<rparr>)
               else (XD3_OK, s)))"

definition close_decoding :: "'a xd3_stream_scheme \<Rightarrow> xd3_rvalue \<times> 'a xd3_stream_scheme" where
  "close_decoding s =
     (if dec_state s = DEC_VCHEAD \<or> dec_state s = DEC_WININD \<or> dec_state s = DEC_ABORTED then (XD3_OK, s)
      else (XD3_INVALID_INPUT, s\<lparr>msg := Some ''eof in decode''\<rparr>))"

definition xd3_close_stream :: "xd3_encoder \<Rightarrow> xd3_rvalue \<times> xd3_encoder" where
  "xd3_close_stream s =
     (if enc_state s \<noteq> ENC_INIT \<and> enc_state s \<noteq> ENC_ABORTED then close_encoding s else close_decoding s)"

end
