(* ===== verification/Xd3_Memory.thy ===== *)
theory Xd3_Memory
  imports Xd3_Encode Xd3_Decode_Input
begin

text \<open>
  The convenience functions: running a stream over an input in memory into an output in memory, for
  either direction.
\<close>

section \<open>Streams\<close>

text \<open>
  \<open>xd3_process_stream\<close>.  \<open>func\<close> is the function called, \<open>avail\<close> the input interface of its stream and
  \<open>out\<close> the bytes at \<open>next_out\<close>, or \<open>None\<close> when they are not there to be read.  The loop has
  the input not yet supplied and the output so far; it may not end, which is \<open>None\<close>.  At the label
  \<open>done\<close> its result is \<open>XD3_OK\<close>.
\<close>

partial_function (option) process_loop ::
  "('a xd3_stream_scheme \<Rightarrow> xd3_rvalue \<times> 'a xd3_stream_scheme) \<Rightarrow>
   (uint8 list \<Rightarrow> 'a xd3_stream_scheme \<Rightarrow> 'a xd3_stream_scheme) \<Rightarrow>
   ('a xd3_stream_scheme \<Rightarrow> uint8 list option) \<Rightarrow> usize_t \<Rightarrow>
   uint8 list \<Rightarrow> uint8 list \<Rightarrow> 'a xd3_stream_scheme \<Rightarrow>
     (xd3_rvalue \<times> 'a xd3_stream_scheme \<times> uint8 list) option" where
  "process_loop func avail out output_size_max input outp s =
     (case func s of
        (ret, s) \<Rightarrow>
          (if ret = XD3_OUTPUT then
             (if of_nat (length outp) + avail_out s > output_size_max
              then Some (ENOSPC, s\<lparr>msg := Some ''insufficient output space''\<rparr>, outp)
              else
                case out s of
                  None \<Rightarrow> Some (C_UNDEFINED, s, outp)
                | Some bs \<Rightarrow>
                    process_loop func avail out output_size_max input (outp @ take (unat (avail_out s)) bs)
                      (xd3_consume_output s))
           else if ret = XD3_INPUT then
             (let n = min (unat (winsize s)) (length input) in
              if n = 0 then Some (XD3_OK, s, outp)
              else process_loop func avail out output_size_max (drop n input) outp (avail (take n input) s))
           else if ret = XD3_GOTHEADER \<or> ret = XD3_WINSTART \<or> ret = XD3_WINFINISH
           then process_loop func avail out output_size_max input outp s
           else if ret = XD3_GETSRCBLK
           then Some (XD3_INTERNAL, s\<lparr>msg := Some ''library requested source block''\<rparr>, outp)
           else if ret = XD3_OK then Some (XD3_INTERNAL, s\<lparr>msg := Some ''invalid return: 0''\<rparr>, outp)
           else Some (ret, s, outp)))"

declare process_loop.simps [code]

definition xd3_process_stream ::
  "('a xd3_stream_scheme \<Rightarrow> xd3_rvalue \<times> 'a xd3_stream_scheme) \<Rightarrow>
   (uint8 list \<Rightarrow> 'a xd3_stream_scheme \<Rightarrow> 'a xd3_stream_scheme) \<Rightarrow>
   ('a xd3_stream_scheme \<Rightarrow> uint8 list option) \<Rightarrow>
   ('a xd3_stream_scheme \<Rightarrow> xd3_rvalue \<times> 'a xd3_stream_scheme) option \<Rightarrow>
   'a xd3_stream_scheme \<Rightarrow> uint8 list \<Rightarrow> usize_t \<Rightarrow>
     (xd3_rvalue \<times> 'a xd3_stream_scheme \<times> uint8 list) option" where
  "xd3_process_stream func avail out close s input output_size_max =
     (let n = min (unat (winsize s)) (length input); s = s\<lparr>flags := flags s OR XD3_FLUSH\<rparr> in
      case process_loop func avail out output_size_max (drop n input) [] (avail (take n input) s) of
        None \<Rightarrow> None
      | Some (ret, s, outp) \<Rightarrow>
          (case close of
             Some f \<Rightarrow> if ret = XD3_OK then (case f s of (ret, s) \<Rightarrow> Some (ret, s, outp)) else Some (ret, s, outp)
           | None \<Rightarrow> Some (ret, s, outp)))"

definition xd3_encode_stream ::
  "xd3_encoder \<Rightarrow> uint8 list \<Rightarrow> usize_t \<Rightarrow> (xd3_rvalue \<times> xd3_encoder \<times> uint8 list) option" where
  "xd3_encode_stream =
     xd3_process_stream xd3_encode_input enc_avail_input (\<lambda>s. Some (enc_next_out s)) (Some xd3_close_stream)"

text \<open>A decoding stream is closed in the state \<open>ENC_INIT\<close> of the encoder, or aborted.\<close>

definition xd3_decode_stream ::
  "(usize_t \<Rightarrow> xd3_sec_type option) \<Rightarrow> xd3_decoder \<Rightarrow> uint8 list \<Rightarrow> usize_t \<Rightarrow>
     (xd3_rvalue \<times> xd3_decoder \<times> uint8 list) option" where
  "xd3_decode_stream secs =
     xd3_process_stream (xd3_decode_input secs) xd3_avail_input out_bytes (Some close_decoding)"

section \<open>Memory\<close>

text \<open>
  \<open>xd3_process_memory\<close> for input and output that are not null.  \<open>config_zero\<close> is the zeroed
  configuration, \<open>memory_source\<close> the source as one block.
\<close>

definition config_zero :: xd3_config where
  "config_zero = \<lparr>cfg_winsize = 0, cfg_sprevsz = 0, cfg_iopt_size = 0, cfg_getblk = None, cfg_alloc = (\<lambda>_. True),
     cfg_flags = 0, cfg_sec_data = sec_cfg_zero, cfg_sec_inst = sec_cfg_zero, cfg_sec_addr = sec_cfg_zero,
     cfg_smatch = XD3_SMATCH_DEFAULT, cfg_smatcher_soft = smatcher_zero\<rparr>"

definition memory_source :: "uint8 list \<Rightarrow> xd3_source" where
  "memory_source source =
     \<lparr>blksize = of_nat (length source), max_winsize = of_nat (length source), curblkno = 0,
      onblk = of_nat (length source), curblk = Some source, srclen = 0, srcbase = 0, shiftby = 0, maskby = 0,
      cpyoff_blocks = 0, cpyoff_blkoff = 0, getblkno = 0, max_blkno = 0, onlastblk = 0, eof_known = False\<rparr>"

definition memory_set_source ::
  "uint8 list option \<Rightarrow> 'a xd3_stream_scheme \<Rightarrow> xd3_rvalue \<times> 'a xd3_stream_scheme" where
  "memory_set_source source s =
     (case source of
        None \<Rightarrow> (XD3_OK, s)
      | Some bs \<Rightarrow> xd3_set_source_and_size s (memory_source bs) (of_nat (length bs)))"

text \<open>The results are the status and the output.\<close>

definition xd3_encode_memory ::
  "(usize_t \<Rightarrow> xd3_sec_type option) \<Rightarrow> uint8 list \<Rightarrow> uint8 list option \<Rightarrow> usize_t \<Rightarrow> uint32 \<Rightarrow>
     (xd3_rvalue \<times> uint8 list) option" where
  "xd3_encode_memory secs input source output_size_max fl =
     (let win = min (of_nat (length input)) XD3_DEFAULT_WINSIZE in
      case xd3_pow2_roundup win of
        None \<Rightarrow> None
      | Some sprev \<Rightarrow>
          (case xd3_try
                  (xd3_config_stream secs
                     (config_zero\<lparr>cfg_winsize := win, cfg_sprevsz := sprev, cfg_flags := fl OR XD3_ADLER32\<rparr>))
                  (memory_set_source source) of
             (ret, s) \<Rightarrow>
               if ret \<noteq> XD3_OK then Some (ret, [])
               else map_option (\<lambda>(ret, s, outp). (ret, outp)) (xd3_encode_stream s input output_size_max)))"

text \<open>The decoder is configured by the same function; the choice of a matcher cannot fail and is not used.\<close>

definition config_decoder ::
  "(usize_t \<Rightarrow> xd3_sec_type option) \<Rightarrow> xd3_config \<Rightarrow> xd3_rvalue \<times> xd3_decoder" where
  "config_decoder secs config =
     xd3_try (config_sizes config decoder_zero) (\<lambda>s.
     xd3_try (config_secondary secs s) (config_sprev smatcher_zero))"

definition xd3_decode_memory ::
  "(usize_t \<Rightarrow> xd3_sec_type option) \<Rightarrow> uint8 list \<Rightarrow> uint8 list option \<Rightarrow> usize_t \<Rightarrow> uint32 \<Rightarrow>
     (xd3_rvalue \<times> uint8 list) option" where
  "xd3_decode_memory secs input source output_size_max fl =
     (case xd3_try (config_decoder secs (config_zero\<lparr>cfg_flags := fl\<rparr>)) (memory_set_source source) of
        (ret, s) \<Rightarrow>
          if ret \<noteq> XD3_OK then Some (ret, [])
          else map_option (\<lambda>(ret, s, outp). (ret, outp)) (xd3_decode_stream secs s input output_size_max))"

end
