(* ===== verification/Xd3_Iopt_Choice.thy ===== *)
theory Xd3_Iopt_Choice
  imports Xd3_Iopt
begin

text \<open>
  What the choice among overlapping instructions guarantees: the instructions left are parts of the
  ones found, and they do not overlap.
\<close>

section \<open>Instructions as intervals\<close>

definition posn :: "xd3_rinst \<Rightarrow> nat" where "posn r = unat (ri_pos r)"
definition len :: "xd3_rinst \<Rightarrow> nat" where "len r = unat (ri_size r)"
definition fin :: "xd3_rinst \<Rightarrow> nat" where "fin r = posn r + len r"

text \<open>An instruction with a target of \<open>n\<close> bytes.\<close>

definition in_target :: "nat \<Rightarrow> xd3_rinst \<Rightarrow> bool" where
  "in_target n r \<longleftrightarrow> 0 < len r \<and> fin r \<le> n"

text \<open>A part of an instruction: it covers a part of the interval, and a copy's address moves along.\<close>

definition part :: "xd3_rinst \<Rightarrow> xd3_rinst \<Rightarrow> bool" where
  "part q r \<longleftrightarrow> ri_type q = ri_type r \<and> ri_xtra q = ri_xtra r \<and> posn r \<le> posn q \<and> 0 < len q \<and> fin q \<le> fin r \<and>
     ri_addr q = ri_addr r + (ri_pos q - ri_pos r)"

definition starts_first :: "xd3_rinst \<Rightarrow> xd3_rinst \<Rightarrow> bool" where
  "starts_first a b \<longleftrightarrow> posn a < posn b \<and> fin a < fin b"

definition apart :: "xd3_rinst \<Rightarrow> xd3_rinst \<Rightarrow> bool" where
  "apart a b \<longleftrightarrow> fin a \<le> posn b"

lemma part_refl: "0 < len r \<Longrightarrow> part r r"
  by (simp add: part_def)

lemma part_trans: "part p q \<Longrightarrow> part q r \<Longrightarrow> part p r"
  by (auto simp: part_def)

lemma part_in_target: "part q r \<Longrightarrow> in_target n r \<Longrightarrow> in_target n q"
  by (auto simp: part_def in_target_def)

lemma fin_word:
  assumes "in_target n r" and "n < 2 ^ 64"
  shows "unat (ri_pos r + ri_size r) = fin r"
  using assms unat_plus_64 [of "ri_pos r" "ri_size r"] by (simp add: in_target_def fin_def posn_def len_def)

section \<open>Splitting an overlap\<close>

lemma cut_part:
  "part (r\<lparr>ri_size := w\<rparr>) r \<and> fin (r\<lparr>ri_size := w\<rparr>) = posn r + unat w" if "0 < unat w" "unat w \<le> len r"
  using that by (simp add: part_def fin_def posn_def len_def)

lemma shift_part:
  assumes t: "in_target n r" "n < 2 ^ 64" and a: "unat a < len r"
  defines "q \<equiv> r\<lparr>ri_size := ri_size r - a, ri_pos := ri_pos r + a, ri_addr := ri_addr r + a\<rparr>"
  shows "part q r \<and> posn q = posn r + unat a \<and> fin q = fin r"
proof -
  have "posn r + unat a < 2 ^ 64" using t a by (simp add: in_target_def fin_def)
  then have p: "posn q = posn r + unat a" using unat_plus_64 [of "ri_pos r" a] by (simp add: posn_def q_def)
  have l: "len q = len r - unat a"
    using a by (simp add: q_def len_def unat_sub word_le_nat_alt)
  then have f: "fin q = fin r" using p a by (simp add: fin_def)
  moreover have "ri_addr q = ri_addr r + (ri_pos q - ri_pos r)" by (simp add: q_def)
  ultimately show ?thesis using p l a by (simp add: part_def q_def)
qed

lemma iopt_split_parts:
  assumes n: "n < 2 ^ 64" and t: "in_target n r1" "in_target n r2"
    and p: "posn r1 + 2 < posn r2" "posn r2 < fin r1" "fin r1 + 2 < fin r2" and gap: "8 \<le> fin r2 - posn r1"
    and s: "iopt_split r1 r2 = (q1, q2)"
  shows "part q1 r1 \<and> part q2 r2 \<and> posn q1 = posn r1 \<and> fin q1 = posn q2 \<and> fin q2 = fin r2 \<and>
    posn q2 \<le> fin r1"
proof -
  define d where "d = fin r1 - posn r2"
  define g where "g = fin r2 - posn r1"
  note w1 = fin_word [OF t(1) n] and w2 = fin_word [OF t(2) n]
  define dw where "dw = ri_pos r1 + ri_size r1 - ri_pos r2"
  have dw: "unat dw = d"
    using p(2) w1 by (simp add: unat_sub word_le_nat_alt d_def dw_def posn_def)
  define gw where "gw = ri_pos r2 + ri_size r2 - ri_pos r1"
  have gw: "unat gw = g"
    using p w2 by (simp add: unat_sub word_le_nat_alt g_def posn_def gw_def)
  define nw where "nw = min 18 (gw - gw div 2)"
  define m where "m = unat nw"
  have "unat (gw - gw div 2) = g - g div 2"
    using gw by (simp add: unat_sub word_le_nat_alt unat_div)
  then have nw: "m = min 18 (g - g div 2)"
    by (simp add: m_def nw_def min_def word_le_nat_alt)
  then have m: "0 < m" "m \<le> g - g div 2" using gap by (auto simp: g_def)
  have d: "d < len r1" "d < len r2" using p by (auto simp: d_def fin_def)
  have s: "iopt_split r1 r2 = (let (q1, a) =
            (if nw > ri_size r1 then (r1, dw)
             else if nw > ri_size r2 then (r1\<lparr>ri_size := ri_size r1 - dw\<rparr>, 0)
             else
               let a = ri_size r1 - nw; e = ri_pos r1 + ri_size r1 - a;
                   a = (if ri_pos r2 > e then a - (ri_pos r2 - e) else a);
                   q1 = r1\<lparr>ri_size := ri_size r1 - a\<rparr>
               in (q1, ri_pos r1 + ri_size r1 - a - ri_pos r2))
      in (q1, r2\<lparr>ri_size := ri_size r2 - a, ri_pos := ri_pos r2 + a, ri_addr := ri_addr r2 + a\<rparr>))"
    unfolding iopt_split_def Let_def dw_def nw_def gw_def
    by (simp add: algebra_simps)
  have "\<exists>w a. q1 = r1\<lparr>ri_size := w\<rparr> \<and>
      q2 = r2\<lparr>ri_size := ri_size r2 - a, ri_pos := ri_pos r2 + a, ri_addr := ri_addr r2 + a\<rparr> \<and>
      0 < unat w \<and> unat w \<le> len r1 \<and> unat a < len r2 \<and> posn r1 + unat w = posn r2 + unat a"
  proof -
    consider (one) "nw > ri_size r1" | (two) "\<not> nw > ri_size r1" "nw > ri_size r2"
      | (three) "\<not> nw > ri_size r1" "\<not> nw > ri_size r2" by blast
    then show ?thesis
    proof cases
      case one
      then show ?thesis using \<open>iopt_split r1 r2 = (q1, q2)\<close> s t dw d p
        by (intro exI [of _ "ri_size r1"] exI [of _ dw]) (simp add: len_def in_target_def d_def fin_def)
    next
      case two
      have "unat (ri_size r1 - dw) = len r1 - d" using d(1) dw by (simp add: len_def unat_sub word_le_nat_alt)
      with two show ?thesis using \<open>iopt_split r1 r2 = (q1, q2)\<close> s t dw d p
        by (intro exI [of _ "ri_size r1 - dw"] exI [of _ 0]) (simp add: len_def in_target_def d_def fin_def)
    next
      case three
      have small: "m \<le> len r1" "m \<le> len r2" using three by (simp_all only: m_def len_def not_less word_le_nat_alt)
      have e: "unat (ri_pos r1 + nw) = posn r1 + m"
        using small t n unat_plus_64 [of "ri_pos r1" nw] by (simp add: m_def in_target_def fin_def posn_def)
      show ?thesis
      proof (cases "ri_pos r2 > ri_pos r1 + nw")
        case True
        then have "q1 = r1\<lparr>ri_size := ri_pos r2 - ri_pos r1\<rparr>" "q2 = r2"
          using \<open>iopt_split r1 r2 = (q1, q2)\<close> s three by (auto simp: Let_def)
        moreover have "unat (ri_pos r2 - ri_pos r1) = posn r2 - posn r1"
          using p by (simp add: unat_sub word_le_nat_alt posn_def)
        ultimately show ?thesis using p t
          by (intro exI [of _ "ri_pos r2 - ri_pos r1"] exI [of _ 0]) (simp add: fin_def in_target_def)
      next
        case False
        then have "q1 = r1\<lparr>ri_size := nw\<rparr>" and "q2 = (let a = ri_pos r1 + nw - ri_pos r2 in
            r2\<lparr>ri_size := ri_size r2 - a, ri_pos := ri_pos r2 + a, ri_addr := ri_addr r2 + a\<rparr>)"
          using \<open>iopt_split r1 r2 = (q1, q2)\<close> s three by (simp_all add: Let_def)
        moreover have le: "ri_pos r2 \<le> ri_pos r1 + nw" using False by simp
        moreover have a: "unat (ri_pos r1 + nw - ri_pos r2) = posn r1 + m - posn r2" "posn r2 \<le> posn r1 + m"
          using le e unat_sub [OF le] by (simp_all add: word_le_nat_alt posn_def)
        moreover have "posn r1 + m - posn r2 < len r2" using m(2) gap p a(2) by (simp add: g_def fin_def)
        ultimately show ?thesis using small m
          by (intro exI [of _ nw] exI [of _ "ri_pos r1 + nw - ri_pos r2"]) (simp add: m_def Let_def)
      qed
    qed
  qed
  then obtain w a where q: "q1 = r1\<lparr>ri_size := w\<rparr>"
      "q2 = r2\<lparr>ri_size := ri_size r2 - a, ri_pos := ri_pos r2 + a, ri_addr := ri_addr r2 + a\<rparr>"
    and w: "0 < unat w" "unat w \<le> len r1" "unat a < len r2" "posn r1 + unat w = posn r2 + unat a" by blast
  moreover have "posn q1 = posn r1" by (simp add: q posn_def)
  moreover have "posn r1 + unat w \<le> fin r1" using w(2) by (simp add: fin_def)
  ultimately show ?thesis
    using cut_part [OF w(1,2)] shift_part [OF t(2) n w(3)] by (simp add: q)
qed

section \<open>The first loop of the flush\<close>

text \<open>What the loop keeps: \<open>kept\<close> is done, the rest starts and ends in order, after what is kept.\<close>

definition choice_inv :: "nat \<Rightarrow> xd3_rinst set \<Rightarrow> xd3_rinst list \<Rightarrow> xd3_rinst list \<Rightarrow> bool" where
  "choice_inv n found kept rs \<longleftrightarrow> sorted_wrt apart kept \<and> sorted_wrt starts_first rs \<and>
     (\<forall>k \<in> set kept. \<forall>r \<in> set rs. apart k r) \<and>
     (\<forall>r \<in> set kept \<union> set rs. \<exists>f \<in> found. part r f)"

lemma apart_trans: "apart a b \<Longrightarrow> starts_first b c \<Longrightarrow> apart a c"
  by (auto simp: apart_def starts_first_def)

lemma choice_drop:
  assumes "choice_inv n found kept (r1 # r2 # rs)"
  shows "choice_inv n found kept (r1 # rs)" "choice_inv n found kept (r2 # rs)"
  using assms by (auto simp: choice_inv_def)

lemma choice_keep:
  assumes "choice_inv n found kept (r1 # rs)" and "\<forall>r \<in> set rs. apart r1 r"
  shows "choice_inv n found (kept @ [r1]) rs"
  using assms by (auto simp: choice_inv_def sorted_wrt_append)

lemma choice_split:
  assumes c: "choice_inv n found kept (r1 # r2 # rs)" and nt: "\<forall>f \<in> found. in_target n f" "n < 2 ^ 64"
    and far: "\<forall>r \<in> set rs. fin r1 + 1 < posn r"
    and p: "posn r1 + 2 < posn r2" "posn r2 < fin r1" "fin r1 + 2 < fin r2" and gap: "8 \<le> fin r2 - posn r1"
  shows "choice_inv n found (kept @ [fst (iopt_split r1 r2)]) (snd (iopt_split r1 r2) # rs)"
proof -
  obtain q1 q2 where s: "iopt_split r1 r2 = (q1, q2)" by (cases "iopt_split r1 r2")
  obtain f1 f2 where f: "f1 \<in> found" "part r1 f1" "f2 \<in> found" "part r2 f2"
    using c by (auto simp: choice_inv_def)
  then have t: "in_target n r1" "in_target n r2" using nt part_in_target by blast+
  note q = iopt_split_parts [OF nt(2) t p gap s]
  then have parts: "part q1 f1" "part q2 f2" using f part_trans by blast+
  have le: "posn r2 \<le> posn q2" using q by (simp add: part_def)
  show ?thesis
    using c q f parts far le unfolding s fst_conv snd_conv choice_inv_def
    by (auto simp: sorted_wrt_append apart_def starts_first_def)
qed

lemma iopt_compact_choice:
  assumes "choice_inv n found kept rs" and "\<forall>f \<in> found. in_target n f" and "n < 2 ^ 64"
    and "iopt_compact True kept rs fr = (used, fr')"
  shows "choice_inv n found used []"
  using assms
proof (induction True kept rs fr rule: iopt_compact.induct)
  case (1 kept r1 r2 rs fr)
  note c = 1(6) and nt = 1(7,8)
  define e where "e = ri_pos r1 + ri_size r1"
  define e2 where "e2 = ri_pos r2 + ri_size r2"
  have "\<exists>f \<in> found. part r f" if "r \<in> {r1, r2}" for r using c that by (auto simp: choice_inv_def)
  then have t: "in_target n r1" "in_target n r2" using nt part_in_target by blast+
  then have e: "unat e = fin r1" "unat e2 = fin r2" using fin_word nt by (simp_all add: e_def e2_def)
  have o: "posn r1 < posn r2" "fin r1 < fin r2" using c by (auto simp: choice_inv_def starts_first_def)
  have e1: "unat (e + 1) = fin r1 + 1"
    using e o t nt unat_plus_64 [of e 1] by (simp add: in_target_def)
  have off: "unat (ri_pos r2 - ri_pos r1) = posn r2 - posn r1" "unat (e2 - e) = fin r2 - fin r1"
    "unat (e2 - ri_pos r1) = fin r2 - posn r1"
    using o e t by (simp_all add: unat_sub word_le_nat_alt posn_def fin_def)
  note step = 1(9) [unfolded iopt_compact.simps(1) Let_def, folded e_def e2_def]
  show ?case
  proof (cases "e \<le> ri_pos r2")
    case True
    then have "fin r1 \<le> posn r2" using e by (simp add: word_le_nat_alt posn_def)
    then have "\<forall>r \<in> set (r2 # rs). apart r1 r"
      using c by (auto simp: choice_inv_def apart_def starts_first_def)
    from 1(1) [OF e_def True choice_keep [OF c this] nt] show ?thesis using step True by simp
  next
    case False
    then have over: "posn r2 < fin r1" using e by (simp add: word_le_nat_alt posn_def)
    show ?thesis
    proof (cases "rs \<noteq> [] \<and> ri_pos (hd rs) \<le> e + 1")
      case True
      from 1(2) [OF e_def False e2_def True choice_drop(1) [OF c] nt] show ?thesis
        using step False True by simp
    next
      case far: False
      have far': "\<forall>r \<in> set rs. fin r1 + 1 < posn r"
      proof
        fix r assume r: "r \<in> set rs"
        then have "fin r1 + 1 < posn (hd rs)" using far e1 by (auto simp: word_le_nat_alt posn_def)
        moreover have "posn (hd rs) \<le> posn r"
          using c r by (cases rs) (auto simp: choice_inv_def starts_first_def)
        ultimately show "fin r1 + 1 < posn r" by simp
      qed
      show ?thesis
      proof (cases "e2 - ri_pos r1 < 2 * 4 \<or> e2 - e \<le> 2 \<or> ri_pos r2 - ri_pos r1 \<le> 2")
        case near: True
        show ?thesis
        proof (cases "ri_size r1 < ri_size r2")
          case True
          from 1(3) [OF e_def False e2_def far _ refl refl refl near True choice_drop(2) [OF c] nt] show ?thesis
            using step False far near True by simp
        next
          case big: False
          have "\<forall>r \<in> set rs. apart r1 r" using far' by (auto simp: apart_def)
          from 1(4) [OF e_def False e2_def far _ refl refl refl near big choice_keep [OF choice_drop(1) [OF c] this] nt]
          show ?thesis using step False far near big by simp
        qed
      next
        case apart: False
        then have "8 \<le> fin r2 - posn r1 \<and> 2 < fin r2 - fin r1 \<and> 2 < posn r2 - posn r1"
          using off by (simp add: not_less not_le word_le_nat_alt word_less_nat_alt)
        then have "8 \<le> fin r2 - posn r1" "fin r1 + 2 < fin r2" "posn r1 + 2 < posn r2" by linarith+
        from choice_split [OF c nt far' this(3) over this(2,1)]
        have "choice_inv n found (kept @ [fst (iopt_split r1 r2)]) (snd (iopt_split r1 r2) # rs)" .
        from 1(5) [OF e_def False e2_def far _ refl refl refl apart this nt] show ?thesis
          using step False far apart by simp
      qed
    qed
  qed
qed (use choice_keep [of n found _ _ "[]"] in auto)

lemma iopt_compact_length:
  "iopt_compact force kept rs fr = (used, fr') \<Longrightarrow>
    length used + length fr' = length kept + length rs + length fr"
  by (induction force kept rs fr rule: iopt_compact.induct)
    (auto simp: Let_def split: if_splits prod.splits)

section \<open>Properties\<close>

text \<open>C12: at the end of a window the choice among the matches that were found leaves instructions that
  do not overlap and cover, each of them, a part of one that was found, with a copy's address moved along;
  every slot is either used or freed.  The matches may overlap in any way, as long as they start and end
  in the order they were found.\<close>

theorem instructions_chosen:
  assumes "sorted_wrt starts_first found" and "\<forall>f \<in> set found. in_target n f" and "n < 2 ^ 64"
    and "iopt_compact True [] found [] = (used, freed)"
  shows "sorted_wrt apart used \<and> (\<forall>r \<in> set used. in_target n r \<and> (\<exists>f \<in> set found. part r f)) \<and>
    length used + length freed = length found"
proof -
  have "choice_inv n (set found) [] found"
    using assms(1,2) by (auto simp: choice_inv_def in_target_def intro: part_refl)
  from iopt_compact_choice [OF this assms(2-4)] have "choice_inv n (set found) used []" .
  then have "sorted_wrt apart used" "\<forall>r \<in> set used. \<exists>f \<in> set found. part r f" by (auto simp: choice_inv_def)
  then show ?thesis
    using assms(2) iopt_compact_length [OF assms(4)] part_in_target by fastforce
qed

text \<open>Two copies that overlap are both kept, a third between them is dropped.\<close>

definition found_example :: "xd3_rinst list" where
  "found_example =
     [rinst_zero\<lparr>ri_type := XD3_CPY, ri_pos := 0, ri_size := 30, ri_addr := 100\<rparr>,
      rinst_zero\<lparr>ri_type := XD3_CPY, ri_pos := 4, ri_size := 28, ri_addr := 200\<rparr>,
      rinst_zero\<lparr>ri_type := XD3_CPY, ri_pos := 20, ri_size := 30, ri_addr := 300\<rparr>]"

theorem instructions_chosen_witness:
  "map (\<lambda>r. (posn r, len r, unat (ri_addr r))) (fst (iopt_compact True [] found_example [])) =
     [(0, 20, 100), (20, 30, 300)] \<and>
   sorted_wrt apart (fst (iopt_compact True [] found_example []))"
proof -
  obtain used freed where e: "iopt_compact True [] found_example [] = (used, freed)" by (cases "iopt_compact True [] found_example []")
  have "sorted_wrt starts_first found_example" "\<forall>f \<in> set found_example. in_target 100 f"
    by (simp_all add: found_example_def starts_first_def in_target_def fin_def posn_def len_def)
  then have "sorted_wrt apart used" using instructions_chosen [OF _ _ _ e] by simp
  moreover have "map (\<lambda>r. (posn r, len r, unat (ri_addr r))) (fst (iopt_compact True [] found_example [])) =
     [(0, 20, 100), (20, 30, 300)]"
    by code_simp
  ultimately show ?thesis using e by simp
qed

end
