(* ===== verification/Xd3_Vcdiff.thy ===== *)
theory Xd3_Vcdiff
  imports Xd3_AddrCache Xd3_CodeTable
begin

text \<open>
  The meaning of a window, as RFC 3284 defines it and without regard to streams, pages and states: what
  its three sections denote over the bytes of the copy window.  The encoder and the decoder are
  compared with it.
\<close>

section \<open>The instruction section\<close>

text \<open>A code stands for one or two instructions, of which the second may have no size in the section.\<close>

type_synonym vhalf = "uint8 \<times> usize_t"

definition read_half :: "uint8 \<Rightarrow> uint8 \<Rightarrow> uint8 list \<Rightarrow> (vhalf list \<times> uint8 list) option" where
  "read_half t sz inst =
     (if t = XD3_NOOP then Some ([], inst)
      else if sz \<noteq> 0 then Some ([(t, ucast sz)], inst)
      else case xd3_read_size inst of Inl _ \<Rightarrow> None | Inr (n, inst) \<Rightarrow> Some ([(t, n)], inst))"

definition read_code :: "uint8 \<Rightarrow> uint8 list \<Rightarrow> (vhalf list \<times> uint8 list) option" where
  "read_code b inst =
     (let d = rfc3284_code_table ! unat b in
      case read_half (type1 d) (size1 d) inst of
        None \<Rightarrow> None
      | Some (h1, inst) \<Rightarrow>
          (case read_half (type2 d) (size2 d) inst of
             None \<Rightarrow> None
           | Some (h2, inst) \<Rightarrow> Some (h1 @ h2, inst)))"

lemma read_integer_rest: "read_integer oflow v inp = Inr (n, rest) \<Longrightarrow> length rest < length inp"
  by (induction oflow v inp rule: read_integer.induct) (auto simp: Let_def split: if_splits)

lemma read_integer_append: "read_integer oflow v inp = Inr (n, rest) \<Longrightarrow> read_integer oflow v (inp @ ys) = Inr (n, rest @ ys)"
  by (induction oflow v inp rule: read_integer.induct) (auto simp: Let_def split: if_splits)

lemma read_size_rest: "xd3_read_size inp = Inr (n, rest) \<Longrightarrow> length rest < length inp"
  by (simp add: xd3_read_size_def xd3_read_uint64_t_def read_integer_rest)

lemma read_size_append: "xd3_read_size inp = Inr (n, rest) \<Longrightarrow> xd3_read_size (inp @ ys) = Inr (n, rest @ ys)"
  by (simp add: xd3_read_size_def xd3_read_uint64_t_def read_integer_append)

lemma read_half_rest: "read_half t sz inst = Some (h, rest) \<Longrightarrow> length rest \<le> length inst"
  by (auto simp: read_half_def dest: read_size_rest split: if_splits sum.splits)

lemma read_half_append: "read_half t sz inst = Some (h, rest) \<Longrightarrow> read_half t sz (inst @ ys) = Some (h, rest @ ys)"
  by (auto simp: read_half_def read_size_append split: if_splits sum.splits)

lemma read_code_rest: "read_code b inst = Some (h, rest) \<Longrightarrow> length rest \<le> length inst"
  by (fastforce simp: read_code_def Let_def dest: read_half_rest split: option.splits prod.splits)

lemma read_code_append: "read_code b inst = Some (h, rest) \<Longrightarrow> read_code b (inst @ ys) = Some (h, rest @ ys)"
  by (auto simp: read_code_def Let_def read_half_append split: option.splits prod.splits)

function halves :: "uint8 list \<Rightarrow> vhalf list option" where
  "halves [] = Some []"
| "halves (b # inst) =
     (case read_code b inst of None \<Rightarrow> None | Some (h, rest) \<Rightarrow> map_option ((@) h) (halves rest))"
  by pat_completeness auto

termination halves
  by (relation "measure length") (auto dest: read_code_rest)

lemma halves_append: "halves xs = Some hs \<Longrightarrow> halves (xs @ ys) = map_option ((@) hs) (halves ys)"
proof (induction xs arbitrary: hs rule: halves.induct)
  case (2 b inst)
  then obtain h rest where r: "read_code b inst = Some (h, rest)"
    by (auto split: option.splits)
  then obtain hs' where "halves rest = Some hs'" "hs = h @ hs'" using 2(2) by auto
  then show ?case
    using 2(1) [OF r refl] r read_code_append [OF r, of ys] by (simp add: option.map_comp comp_def)
next
  case 1
  then show ?case by (cases "halves ys") auto
qed

section \<open>Executing instructions\<close>

text \<open>A copy goes byte by byte, so it may read what it writes.\<close>

primrec vcopy :: "uint8 list \<Rightarrow> nat \<Rightarrow> nat \<Rightarrow> uint8 list \<Rightarrow> uint8 list" where
  "vcopy seg a 0 out = out"
| "vcopy seg a (Suc n) out = vcopy seg (a + 1) n (out @ [(seg @ out) ! a])"

type_synonym vstate = "uint8 list \<times> xd3_addr_cache \<times> uint8 list \<times> uint8 list"

text \<open>
  The state is the output so far, the cache, and the data and address bytes left.  A copy from the
  copy window does not run into the target.
\<close>

definition vstep :: "uint8 list \<Rightarrow> vhalf \<Rightarrow> vstate \<Rightarrow> vstate option" where
  "vstep seg h v =
     (case (h, v) of ((t, n), (out, c, data, addr)) \<Rightarrow>
        if t = XD3_NOOP then None
        else if t = XD3_ADD then
          (if unat n \<le> length data then Some (out @ take (unat n) data, c, drop (unat n) data, addr) else None)
        else if t = XD3_RUN then
          (case data of [] \<Rightarrow> None | b # data \<Rightarrow> Some (out @ replicate (unat n) b, c, data, addr))
        else
          (case address_dec c (of_nat (length seg + length out)) (ucast (t - XD3_CPY)) addr of
             None \<Rightarrow> None
           | Some (a, addr) \<Rightarrow>
               if unat a < length seg + length out \<and> (unat a < length seg \<longrightarrow> unat a + unat n \<le> length seg)
               then Some (vcopy seg (unat a) (unat n) out, xd3_update_cache c a, data, addr)
               else None))"

fun vrun :: "uint8 list \<Rightarrow> vhalf list \<Rightarrow> vstate \<Rightarrow> vstate option" where
  "vrun seg [] v = Some v"
| "vrun seg (h # hs) v = (case vstep seg h v of None \<Rightarrow> None | Some v \<Rightarrow> vrun seg hs v)"

text \<open>The sections of a window are used up.\<close>

definition vcdiff_window :: "uint8 list \<Rightarrow> uint8 list \<Rightarrow> uint8 list \<Rightarrow> uint8 list \<Rightarrow> uint8 list option" where
  "vcdiff_window seg data inst addr =
     (case halves inst of
        None \<Rightarrow> None
      | Some hs \<Rightarrow>
          (case vrun seg hs ([], xd3_init_cache (acache_zero\<lparr>s_near := 4, s_same := 3\<rparr>), data, addr) of
             Some (out, _, [], []) \<Rightarrow> Some out
           | _ \<Rightarrow> None))"

section \<open>Sections that grow\<close>

lemma decode_address_value_append:
  "decode_address_value c here mode inp val = (XD3_OK, m, rest, a) \<Longrightarrow>
    decode_address_value c here mode (inp @ ys) val = (XD3_OK, m, rest @ ys, a)"
  by (auto simp: decode_address_value_def Let_def read_size_append split: if_splits sum.splits list.splits)

lemma address_dec_append:
  assumes "address_dec c here mode inp = Some (a, rest)"
  shows "address_dec c here mode (inp @ ys) = Some (a, rest @ ys)"
  using assms decode_address_value_append [of c here mode inp 0 _ rest a ys]
  by (auto simp: address_dec_def xd3_decode_address_def split: prod.splits if_splits)

lemma vstep_append:
  "vstep seg h (out, c, data, addr) = Some (out', c', data', addr') \<Longrightarrow>
    vstep seg h (out, c, data @ d, addr @ a) = Some (out', c', data' @ d, addr' @ a)"
  by (cases h)
    (auto simp: vstep_def address_dec_append Cons_eq_append_conv append_eq_Cons_conv
      split: if_splits option.splits list.splits)

lemma vrun_append: "vrun seg (xs @ ys) v = Option.bind (vrun seg xs v) (vrun seg ys)"
  by (induction xs arbitrary: v) (auto split: option.splits)

lemma vrun_sections_append:
  "vrun seg hs (out, c, data, addr) = Some (out', c', data', addr') \<Longrightarrow>
    vrun seg hs (out, c, data @ d, addr @ a) = Some (out', c', data' @ d, addr' @ a)"
proof (induction hs arbitrary: out c data addr)
  case (Cons h hs)
  from Cons.prems obtain o1 c1 d1 a1 where
    s: "vstep seg h (out, c, data, addr) = Some (o1, c1, d1, a1)" and
    r: "vrun seg hs (o1, c1, d1, a1) = Some (out', c', data', addr')"
    by (cases "vstep seg h (out, c, data, addr)") auto
  show ?case using vstep_append [OF s] Cons.IH [OF r] by simp
qed simp

text \<open>One more instruction, with its operands at the ends of the sections.\<close>

lemma vrun_snoc:
  assumes "vrun seg hs (o0, c0, data, addr) = Some (out, c, [], [])"
    and "vstep seg h (out, c, d, a) = Some (out', c', [], [])"
  shows "vrun seg (hs @ [h]) (o0, c0, data @ d, addr @ a) = Some (out', c', [], [])"
  using vrun_sections_append [OF assms(1), of d a] assms(2) by (simp add: vrun_append)

section \<open>True instructions\<close>

lemma vcopy_take:
  assumes "\<forall>k < n. (seg @ tgt) ! (a + k) = tgt ! (p + k)" and "a < length seg + p" and "p + n \<le> length tgt"
  shows "vcopy seg a n (take p tgt) = take (p + n) tgt"
  using assms
proof (induction n arbitrary: a p)
  case (Suc n)
  have "(seg @ take p tgt) ! a = (seg @ tgt) ! a"
    using Suc.prems(2,3) by (auto simp: nth_append)
  also have "\<dots> = tgt ! p" using Suc.prems(1) by auto
  finally have "vcopy seg a (Suc n) (take p tgt) = vcopy seg (a + 1) n (take (Suc p) tgt)"
    using Suc.prems(3) by (simp add: take_Suc_conv_app_nth)
  also have "\<dots> = take (Suc p + n) tgt"
    using Suc.prems(1) [rule_format, of "Suc k" for k] Suc.prems(2,3) by (intro Suc.IH) auto
  finally show ?case by simp
qed simp

text \<open>Without addresses the copy window does not matter.\<close>

lemma address_dec_Nil: "address_dec c here mode [] = None"
  by (auto simp: address_dec_def xd3_decode_address_def decode_address_value_def Let_def xd3_read_size_def
      xd3_read_uint64_t_def split: prod.splits if_splits sum.splits)

lemma vstep_no_address:
  "vstep seg h (out, c, data, []) = Some v \<Longrightarrow>
    vstep seg' h (out, c, data, []) = Some v \<and> (\<exists>out' c' data'. v = (out', c', data', []))"
  by (cases h) (auto simp: vstep_def address_dec_Nil split: if_splits list.splits)

lemma vrun_no_address: "vrun seg hs (out, c, data, []) = Some v \<Longrightarrow> vrun seg' hs (out, c, data, []) = Some v"
proof (induction hs arbitrary: out c data)
  case (Cons h hs)
  then obtain w where w: "vstep seg h (out, c, data, []) = Some w" "vrun seg hs w = Some v" by (auto split: option.splits)
  then show ?case using vstep_no_address [OF w(1), of seg'] Cons.IH by auto
qed simp

lemma vcdiff_window_no_address:
  assumes "vcdiff_window seg data inst [] = Some out"
  shows "vcdiff_window seg' data inst [] = Some out"
proof -
  let ?v = "([], xd3_init_cache (acache_zero\<lparr>s_near := 4, s_same := 3\<rparr>), data, [])"
  obtain hs c where h: "halves inst = Some hs" "vrun seg hs ?v = Some (out, c, [], [])"
    using assms by (auto simp: vcdiff_window_def split: option.splits list.splits)
  show ?thesis using h(1) vrun_no_address [OF h(2), of seg'] by (simp add: vcdiff_window_def)
qed

end
