(* ===== verification/Xd3_Iopt_Encode.thy ===== *)
theory Xd3_Iopt_Encode
  imports Xd3_Iopt_Choice Xd3_Vcdiff
begin

text \<open>
  The sections the encoder writes denote the target.  The instruction that \<open>iout\<close> keeps back, for a
  double code, is executed with those written.
\<close>

section \<open>Sections that grow\<close>

definition sinks_ok :: "'a xd3_outputs_scheme \<Rightarrow> bool" where
  "sinks_ok s \<longleftrightarrow> free_ok s \<and> (\<forall>k. chain_ok (enc_chain s k))"

definition out_only :: "'a xd3_outputs_scheme \<Rightarrow> 'a xd3_outputs_scheme \<Rightarrow> bool" where
  "out_only s t \<longleftrightarrow> (\<exists>c n m f. t = s\<lparr>enc_chain := c, alloc_cnt := n, msg := m, enc_free := f\<rparr>)"

text \<open>An operation succeeds, or an allocation failed.\<close>

definition ret_ok :: "(nat \<Rightarrow> bool) \<Rightarrow> xd3_rvalue \<Rightarrow> bool" where
  "ret_ok al ret \<longleftrightarrow> ret = XD3_OK \<or> ret = ENOMEM \<and> (\<exists>n. \<not> al n)"

lemma ret_ok_OK [simp]: "ret_ok al XD3_OK"
  by (simp add: ret_ok_def)

text \<open>The emission of \<open>bs\<close> into the section \<open>k\<close>.\<close>

definition grown :: "xd3_sect \<Rightarrow> uint8 list \<Rightarrow> 'a xd3_outputs_scheme \<Rightarrow> xd3_rvalue \<times> 'a xd3_outputs_scheme \<Rightarrow> bool" where
  "grown k bs s r \<longleftrightarrow> sinks_ok (snd r) \<and> out_only s (snd r) \<and> ret_ok (alloc s) (fst r) \<and>
     (fst r = XD3_OK \<longrightarrow> (\<forall>j. sect_bytes j (snd r) = sect_bytes j s @ (if j = k then bs else [])))"

lemma out_only_alloc: "out_only s t \<Longrightarrow> alloc t = alloc s"
  by (auto simp: out_only_def)

lemma out_only_trans: "out_only s t \<Longrightarrow> out_only t u \<Longrightarrow> out_only s u"
  unfolding out_only_def by (elim exE) (intro exI, simp)

lemma grown_section:
  assumes e: "\<And>chain. chain_ok chain \<Longrightarrow> emits s chain bs (f s chain)" and s: "sinks_ok s"
    and ok: "\<And>chain. chain_ok chain \<Longrightarrow> \<forall>n. alloc s n \<Longrightarrow> fst (f s chain) = XD3_OK"
  shows "grown k bs s (xd3_to_section k f s)"
proof -
  obtain r t where t: "xd3_to_section k f s = (r, t)" by fastforce
  have "sink_ok k s" using s by (simp add: sinks_ok_def sink_ok_def)
  note g = to_section_emits [where f = f, OF e this t]
  have o: "enc_chain t j = enc_chain s j" if "j \<noteq> k" for j
  proof -
    obtain n m fr where "t = s\<lparr>enc_chain := (enc_chain s)(k := enc_chain t k), alloc_cnt := n, msg := m, enc_free := fr\<rparr>"
      using g(4) by (auto simp: out_frame_def)
    from fun_cong [OF arg_cong [OF this, of enc_chain], of j] that show ?thesis by simp
  qed
  have "chain_ok (enc_chain t j)" for j
    using g(1) s o by (cases "j = k") (auto simp: sink_ok_def sinks_ok_def)
  moreover have "out_only s t" using g(4) by (auto simp: out_frame_def out_only_def)
  moreover have "ret_ok (alloc s) r"
    using g(2) ok [of "enc_chain s k"] s t by (auto simp: ret_ok_def sinks_ok_def xd3_to_section_def split: prod.splits)
  ultimately show ?thesis
    using g o by (auto simp: grown_def t sinks_ok_def sink_ok_def sect_bytes_def)
qed

lemma grown_byte: "sinks_ok s \<Longrightarrow> grown k [b] s (xd3_to_section k (\<lambda>s chain. xd3_emit_byte s chain b) s)"
  using emit_byte_total [of _ s b] by (intro grown_section) (fastforce simp: emit_byte_emits sinks_ok_def)+

lemma grown_bytes: "sinks_ok s \<Longrightarrow> grown k bs s (xd3_to_section k (\<lambda>s chain. xd3_emit_bytes s chain bs) s)"
  by (rule grown_section) (simp_all add: emit_bytes_emits emit_bytes_total sinks_ok_def)

lemma grown_size: "sinks_ok s \<Longrightarrow> grown k (xd3_emit_size_bytes n) s (xd3_to_section k (\<lambda>s chain. xd3_emit_size s chain n) s)"
  by (rule grown_section) (simp_all add: xd3_emit_size_def emit_bytes_emits emit_bytes_total sinks_ok_def)

lemma grown_try:
  assumes "grown k xs s r" and "\<And>t. r = (XD3_OK, t) \<Longrightarrow> sinks_ok t \<Longrightarrow> grown k ys t (f t)"
  shows "grown k (xs @ ys) s (xd3_try r f)"
proof (cases r)
  case (Pair ret t)
  show ?thesis
  proof (cases "ret = XD3_OK")
    case True
    then have t: "grown k ys t (f t)" using assms Pair by (simp add: grown_def)
    obtain ret' u where u: "f t = (ret', u)" by fastforce
    show ?thesis using assms(1) t Pair True u
      by (auto simp: grown_def xd3_try_def out_only_alloc intro: out_only_trans)
  next
    case False
    then show ?thesis using assms(1) Pair by (auto simp: grown_def xd3_try_def)
  qed
qed

lemma out_only_refl: "out_only s s"
  unfolding out_only_def
  by (intro exI [of _ "enc_chain s"] exI [of _ "alloc_cnt s"] exI [of _ "msg s"] exI [of _ "enc_free s"]) simp

lemma grown_none: "sinks_ok s \<Longrightarrow> grown k [] s (XD3_OK, s)"
  by (simp add: grown_def out_only_refl)

section \<open>Codes in the instruction section\<close>

definition single_bytes :: "xd3_rinst \<Rightarrow> uint8 list" where
  "single_bytes p = ri_code1 p #
     (if size1 (rfc3284_code_table ! unat (ri_code1 p)) = 0 then xd3_emit_size_bytes (ri_size p) else [])"

definition half_of :: "xd3_rinst \<Rightarrow> vhalf" where
  "half_of p = (ri_type p, ri_size p)"

lemma read_size_emit: "xd3_read_size (xd3_emit_size_bytes n @ rest) = Inr (n, rest)"
  by (rule size_codec.read_emit)

lemma halves_single:
  assumes "halves I = Some hs" and "single_code_ok p" and "ri_type p \<noteq> XD3_NOOP"
  shows "halves (I @ single_bytes p) = Some (hs @ [half_of p])"
proof -
  have "halves (single_bytes p) = Some [half_of p]"
    using assms(2,3) read_size_emit [of "ri_size p" "[]"]
    by (auto simp: single_bytes_def single_code_ok_def Let_def read_code_def read_half_def half_of_def)
  then show ?thesis using halves_append [OF assms(1)] by simp
qed

lemma halves_double:
  assumes "halves I = Some hs" and "double_code_ok p i" and "ri_type p \<noteq> XD3_NOOP" "ri_type i \<noteq> XD3_NOOP"
  shows "halves (I @ [ri_code2 p]) = Some (hs @ [half_of p, half_of i])"
proof -
  have "halves [ri_code2 p] = Some [half_of p, half_of i]"
    using assms(2-) by (auto simp: double_code_ok_def Let_def read_code_def read_half_def half_of_def)
  then show ?thesis using halves_append [OF assms(1)] by simp
qed

lemma double_code_nonzero: "double_code_ok p i \<Longrightarrow> ri_code2 p \<noteq> 0"
  by (auto simp: double_code_ok_def Let_def table_run)

lemma emit_single_grown:
  assumes "sinks_ok s" and "code_table s = rfc3284_code_table"
  shows "grown INST (single_bytes p) s (xd3_emit_single s p (ri_code1 p))"
proof -
  have "unat (ri_code1 p) < 2 ^ LENGTH(8)" by (rule unsigned_less)
  then have l: "\<not> length (code_table s) \<le> unat (ri_code1 p)" using length_code_table assms(2) by simp
  have "grown INST ([ri_code1 p] @ (if size1 (code_table s ! unat (ri_code1 p)) = 0 then xd3_emit_size_bytes (ri_size p) else []))
      s (xd3_emit_single s p (ri_code1 p))"
    unfolding xd3_emit_single_def Let_def if_not_P [OF l]
    by (rule grown_try [OF grown_byte [OF assms(1)]]) (auto intro: grown_size grown_none)
  then show ?thesis by (simp add: single_bytes_def assms(2))
qed

lemma emit_double_grown: "sinks_ok s \<Longrightarrow> grown INST [ri_code2 p] s (xd3_emit_double s p i (ri_code2 p))"
  unfolding xd3_emit_double_def by (rule grown_byte)

section \<open>What the encoder keeps\<close>

text \<open>
  \<open>seg\<close> is the copy window of the source, which begins at \<open>base\<close>: it is known from the limits of the
  matches before it is set up at the first copy.
\<close>

definition win_ok :: "xoff_t \<Rightarrow> uint8 list \<Rightarrow> xd3_encoder \<Rightarrow> bool" where
  "win_ok base seg s \<longleftrightarrow>
     (case src s of
        None \<Rightarrow> seg = [] \<and> taroff s = 0
      | Some x \<Rightarrow>
          (base, of_nat (length seg)) =
            (if srcwin_decided s \<or> match_maxaddr s = 0 then (srcbase x, srclen x)
             else (match_minaddr s, match_maxaddr s - match_minaddr s)) \<and>
          (srcwin_decided s \<longrightarrow> taroff s = of_nat (length seg)))"

text \<open>An instruction that is true of the target.\<close>

definition true_inst :: "xoff_t \<Rightarrow> uint8 list \<Rightarrow> uint8 list \<Rightarrow> xd3_rinst \<Rightarrow> bool" where
  "true_inst base seg tgt r \<longleftrightarrow> in_target (length tgt) r \<and>
     (ri_type r = XD3_RUN \<and> take (len r) (drop (posn r) tgt) = replicate (len r) (ri_xtra r) \<or>
      ri_type r = XD3_CPY \<and> ri_xtra r = 0 \<and> unat (ri_addr r) < posn r \<and>
        (\<forall>k < len r. tgt ! (unat (ri_addr r) + k) = tgt ! (posn r + k)) \<or>
      ri_type r = XD3_CPY \<and> ri_xtra r \<noteq> 0 \<and> unat (ri_addr r - base) + len r \<le> length seg \<and>
        (\<forall>k < len r. seg ! (unat (ri_addr r - base) + k) = tgt ! (posn r + k)))"

definition inst_type_ok :: "xd3_rinst \<Rightarrow> bool" where
  "inst_type_ok r \<longleftrightarrow> ri_type r \<noteq> XD3_NOOP \<and> ri_type r < 12 \<and> ri_size r \<noteq> 0"

definition pending :: "xd3_iout \<Rightarrow> vhalf list" where
  "pending io = (case io of Iout p \<Rightarrow> [half_of p] | _ \<Rightarrow> [])"

definition iout_ok :: "xd3_iout \<Rightarrow> bool" where
  "iout_ok io = (case io of Iout_none \<Rightarrow> True | Iout_dead \<Rightarrow> False
     | Iout p \<Rightarrow> inst_type_ok p \<and> single_code_ok p \<and> ri_code2 p = 0)"

definition cache0 :: xd3_addr_cache where
  "cache0 = xd3_init_cache (acache_zero\<lparr>s_near := 4, s_same := 3\<rparr>)"

text \<open>What is fixed in the stream, and what the sections denote so far.\<close>

text \<open>As long as the copy window of a source is not decided, no address has been written.\<close>

definition undecided_ok :: "xd3_encoder \<Rightarrow> bool" where
  "undecided_ok s \<longleftrightarrow>
     (\<forall>x. src s = Some x \<and> \<not> srcwin_decided s \<longrightarrow> srclen x = 0 \<and> sect_bytes ADDR s = [])"

text \<open>What the headers are made of.\<close>

type_synonym header_info = "(xd3_sec_type option \<times> uint32 \<times> uint8 list option \<times> xoff_t \<times> xd3_decode_state \<times> uint32 \<times>
    uint8 list) \<times> (nat \<Rightarrow> bool) \<times> bool"

definition hdr_info :: "xd3_encoder \<Rightarrow> header_info" where
  "hdr_info s = ((sec_type s, flags s, enc_appheader s, current_window s, dec_state s, recode_adler32 s, sect_bytes HDR s),
     alloc s, src s = None)"

text \<open>What a window leaves for the next one.\<close>

type_synonym session_info = "(xd3_smatcher \<times> xd3_hash_cfg \<times> usize_t \<times> usize_t \<times> bool) \<times>
    (xd3_source \<Rightarrow> xoff_t \<Rightarrow> xd3_rvalue \<times> xd3_source) option \<times> uint8 list option \<times> uint8 list option \<times> usize_t"

definition session_info :: "xd3_encoder \<Rightarrow> session_info" where
  "session_info s = ((smatcher s, small_hash s, sprevsz s, sprevmask s, iopt_unlimited s),
     getblk s, buf_in s, buf_leftover s, winsize s)"

type_synonym kept_info = "header_info \<times> session_info \<times> xd3_source option \<times> usize_t list option \<times> usize_t list option \<times> xd3_match_state"

definition kept_info :: "xd3_encoder \<Rightarrow> kept_info" where
  "kept_info s = (hdr_info s, session_info s, map_option (\<lambda>x. x\<lparr>srclen := 0, srcbase := 0\<rparr>) (src s), small_table s, small_prev s, match_state s)"

lemmas info_defs = kept_info_def hdr_info_def session_info_def

definition enc_fixed :: "kept_info \<Rightarrow> xoff_t \<Rightarrow> uint8 list \<Rightarrow> uint8 list \<Rightarrow> xd3_encoder \<Rightarrow> bool" where
  "enc_fixed h base seg tgt s \<longleftrightarrow> sinks_ok s \<and> code_table s = rfc3284_code_table \<and>
     cache_ok (acache s) \<and> s_near (acache s) = 4 \<and> s_same (acache s) = 3 \<and>
     win_ok base seg s \<and> undecided_ok s \<and> enc_state s = ENC_INSTR \<and> next_in s = tgt \<and> length seg + length tgt < 2 ^ 64 \<and>
     kept_info s = h"

definition denotes :: "uint8 list \<Rightarrow> vhalf list \<Rightarrow> uint8 list \<Rightarrow> xd3_encoder \<Rightarrow> bool" where
  "denotes seg pend out s \<longleftrightarrow>
     (\<exists>hs. halves (sect_bytes INST s) = Some hs \<and>
        vrun seg (hs @ pend) ([], cache0, sect_bytes DATA s, sect_bytes ADDR s) = Some (out, acache s, [], []))"

definition encodes :: "kept_info \<Rightarrow> xoff_t \<Rightarrow> uint8 list \<Rightarrow> uint8 list \<Rightarrow> xd3_encoder \<Rightarrow> bool" where
  "encodes h base seg tgt s \<longleftrightarrow> enc_fixed h base seg tgt s \<and> unat (unencoded_offset s) \<le> length tgt \<and>
     iout_ok (iout s) \<and> denotes seg (pending (iout s)) (take (unat (unencoded_offset s)) tgt) s"

text \<open>The parts of the state that the operands of an instruction leave alone.\<close>

definition operands_frame :: "xd3_encoder \<Rightarrow> xd3_encoder \<Rightarrow> bool" where
  "operands_frame s t \<longleftrightarrow> alloc t = alloc s \<and> iout t = iout s \<and> unencoded_offset t = unencoded_offset s \<and>
     iopt_used t = iopt_used s \<and> iopt_free t = iopt_free s \<and> iopt_size t = iopt_size s \<and>
     match_minaddr t = match_minaddr s \<and> match_maxaddr t = match_maxaddr s"

text \<open>What writing the operands of \<open>inst\<close> does.\<close>

definition operands_ok :: "kept_info \<Rightarrow> xoff_t \<Rightarrow> uint8 list \<Rightarrow> uint8 list \<Rightarrow> xd3_rinst \<Rightarrow> xd3_encoder \<Rightarrow>
    xd3_rvalue \<times> xd3_encoder \<times> xd3_rinst \<Rightarrow> bool" where
  "operands_ok h base seg tgt inst s r \<longleftrightarrow>
     (case r of (ret, t, i) \<Rightarrow> ret_ok (alloc s) ret \<and>
        (ret = XD3_OK \<longrightarrow> enc_fixed h base seg tgt t \<and> operands_frame s t \<and> inst_type_ok i \<and> ri_size i = ri_size inst \<and>
          (ri_type i = XD3_ADD \<longrightarrow> ri_type inst = XD3_ADD) \<and> sect_bytes INST t = sect_bytes INST s \<and>
          (\<exists>d a. sect_bytes DATA t = sect_bytes DATA s @ d \<and> sect_bytes ADDR t = sect_bytes ADDR s @ a \<and>
             vstep seg (half_of i) (take (posn inst) tgt, acache s, d, a) =
               Some (take (fin inst) tgt, acache t, [], []))))"

lemma out_only_fields:
  assumes "out_only s t"
  shows "iout t = iout s" "unencoded_offset t = unencoded_offset s" "iopt_used t = iopt_used s"
    "iopt_free t = iopt_free s" "iopt_size t = iopt_size s" "match_minaddr t = match_minaddr s"
    "match_maxaddr t = match_maxaddr s" "taroff t = taroff s" "srcwin_decided t = srcwin_decided s"
    "src t = src s" "acache t = acache s" "code_table t = code_table s" "next_in t = next_in s"
    "enc_state t = enc_state s" "alloc t = alloc s" "sec_type t = sec_type s" "flags t = flags s"
    "enc_appheader t = enc_appheader s" "current_window t = current_window s" "dec_state t = dec_state s"
    "recode_adler32 t = recode_adler32 s" "smatcher t = smatcher s" "small_hash t = small_hash s" "sprevsz t = sprevsz s"
    "sprevmask t = sprevmask s" "iopt_unlimited t = iopt_unlimited s" "getblk t = getblk s" "buf_in t = buf_in s"
    "buf_leftover t = buf_leftover s" "winsize t = winsize s" "small_table t = small_table s" "small_prev t = small_prev s"
    "match_state t = match_state s"
proof -
  obtain c n m f where t: "t = s\<lparr>enc_chain := c, alloc_cnt := n, msg := m, enc_free := f\<rparr>"
    using assms by (auto simp: out_only_def)
  show "iout t = iout s" "unencoded_offset t = unencoded_offset s" "iopt_used t = iopt_used s"
    "iopt_free t = iopt_free s" "iopt_size t = iopt_size s" "match_minaddr t = match_minaddr s"
    "match_maxaddr t = match_maxaddr s" "taroff t = taroff s" "srcwin_decided t = srcwin_decided s"
    "src t = src s" "acache t = acache s" "code_table t = code_table s" "next_in t = next_in s"
    "enc_state t = enc_state s" "alloc t = alloc s" "sec_type t = sec_type s" "flags t = flags s"
    "enc_appheader t = enc_appheader s" "current_window t = current_window s" "dec_state t = dec_state s"
    "recode_adler32 t = recode_adler32 s" "smatcher t = smatcher s" "small_hash t = small_hash s" "sprevsz t = sprevsz s"
    "sprevmask t = sprevmask s" "iopt_unlimited t = iopt_unlimited s" "getblk t = getblk s" "buf_in t = buf_in s"
    "buf_leftover t = buf_leftover s" "winsize t = winsize s" "small_table t = small_table s" "small_prev t = small_prev s"
    "match_state t = match_state s"
    by (cases s, simp add: t)+
qed

lemma grown_fixed:
  assumes "enc_fixed h base seg tgt s" and "grown k bs s (XD3_OK, t)"
    and "k = ADDR \<longrightarrow> src s = None \<or> srcwin_decided s" and "k \<noteq> HDR"
  shows "enc_fixed h base seg tgt t \<and> operands_frame s t \<and> acache t = acache s \<and>
    (\<forall>j. sect_bytes j t = sect_bytes j s @ (if j = k then bs else []))"
proof -
  have o: "out_only s t" and "sinks_ok t" using assms(2) by (simp_all add: grown_def)
  moreover have "win_ok base seg t = win_ok base seg s"
    by (simp only: win_ok_def out_only_fields [OF o])
  ultimately show ?thesis
    using assms by (auto simp: enc_fixed_def info_defs grown_def operands_frame_def out_only_fields [OF o] undecided_ok_def)
qed

lemma unat_nonzero: "0 < unat (w :: 'a::len word) \<Longrightarrow> w \<noteq> 0"
  by auto

lemma finish_run_ok:
  assumes s: "enc_fixed h base seg tgt s" and r: "true_inst base seg tgt inst" "ri_type inst = XD3_RUN"
  shows "operands_ok h base seg tgt inst s (finish_run inst s)"
proof -
  obtain ret t where e: "xd3_to_section DATA (\<lambda>s chain. xd3_emit_byte s chain (ri_xtra inst)) s = (ret, t)" by fastforce
  have g: "grown DATA [ri_xtra inst] s (ret, t)" unfolding e [symmetric] by (rule grown_byte) (use s in \<open>simp add: enc_fixed_def info_defs\<close>)
  show ?thesis
  proof (cases "ret = XD3_OK")
    case True
    note f = grown_fixed [OF s, of DATA "[ri_xtra inst]" t]
    let ?t = "t\<lparr>n_run := n_run t + 1, l_run := l_run t + ri_size inst\<rparr>"
    have "enc_fixed h base seg tgt ?t = enc_fixed h base seg tgt t"
      by (simp add: enc_fixed_def info_defs win_ok_def sinks_ok_def free_ok_def undecided_ok_def sect_bytes_def cong: option.case_cong)
    moreover have "take (posn inst) tgt @ take (len inst) (drop (posn inst) tgt) = take (fin inst) tgt"
      by (simp add: fin_def take_add)
    moreover have "take (len inst) (drop (posn inst) tgt) = replicate (len inst) (ri_xtra inst)"
      using r by (simp add: true_inst_def)
    moreover have "unat (ri_size inst) = len inst" "ri_size inst \<noteq> 0"
      using r by (auto simp: len_def true_inst_def in_target_def)
    ultimately show ?thesis
      using f g True r(2) e
      by (auto simp: operands_ok_def finish_run_def operands_frame_def inst_type_ok_def vstep_def half_of_def sect_bytes_def)
  next
    case False
    then show ?thesis using g e by (auto simp: operands_ok_def finish_run_def grown_def)
  qed
qed

lemma finish_add_ok:
  assumes s: "enc_fixed h base seg tgt s" and r: "in_target (length tgt) inst" "ri_type inst = XD3_ADD"
  shows "operands_ok h base seg tgt inst s (finish_add inst s)"
proof -
  let ?bs = "take (len inst) (drop (posn inst) tgt)"
  have tgt: "next_in s = tgt" using s by (simp add: enc_fixed_def info_defs)
  have fit: "\<not> posn inst + len inst > length tgt" using r by (simp add: in_target_def fin_def)
  obtain ret t where e: "xd3_to_section DATA (\<lambda>s chain. xd3_emit_bytes s chain ?bs) s = (ret, t)" by fastforce
  have g: "grown DATA ?bs s (ret, t)"
    unfolding e [symmetric] by (rule grown_bytes) (use s in \<open>simp add: enc_fixed_def info_defs\<close>)
  have e': "finish_add inst s =
      (ret, if ret = XD3_OK then t\<lparr>n_add := n_add t + 1, l_add := l_add t + ri_size inst\<rparr> else t, inst)"
    using e fit by (simp add: finish_add_def Let_def xd3_to_section_def tgt posn_def [symmetric] len_def [symmetric] cong: if_cong)
  show ?thesis
  proof (cases "ret = XD3_OK")
    case True
    note f = grown_fixed [OF s, of DATA ?bs t]
    let ?t = "t\<lparr>n_add := n_add t + 1, l_add := l_add t + ri_size inst\<rparr>"
    have "enc_fixed h base seg tgt ?t = enc_fixed h base seg tgt t"
      by (simp add: enc_fixed_def info_defs win_ok_def sinks_ok_def free_ok_def undecided_ok_def sect_bytes_def cong: option.case_cong)
    moreover have "take (posn inst) tgt @ ?bs = take (fin inst) tgt" by (simp add: fin_def take_add)
    moreover have "unat (ri_size inst) = len inst" "ri_size inst \<noteq> 0" "length ?bs = len inst"
      using r fit by (auto simp: len_def in_target_def)
    ultimately show ?thesis
      using f g True r(2) e'
      by (auto simp: operands_ok_def operands_frame_def inst_type_ok_def vstep_def half_of_def sect_bytes_def)
  next
    case False
    then show ?thesis using g e' by (auto simp: operands_ok_def grown_def)
  qed
qed

text \<open>A copy: first the copy window is set up.\<close>

definition window_set :: "xoff_t \<Rightarrow> uint8 list \<Rightarrow> xd3_encoder \<Rightarrow> bool" where
  "window_set base seg s \<longleftrightarrow> taroff s = of_nat (length seg) \<and> (src s = None \<or> srcwin_decided s) \<and>
     (case src s of None \<Rightarrow> seg = [] | Some x \<Rightarrow> srcbase x = base)"

definition copy_start :: "xd3_encoder \<Rightarrow> xd3_rvalue \<times> xd3_encoder" where
  "copy_start s = (if src s = None then (XD3_OK, s) else copy_srcwin s)"

lemma copy_start_ok:
  assumes s: "enc_fixed h base seg tgt s"
  shows "\<exists>t. copy_start s = (XD3_OK, t) \<and> enc_fixed h base seg tgt t \<and> operands_frame s t \<and> acache t = acache s \<and>
    (\<forall>j. sect_bytes j t = sect_bytes j s) \<and> window_set base seg t"
proof (cases "src s")
  case None
  then show ?thesis using s
    by (auto simp: copy_start_def window_set_def enc_fixed_def info_defs win_ok_def operands_frame_def)
next
  case (Some x)
  show ?thesis
  proof (cases "srcwin_decided s")
    case True
    define t where "t = s\<lparr>srcwin_decided_early := \<not> eof_known x \<or> srcwin_cksum_pos s < xd3_source_eof x\<rparr>"
    have "enc_fixed h base seg tgt t" using s by (simp add: t_def enc_fixed_def info_defs win_ok_def sinks_ok_def free_ok_def undecided_ok_def sect_bytes_def True Some)
    moreover have "copy_start s = (XD3_OK, t)" using True by (simp add: copy_start_def copy_srcwin_def Some t_def)
    moreover have "operands_frame s t" "acache t = acache s" "sect_bytes j t = sect_bytes j s" for j
      by (simp_all add: t_def operands_frame_def sect_bytes_def)
    moreover have "window_set base seg t" using s True by (simp add: window_set_def t_def enc_fixed_def info_defs win_ok_def Some)
    ultimately show ?thesis by blast
  next
    case False
    define y where "y = (if match_maxaddr s = 0 then x
      else x\<lparr>srcbase := match_minaddr s, srclen := match_maxaddr s - match_minaddr s\<rparr>)"
    have y: "y\<lparr>srclen := 0, srcbase := 0\<rparr> = x\<lparr>srclen := 0, srcbase := 0\<rparr>" by (simp add: y_def)
    define t where "t = s\<lparr>srcwin_decided := True, src := Some y, taroff := srclen y\<rparr>"
    have st: "enc_state s = ENC_INSTR" using s by (simp add: enc_fixed_def info_defs)
    have id: "s\<lparr>srcwin_decided := True, taroff := n\<rparr> = s\<lparr>srcwin_decided := True, src := Some x, taroff := n\<rparr>" for n
      using Some by (cases s) simp
    have "copy_start s = (XD3_OK, t)"
      using False st by (simp add: copy_start_def copy_srcwin_def Some xd3_srcwin_setup_def srcwin_done_def Let_def t_def y_def id)
    moreover have "(base, of_nat (length seg)) = (srcbase y, srclen y)"
      using s False by (auto simp: enc_fixed_def info_defs win_ok_def Some y_def)
    moreover from this have "enc_fixed h base seg tgt t" "window_set base seg t"
      using s by (simp_all add: t_def enc_fixed_def info_defs win_ok_def sinks_ok_def free_ok_def window_set_def undecided_ok_def sect_bytes_def Some y)
    moreover have "operands_frame s t" "acache t = acache s" "sect_bytes j t = sect_bytes j s" for j
      by (simp_all add: t_def operands_frame_def sect_bytes_def)
    ultimately show ?thesis by blast
  qed
qed

text \<open>The address in the window, and the rest of the copy.\<close>

lemma copy_address_ok:
  assumes s: "enc_fixed h base seg tgt s" and w: "window_set base seg s"
    and r: "true_inst base seg tgt inst" "ri_type inst = XD3_CPY" and e: "copy_address inst s = (addr, t)"
  shows "enc_fixed h base seg tgt t \<and> operands_frame s t \<and> acache t = acache s \<and>
    (\<forall>j. sect_bytes j t = sect_bytes j s) \<and> taroff t = taroff s \<and> (src t = None \<or> srcwin_decided t) \<and>
    unat addr < length seg + posn inst \<and> (unat addr < length seg \<longrightarrow> unat addr + len inst \<le> length seg) \<and>
    (\<forall>k < len inst. (seg @ tgt) ! (unat addr + k) = tgt ! (posn inst + k))"
proof -
  have n: "length seg + length tgt < 2 ^ 64" using s by (simp add: enc_fixed_def info_defs)
  have l: "0 < len inst" "posn inst + len inst \<le> length tgt"
    using r(1) by (simp_all add: true_inst_def in_target_def fin_def)
  have addr: "unat addr < length seg + posn inst \<and> (unat addr < length seg \<longrightarrow> unat addr + len inst \<le> length seg) \<and>
    (\<forall>k < len inst. (seg @ tgt) ! (unat addr + k) = tgt ! (posn inst + k))"
  proof (cases "ri_xtra inst = 0")
    case True
    have c: "unat (ri_addr inst) < posn inst" "\<forall>k < len inst. tgt ! (unat (ri_addr inst) + k) = tgt ! (posn inst + k)"
      using r True by (auto simp: true_inst_def)
    have "addr = of_nat (length seg) + ri_addr inst"
      using e True w by (auto simp: copy_address_def window_set_def split: option.splits)
    moreover have "unat (of_nat (length seg) :: usize_t) = length seg" using n by (intro unat_of_nat_64) simp
    ultimately have "unat addr = length seg + unat (ri_addr inst)"
      using c(1) l n unat_plus_64 [of "of_nat (length seg)" "ri_addr inst"] by simp
    then show ?thesis using c by (simp add: nth_append)
  next
    case False
    have c: "unat (ri_addr inst - base) + len inst \<le> length seg"
        "\<forall>k < len inst. seg ! (unat (ri_addr inst - base) + k) = tgt ! (posn inst + k)"
      using r False by (auto simp: true_inst_def)
    then have "seg \<noteq> []" using l by auto
    then have "addr = ri_addr inst - base"
      using e False w by (auto simp: copy_address_def window_set_def Let_def split: option.splits)
    then show ?thesis using c l by (auto simp: nth_append)
  qed
  have "\<exists>a b c d p q. t = s\<lparr>n_scpy := a, l_scpy := b, n_tcpy := c, l_tcpy := d, source_window_min := p, source_copy_highwater := q\<rparr>"
    using e by (cases s) (auto simp: copy_address_def xd3_source_window_update_def Let_def split: option.splits if_splits)
  then obtain a b c d p q where
    t: "t = s\<lparr>n_scpy := a, l_scpy := b, n_tcpy := c, l_tcpy := d, source_window_min := p, source_copy_highwater := q\<rparr>" by blast
  have "enc_fixed h base seg tgt t = enc_fixed h base seg tgt s"
    by (simp add: t enc_fixed_def info_defs win_ok_def sinks_ok_def free_ok_def undecided_ok_def sect_bytes_def cong: option.case_cong)
  then show ?thesis using addr s w by (simp add: t operands_frame_def sect_bytes_def window_set_def)
qed

lemma encode_address_grown:
  assumes "sinks_ok s" and a_def: "a = choose_address (acache s) addr here"
  obtains ret t where "grown ADDR (addr_bytes a) s (ret, t)"
    and "xd3_encode_address s addr here mode =
      (if ret = XD3_OK then (XD3_OK, t\<lparr>acache := xd3_update_cache (acache t) addr\<rparr>, mode + ucast (addr_mode a))
       else (ret, t, mode))"
proof (cases a)
  case (Addr_int d m)
  obtain ret t where t: "xd3_to_section ADDR (\<lambda>s chain. xd3_emit_size s chain d) s = (ret, t)" by fastforce
  have "grown ADDR (addr_bytes a) s (ret, t)"
    unfolding t [symmetric] addr_bytes_def Addr_int addr_code.case by (rule grown_size [OF assms(1)])
  then show thesis
    by (rule that) (use Addr_int t in \<open>simp add: xd3_encode_address_def a_def addr_mode_def\<close>)
next
  case (Addr_byte b m)
  obtain ret t where t: "xd3_to_section ADDR (\<lambda>s chain. xd3_emit_byte s chain b) s = (ret, t)" by fastforce
  have "grown ADDR (addr_bytes a) s (ret, t)"
    unfolding t [symmetric] addr_bytes_def Addr_byte addr_code.case by (rule grown_byte [OF assms(1)])
  then show thesis
    by (rule that) (use Addr_byte t in \<open>simp add: xd3_encode_address_def a_def addr_mode_def\<close>)
qed

text \<open>The type of a copy in the mode that was chosen.\<close>

lemma copy_type:
  assumes "cache_ok c" "s_near c = 4" "s_same c = 3" and m_def: "m = addr_mode (choose_address c addr here)"
  shows "ucast (XD3_CPY + ucast m - XD3_CPY) = m" "3 \<le> unat (XD3_CPY + ucast m :: uint8)" "unat (XD3_CPY + ucast m :: uint8) < 12"
proof -
  have u: "ucast (ucast m :: uint8) = m" unfolding m_def by (rule addr_mode_ucast [OF assms(1)])
  then show "ucast (XD3_CPY + ucast m - XD3_CPY) = m" by simp
  have "unat m < 9"
    using decode_choose_address(2) [of "stream_zero\<lparr>acache := c\<rparr>" _ addr here] assms by simp
  moreover have "unat (ucast m :: uint8) = unat m"
    using calculation by (simp add: unsigned_ucast_eq unsigned_take_bit_eq take_bit_nat_eq_self)
  ultimately have "unat (3 + ucast m :: uint8) = 3 + unat m"
    by (simp add: unat_word_ariths)
  then show "3 \<le> unat (XD3_CPY + ucast m :: uint8)" "unat (XD3_CPY + ucast m :: uint8) < 12"
    using \<open>unat m < 9\<close> by simp_all
qed

lemma vstep_copy:
  assumes "3 \<le> unat t" and "address_dec c (of_nat (length seg + length out)) (ucast (t - XD3_CPY)) a = Some (addr, a')"
    and "unat addr < length seg + length out" "unat addr < length seg \<longrightarrow> unat addr + unat n \<le> length seg"
  shows "vstep seg (t, n) (out, c, d, a) = Some (vcopy seg (unat addr) (unat n) out, xd3_update_cache c addr, d, a')"
proof -
  have "t \<noteq> 0" "t \<noteq> 1" "t \<noteq> 2" using assms(1) by auto
  then show ?thesis using assms by (simp add: vstep_def)
qed

lemma finish_copy_ok:
  assumes s: "enc_fixed h base seg tgt s" and r: "true_inst base seg tgt inst" "ri_type inst = XD3_CPY"
  shows "operands_ok h base seg tgt inst s (finish_copy inst s)"
proof -
  obtain t where t: "copy_start s = (XD3_OK, t)" and ft: "enc_fixed h base seg tgt t" "operands_frame s t"
      "acache t = acache s" "\<forall>j. sect_bytes j t = sect_bytes j s" and w: "window_set base seg t"
    using copy_start_ok [OF s] by blast
  obtain addr u where u: "copy_address inst t = (addr, u)" by fastforce
  note fu = copy_address_ok [OF ft(1) w r u]
  have sinks: "sinks_ok u" using fu by (simp add: enc_fixed_def info_defs)
  define here where "here = ri_pos inst + taroff u"
  define a where "a = choose_address (acache u) addr here"
  from encode_address_grown [OF sinks a_def, of XD3_CPY] obtain ret v where
    g: "grown ADDR (addr_bytes a) u (ret, v)" and
    e: "xd3_encode_address u addr here XD3_CPY =
      (if ret = XD3_OK then (XD3_OK, v\<lparr>acache := xd3_update_cache (acache v) addr\<rparr>, XD3_CPY + ucast (addr_mode a))
       else (ret, v, XD3_CPY))" by blast
  have fc: "finish_copy inst s = (if ret = XD3_OK
      then (XD3_OK, v\<lparr>acache := xd3_update_cache (acache v) addr\<rparr>, inst\<lparr>ri_type := XD3_CPY + ucast (addr_mode a)\<rparr>)
      else (ret, v, inst\<lparr>ri_type := XD3_CPY\<rparr>))"
    using t u e r(2) by (simp add: finish_copy_def copy_start_def [symmetric] here_def)
  show ?thesis
  proof (cases "ret = XD3_OK")
    case True
    have f: "enc_fixed h base seg tgt v" "operands_frame u v" "acache v = acache u"
        "\<forall>j. sect_bytes j v = sect_bytes j u @ (if j = ADDR then addr_bytes a else [])"
      using grown_fixed [of h base seg tgt u ADDR "addr_bytes a" v] fu g True by auto
    have c: "cache_ok (acache u)" "s_near (acache u) = 4" "s_same (acache u) = 3" using fu by (auto simp: enc_fixed_def info_defs)
    let ?v = "v\<lparr>acache := xd3_update_cache (acache v) addr\<rparr>"
    have "win_ok base seg ?v = win_ok base seg v" by (simp add: win_ok_def cong: option.case_cong)
    then have fix_v: "enc_fixed h base seg tgt ?v"
      using f(1) cache_ok_update [of "acache v" addr] by (simp add: enc_fixed_def info_defs sinks_ok_def free_ok_def undecided_ok_def sect_bytes_def)
    have frame_v: "operands_frame s ?v" using ft(2) fu f(2) by (simp add: operands_frame_def)
    define i where "i = inst\<lparr>ri_type := XD3_CPY + ucast (addr_mode a)\<rparr>"
    note ty = copy_type [OF c, of "addr_mode a" addr here, unfolded a_def, OF refl, folded a_def]
    have na: "XD3_CPY + ucast (addr_mode a) \<noteq> (XD3_ADD :: uint8)"
    proof
      assume "XD3_CPY + ucast (addr_mode a) = (XD3_ADD :: uint8)"
      then have "unat (XD3_CPY + ucast (addr_mode a) :: uint8) = 1" by (simp only: unsigned_1)
      then show False using ty(2) by simp
    qed
    have i: "inst_type_ok i"
      using ty r by (auto simp: inst_type_ok_def i_def true_inst_def in_target_def len_def word_less_nat_alt)
    have n: "length seg + length tgt < 2 ^ 64" "posn inst \<le> length tgt"
      using s r by (auto simp: enc_fixed_def info_defs true_inst_def in_target_def fin_def)
    have tu: "taroff u = of_nat (length seg)" using fu w by (simp add: window_set_def)
    have here: "of_nat (length seg + length (take (posn inst) tgt)) = here"
      using n(2) by (simp add: here_def tu posn_def min_def add.commute)
    have dec: "address_dec (acache u) here (addr_mode a) (addr_bytes a) = Some (addr, [])"
      using decode_choose_address(1) [of "stream_zero\<lparr>acache := acache u\<rparr>" a addr here "[]" 0] c(1)
      by (simp add: address_dec_def a_def)
    have "vstep seg (ri_type i, ri_size inst) (take (posn inst) tgt, acache u, [], addr_bytes a) =
        Some (vcopy seg (unat addr) (unat (ri_size inst)) (take (posn inst) tgt), xd3_update_cache (acache u) addr, [], [])"
      using ty(1,2) dec fu n(2) here by (intro vstep_copy) (simp_all add: i_def len_def)
    moreover have "vcopy seg (unat addr) (len inst) (take (posn inst) tgt) = take (fin inst) tgt"
      using fu r(1) unfolding fin_def by (intro vcopy_take) (auto simp: true_inst_def in_target_def fin_def)
    ultimately have "vstep seg (half_of i) (take (posn inst) tgt, acache s, [], addr_bytes a) =
        Some (take (fin inst) tgt, acache ?v, [], [])"
      using ft(3) fu f(3) by (simp add: half_of_def i_def len_def)
    then show ?thesis
      using i fix_v frame_v f(4) fu ft(4) True na by (auto simp: operands_ok_def fc i_def sect_bytes_def)
  next
    case False
    moreover have "alloc u = alloc s" using ft(2) fu by (simp add: operands_frame_def)
    ultimately show ?thesis using g by (auto simp: fc operands_ok_def grown_def)
  qed
qed

lemma operands_ok_finish:
  assumes "enc_fixed h base seg tgt s" and "true_inst base seg tgt inst \<or> ri_type inst = XD3_ADD \<and> in_target (length tgt) inst"
  shows "operands_ok h base seg tgt inst s (finish_operands inst s)"
proof -
  from assms(2) consider "ri_type inst = XD3_CPY" "true_inst base seg tgt inst"
    | "ri_type inst = XD3_RUN" "true_inst base seg tgt inst"
    | "ri_type inst = XD3_ADD" "in_target (length tgt) inst"
    by (auto simp: true_inst_def)
  then show ?thesis
    using finish_copy_ok [OF assms(1)] finish_run_ok [OF assms(1)] finish_add_ok [OF assms(1)]
    by cases (simp_all add: finish_operands_def)
qed

section \<open>Codes\<close>

lemma choose_none: "\<exists>c. snd (xd3_choose_instruction None i) = i\<lparr>ri_code1 := c\<rparr>"
  unfolding xd3_choose_instruction_def Let_def by (simp only: if_distrib [of snd] snd_conv split: if_split) blast

lemma half_of_code [simp]: "half_of (p\<lparr>ri_code1 := c\<rparr>) = half_of p" "half_of (p\<lparr>ri_code2 := c\<rparr>) = half_of p"
  by (simp_all add: half_of_def)

text \<open>Slots that are freed and the pointer \<open>iout\<close> are no part of what is fixed.\<close>

lemma enc_fixed_simps [simp]:
  "enc_fixed h base seg tgt (s\<lparr>iout := io\<rparr>) = enc_fixed h base seg tgt s"
  "enc_fixed h base seg tgt (s\<lparr>iopt_free := f\<rparr>) = enc_fixed h base seg tgt s"
  "enc_fixed h base seg tgt (s\<lparr>iopt_used := u\<rparr>) = enc_fixed h base seg tgt s"
  "enc_fixed h base seg tgt (s\<lparr>unencoded_offset := n\<rparr>) = enc_fixed h base seg tgt s"
  "enc_fixed h base seg tgt (xd3_iopt_free_nonadd i s) = enc_fixed h base seg tgt s"
  by (simp_all add: enc_fixed_def info_defs win_ok_def sinks_ok_def free_ok_def undecided_ok_def sect_bytes_def xd3_iopt_free_nonadd_def cong: option.case_cong)

lemma denotes_simps [simp]:
  "denotes seg pend out (s\<lparr>iout := io\<rparr>) = denotes seg pend out s"
  "denotes seg pend out (s\<lparr>iopt_free := f\<rparr>) = denotes seg pend out s"
  "denotes seg pend out (s\<lparr>iopt_used := u\<rparr>) = denotes seg pend out s"
  "denotes seg pend out (s\<lparr>unencoded_offset := n\<rparr>) = denotes seg pend out s"
  "denotes seg pend out (xd3_iopt_free_nonadd i s) = denotes seg pend out s"
  by (simp_all add: denotes_def sect_bytes_def xd3_iopt_free_nonadd_def)

lemma free_nonadd_simps [simp]:
  "iout (xd3_iopt_free_nonadd i s) = iout s" "unencoded_offset (xd3_iopt_free_nonadd i s) = unencoded_offset s"
  "iopt_used (xd3_iopt_free_nonadd i s) = iopt_used s" "iopt_size (xd3_iopt_free_nonadd i s) = iopt_size s"
  "alloc (xd3_iopt_free_nonadd i s) = alloc s"
  by (simp_all add: xd3_iopt_free_nonadd_def)

lemma emitted_denotes:
  assumes d: "denotes seg (pend @ later) out s" and g: "grown INST bs s (XD3_OK, t)"
    and h: "\<And>I hs. halves I = Some hs \<Longrightarrow> halves (I @ bs) = Some (hs @ pend)"
  shows "denotes seg later out t"
proof -
  have "out_only s t" using g by (simp add: grown_def)
  from out_only_fields(11) [OF this] have "acache t = acache s" .
  then show ?thesis using d g h by (auto simp: denotes_def grown_def)
qed

text \<open>What the codes do: \<open>i\<close> is written or kept back.\<close>

definition codes_ok :: "kept_info \<Rightarrow> xoff_t \<Rightarrow> uint8 list \<Rightarrow> uint8 list \<Rightarrow> uint8 list \<Rightarrow> xd3_rinst \<Rightarrow>
    xd3_encoder \<Rightarrow> xd3_rvalue \<times> xd3_encoder \<Rightarrow> bool" where
  "codes_ok h base seg tgt out i s r \<longleftrightarrow>
     (case r of (ret, t) \<Rightarrow> ret_ok (alloc s) ret \<and>
        (ret = XD3_OK \<longrightarrow> enc_fixed h base seg tgt t \<and> iout_ok (iout t) \<and> denotes seg (pending (iout t)) out t \<and>
           (\<forall>q. iout t = Iout q \<longrightarrow> ri_type q = ri_type i) \<and>
           unencoded_offset t = unencoded_offset s \<and> iopt_used t = iopt_used s \<and> iopt_size t = iopt_size s \<and>
           alloc t = alloc s))"

lemma finish_codes_ok:
  assumes s: "enc_fixed h base seg tgt s" "iout_ok (iout s)" and i: "inst_type_ok i" "ri_code2 i = 0"
    and d: "denotes seg (pending (iout s) @ [half_of i]) out s"
  shows "codes_ok h base seg tgt out i s (finish_codes i s)"
proof (cases "iout s")
  case Iout_dead
  then show ?thesis using s(2) by (simp add: iout_ok_def)
next
  case Iout_none
  let ?i = "snd (xd3_choose_instruction None i)"
  have c: "single_code_ok ?i" using i by (intro choose_single) (simp_all add: inst_type_ok_def)
  have e: "finish_codes i s = (XD3_OK, s\<lparr>iout := Iout ?i\<rparr>)" using Iout_none by (simp add: finish_codes_def)
  obtain k where k: "?i = i\<lparr>ri_code1 := k\<rparr>" using choose_none by blast
  have "half_of ?i = half_of i" "ri_type ?i = ri_type i" "inst_type_ok ?i \<and> ri_code2 ?i = 0" unfolding k using i by (simp_all add: inst_type_ok_def)
  then show ?thesis
    using s d c Iout_none by (simp add: codes_ok_def e iout_ok_def pending_def)
next
  case (Iout p)
  have p: "inst_type_ok p" "single_code_ok p" "ri_code2 p = 0" using s(2) by (simp_all add: Iout iout_ok_def)
  obtain prev' i' where ch: "xd3_choose_instruction (Some p) i = (prev', i')" by fastforce
  have "ri_type i \<noteq> XD3_NOOP" "ri_type i < 12" "ri_type p < 12" "ri_size p \<noteq> 0"
    using i p by (simp_all add: inst_type_ok_def)
  note cc = choose_codes [OF this ch]
  note i' = conjunct1 [OF cc]
  obtain k where k: "i' = i\<lparr>ri_code1 := k\<rparr>" using conjunct1 [OF conjunct2 [OF cc]] by (rule that)
  have hi: "half_of i' = half_of i" "inst_type_ok i'" "ri_code2 i' = 0" "ri_type i' = ri_type i"
    using i by (simp_all add: k inst_type_ok_def)
  show ?thesis
  proof (cases "prev' = Some p")
    case True
    have d: "denotes seg ([half_of p] @ [half_of i']) out s" using d by (simp add: Iout pending_def hi)
    let ?s = "s\<lparr>iout := Iout p\<rparr>"
    obtain ret t where t: "xd3_emit_single ?s p (ri_code1 p) = (ret, t)" by fastforce
    have g: "grown INST (single_bytes p) ?s (ret, t)"
      unfolding t [symmetric] by (rule emit_single_grown) (use s in \<open>simp_all add: enc_fixed_def info_defs sinks_ok_def free_ok_def\<close>)
    have e: "finish_codes i s = (if ret = XD3_OK then (XD3_OK, (xd3_iopt_free_nonadd p t)\<lparr>iout := Iout i'\<rparr>) else (ret, t))"
      using Iout ch True p(3) t by (simp add: finish_codes_def Let_def xd3_try_def)
    show ?thesis
    proof (cases "ret = XD3_OK")
      case ok: True
      have d': "denotes seg [half_of i'] out t"
      proof (rule emitted_denotes)
        show "denotes seg ([half_of p] @ [half_of i']) out ?s" using d by (simp only: denotes_simps)
        show "grown INST (single_bytes p) ?s (XD3_OK, t)" using g ok by simp
        show "halves (I @ single_bytes p) = Some (hs @ [half_of p])" if "halves I = Some hs" for I hs
          using halves_single [OF that p(2)] p(1) by (simp add: inst_type_ok_def)
      qed
      have "enc_fixed h base seg tgt t" "operands_frame ?s t" using grown_fixed [of h base seg tgt ?s INST "single_bytes p" t] s g ok by simp_all
      then show ?thesis
        using d' hi i' ok by (simp add: codes_ok_def e iout_ok_def pending_def operands_frame_def)
    next
      case False
      then show ?thesis using g by (simp add: codes_ok_def e grown_def)
    qed
  next
    case False
    then obtain p' where "prev' = Some p'" "\<exists>k. p' = p\<lparr>ri_code2 := k\<rparr>" "double_code_ok p' i'"
      using False conjunct2 [OF conjunct2 [OF cc]] by blast
    then obtain k2 where p': "prev' = Some p'" "p' = p\<lparr>ri_code2 := k2\<rparr>" "double_code_ok p' i'" by blast
    have hp: "half_of p' = half_of p" "ri_type p' = ri_type p" by (simp_all add: p'(2))
    have d: "denotes seg ([half_of p', half_of i'] @ []) out s" using d by (simp add: Iout pending_def hi hp)
    let ?s = "s\<lparr>iout := Iout p'\<rparr>"
    obtain ret t where t: "xd3_emit_double ?s p' i' (ri_code2 p') = (ret, t)" by fastforce
    have g: "grown INST [ri_code2 p'] ?s (ret, t)"
      unfolding t [symmetric] by (rule emit_double_grown) (use s in \<open>simp add: enc_fixed_def info_defs sinks_ok_def free_ok_def\<close>)
    have e: "finish_codes i s = (if ret = XD3_OK
        then (XD3_OK, (xd3_iopt_free_nonadd i' (xd3_iopt_free_nonadd p' t))\<lparr>iout := Iout_none\<rparr>) else (ret, t))"
      using Iout ch p'(1) double_code_nonzero [OF p'(3)] t by (simp add: finish_codes_def Let_def xd3_try_def)
    show ?thesis
    proof (cases "ret = XD3_OK")
      case ok: True
      have d': "denotes seg [] out t"
      proof (rule emitted_denotes)
        show "denotes seg ([half_of p', half_of i'] @ []) out ?s" using d by (simp only: denotes_simps)
        show "grown INST [ri_code2 p'] ?s (XD3_OK, t)" using g ok by simp
        show "halves (I @ [ri_code2 p']) = Some (hs @ [half_of p', half_of i'])" if "halves I = Some hs" for I hs
          using halves_double [OF that p'(3)] p(1) hi(2) hp(2) by (simp add: inst_type_ok_def)
      qed
      have "enc_fixed h base seg tgt t" "operands_frame ?s t" using grown_fixed [of h base seg tgt ?s INST "[ri_code2 p']" t] s g ok by simp_all
      then show ?thesis
        using d' ok by (simp add: codes_ok_def e iout_ok_def pending_def operands_frame_def)
    next
      case False
      then show ?thesis using g by (simp add: codes_ok_def e grown_def)
    qed
  qed
qed

section \<open>Whole instructions\<close>

text \<open>The result of encoding up to target position \<open>n\<close>.\<close>

definition encoded_to :: "kept_info \<Rightarrow> xoff_t \<Rightarrow> uint8 list \<Rightarrow> uint8 list \<Rightarrow> nat \<Rightarrow> xd3_encoder \<Rightarrow> xd3_rvalue \<times> xd3_encoder \<Rightarrow> bool" where
  "encoded_to h base seg tgt n s r \<longleftrightarrow>
     (case r of (ret, t) \<Rightarrow> ret_ok (alloc s) ret \<and>
        (ret = XD3_OK \<longrightarrow> encodes h base seg tgt t \<and> unat (unencoded_offset t) = n \<and>
           iopt_used t = iopt_used s \<and> iopt_size t = iopt_size s \<and> alloc t = alloc s))"

definition no_iadd :: "xd3_encoder \<Rightarrow> bool" where
  "no_iadd s \<longleftrightarrow> (\<forall>q. iout s = Iout q \<longrightarrow> ri_type q \<noteq> XD3_ADD)"

lemma operands_denote:
  assumes d: "denotes seg pend (take (posn inst) tgt) s" and r: "operands_ok h base seg tgt inst s (XD3_OK, t, i)"
  shows "denotes seg (pend @ [half_of i]) (take (fin inst) tgt) t"
proof -
  obtain hs where hs: "halves (sect_bytes INST s) = Some hs"
    "vrun seg (hs @ pend) ([], cache0, sect_bytes DATA s, sect_bytes ADDR s) = Some (take (posn inst) tgt, acache s, [], [])"
    using d by (auto simp: denotes_def)
  obtain d a where t: "sect_bytes INST t = sect_bytes INST s" "sect_bytes DATA t = sect_bytes DATA s @ d"
    "sect_bytes ADDR t = sect_bytes ADDR s @ a"
    "vstep seg (half_of i) (take (posn inst) tgt, acache s, d, a) = Some (take (fin inst) tgt, acache t, [], [])"
    using r by (auto simp: operands_ok_def)
  show ?thesis using vrun_snoc [OF hs(2) t(4)] hs(1) t(1-3) by (auto simp: denotes_def)
qed

lemma finish_encoding_ok:
  assumes s: "encodes h base seg tgt s" and at: "posn inst = unat (unencoded_offset s)"
    and r: "true_inst base seg tgt inst \<or> ri_type inst = XD3_ADD \<and> in_target (length tgt) inst"
  shows "encoded_to h base seg tgt (fin inst) s (xd3_iopt_finish_encoding s inst) \<and>
    (ri_type inst \<noteq> XD3_ADD \<longrightarrow> fst (xd3_iopt_finish_encoding s inst) = XD3_OK \<longrightarrow>
      no_iadd (snd (xd3_iopt_finish_encoding s inst)))"
proof -
  have f: "enc_fixed h base seg tgt s" "iout_ok (iout s)" using s by (simp_all add: encodes_def)
  obtain ret t i where t: "finish_operands inst s = (ret, t, i)" by (metis prod_cases3)
  have o: "operands_ok h base seg tgt inst s (ret, t, i)"
    unfolding t [symmetric] by (rule operands_ok_finish [OF f(1) r])
  show ?thesis
  proof (cases "ret = XD3_OK")
    case True
    have ot: "enc_fixed h base seg tgt t" "operands_frame s t" "inst_type_ok i" "ri_size i = ri_size inst"
      "ri_type i = XD3_ADD \<longrightarrow> ri_type inst = XD3_ADD"
      using o True by (auto simp: operands_ok_def)
    have "in_target (length tgt) inst" using r by (auto simp: true_inst_def)
    then have len: "fin inst \<le> length tgt" by (simp add: in_target_def)
    define u where "u = t\<lparr>unencoded_offset := unencoded_offset t + ri_size i\<rparr>"
    have off: "unat (unencoded_offset u) = fin inst"
    proof -
      have "length tgt < 2 ^ 64" using f(1) by (simp add: enc_fixed_def info_defs)
      then show ?thesis
        using ot(2,4) at len unat_plus_64 [of "unencoded_offset s" "ri_size inst"]
        by (simp add: u_def operands_frame_def fin_def len_def)
    qed
    define j where "j = i\<lparr>ri_code2 := 0\<rparr>"
    have e: "xd3_iopt_finish_encoding s inst = finish_codes j u"
      using True by (simp add: xd3_iopt_finish_encoding_def t u_def j_def)
    have "denotes seg (pending (iout s) @ [half_of i]) (take (fin inst) tgt) t"
      using operands_denote [OF _ o [unfolded True]] s at by (simp add: encodes_def)
    then have d: "denotes seg (pending (iout u) @ [half_of j]) (take (fin inst) tgt) u"
      using ot(2) by (simp add: u_def j_def operands_frame_def)
    have "codes_ok h base seg tgt (take (fin inst) tgt) j u (finish_codes j u)"
      by (rule finish_codes_ok [OF _ _ _ _ d]) (use ot f(2) in \<open>simp_all add: u_def j_def operands_frame_def inst_type_ok_def\<close>)
    then obtain r v where v: "finish_codes j u = (r, v)" and "codes_ok h base seg tgt (take (fin inst) tgt) j u (r, v)"
      by (cases "finish_codes j u") simp
    from this(2) have c: "ret_ok (alloc u) r"
      "r = XD3_OK \<longrightarrow> enc_fixed h base seg tgt v \<and> iout_ok (iout v) \<and> denotes seg (pending (iout v)) (take (fin inst) tgt) v \<and>
        (\<forall>q. iout v = Iout q \<longrightarrow> ri_type q = ri_type j) \<and>
        unencoded_offset v = unencoded_offset u \<and> iopt_used v = iopt_used u \<and> iopt_size v = iopt_size u \<and>
        alloc v = alloc u"
      unfolding codes_ok_def prod.case by blast+
    have us: "iopt_used u = iopt_used s" "iopt_size u = iopt_size s" "ri_type j = ri_type i" "alloc u = alloc s"
      using ot(2) by (simp_all add: u_def j_def operands_frame_def)
    show ?thesis
    proof (cases "r = XD3_OK")
      case True
      then have "encodes h base seg tgt v" "unat (unencoded_offset v) = fin inst" using c(2) off len by (simp_all add: encodes_def)
      moreover have "no_iadd v" if "ri_type inst \<noteq> XD3_ADD" using c(2) True us(3) ot(5) that unfolding no_iadd_def by metis
      moreover have "iopt_used v = iopt_used s" "iopt_size v = iopt_size s" "alloc v = alloc s" using c(2) True us by simp_all
      ultimately show ?thesis unfolding e v encoded_to_def prod.case fst_conv snd_conv using c(1) us(4) True by simp
    next
      case False
      then show ?thesis unfolding e v encoded_to_def prod.case fst_conv using c(1) us(4) by simp
    qed
  next
    case False
    then show ?thesis using o by (simp add: xd3_iopt_finish_encoding_def t operands_ok_def encoded_to_def)
  qed
qed

lemma part_true:
  assumes p: "part q r" and r: "true_inst base seg tgt r" and n: "length seg < 2 ^ 64"
  shows "true_inst base seg tgt q"
proof -
  define d where "d = posn q - posn r"
  have pq: "posn q = posn r + d" "d + len q \<le> len r" "ri_type q = ri_type r" "ri_xtra q = ri_xtra r"
    using p by (auto simp: part_def fin_def d_def)
  have dw: "unat (ri_pos q - ri_pos r) = d"
    using pq(1) by (simp add: d_def posn_def unat_sub word_le_nat_alt)
  have addr: "ri_addr q = ri_addr r + (ri_pos q - ri_pos r)" using p by (simp add: part_def)
  have t: "in_target (length tgt) q" using part_in_target [OF p] r by (simp add: true_inst_def)
  from r consider
      (run) "ri_type r = XD3_RUN" "take (len r) (drop (posn r) tgt) = replicate (len r) (ri_xtra r)"
    | (target) "ri_type r = XD3_CPY" "ri_xtra r = 0" "unat (ri_addr r) < posn r"
        "\<forall>k < len r. tgt ! (unat (ri_addr r) + k) = tgt ! (posn r + k)"
    | (source) "ri_type r = XD3_CPY" "ri_xtra r \<noteq> 0" "unat (ri_addr r - base) + len r \<le> length seg"
        "\<forall>k < len r. seg ! (unat (ri_addr r - base) + k) = tgt ! (posn r + k)"
    by (auto simp: true_inst_def)
  then show ?thesis
  proof cases
    case run
    have "take (len q) (drop (posn q) tgt) = take (len q) (drop d (take (len r) (drop (posn r) tgt)))"
      using pq by (simp add: drop_take add.commute min_def)
    also have "\<dots> = replicate (len q) (ri_xtra q)" using run(2) pq by simp
    finally show ?thesis using run t pq by (simp add: true_inst_def)
  next
    case target
    have "unat (ri_addr q) = unat (ri_addr r) + d"
      using target(3) pq(1) unat_plus_64 [of "ri_addr r" "ri_pos q - ri_pos r"] unat_bound_64 [of "ri_pos q"]
      by (simp add: addr dw posn_def)
    then show ?thesis using target t pq
      by (auto simp: true_inst_def add.assoc)
  next
    case source
    have "ri_addr q - base = (ri_addr r - base) + (ri_pos q - ri_pos r)" by (simp add: addr)
    moreover have "unat ((ri_addr r - base) + (ri_pos q - ri_pos r)) = unat (ri_addr r - base) + d"
      using source(3) pq(2) n unat_plus_64 [of "ri_addr r - base" "ri_pos q - ri_pos r"] by (simp add: dw)
    ultimately have "unat (ri_addr q - base) = unat (ri_addr r - base) + d" by (simp only:)
    then show ?thesis using source t pq
      by (auto simp: true_inst_def add.assoc)
  qed
qed

lemma encodes_simps [simp]:
  "encodes h base seg tgt (s\<lparr>iopt_free := f\<rparr>) = encodes h base seg tgt s"
  "encodes h base seg tgt (s\<lparr>iopt_used := u\<rparr>) = encodes h base seg tgt s"
  by (simp_all add: encodes_def)

lemma iopt_add_ok:
  assumes s: "encodes h base seg tgt s" and p: "unat pos \<le> length tgt"
  shows "encoded_to h base seg tgt (max (unat (unencoded_offset s)) (unat pos)) s (xd3_iopt_add s pos)"
proof (cases "pos > unencoded_offset s")
  case True
  define a where "a = rinst_zero\<lparr>ri_type := XD3_ADD, ri_pos := unencoded_offset s, ri_size := pos - unencoded_offset s\<rparr>"
  have l: "posn a = unat (unencoded_offset s)" "len a = unat pos - unat (unencoded_offset s)"
    using True by (simp_all add: a_def posn_def len_def unat_sub word_le_nat_alt word_less_nat_alt)
  have lt: "unat (unencoded_offset s) < unat pos" using True by (simp add: word_less_nat_alt)
  have "encoded_to h base seg tgt (fin a) s (xd3_iopt_finish_encoding s a)"
    using finish_encoding_ok [OF s l(1)] l lt p by (simp add: a_def in_target_def fin_def)
  moreover have "fin a = max (unat (unencoded_offset s)) (unat pos)" using l lt by (simp add: fin_def)
  ultimately show ?thesis using True by (simp add: xd3_iopt_add_def a_def Let_def)
next
  case False
  then have "xd3_iopt_add s pos = (XD3_OK, s)" by (simp add: xd3_iopt_add_def Let_def)
  moreover have "unat pos \<le> unat (unencoded_offset s)" using False by (simp add: not_less word_le_nat_alt)
  ultimately show ?thesis using s by (simp add: encoded_to_def max_def)
qed

lemma end_iadd_none: "no_iadd s \<Longrightarrow> end_iadd s = s"
  by (auto simp: end_iadd_def no_iadd_def split: xd3_iout.split)

lemma encoded_to_fail: "encoded_to h base seg tgt n s (r, t) \<Longrightarrow> alloc u = alloc s \<Longrightarrow> r \<noteq> XD3_OK \<Longrightarrow> encoded_to h base seg tgt m u (r, v)"
  by (simp add: encoded_to_def)

lemma add_encoding_ok:
  assumes s: "encodes h base seg tgt s" and r: "true_inst base seg tgt inst" and at: "unat (unencoded_offset s) \<le> posn inst"
  shows "encoded_to h base seg tgt (fin inst) s (xd3_iopt_add_encoding s inst)"
proof -
  obtain r1 s1 where a: "xd3_iopt_add s (ri_pos inst) = (r1, s1)" by fastforce
  have p: "unat (ri_pos inst) \<le> length tgt" using r by (simp add: true_inst_def in_target_def fin_def posn_def)
  have e: "encoded_to h base seg tgt (posn inst) s (r1, s1)"
    using iopt_add_ok [OF s p] at by (simp add: a posn_def max_def)
  show ?thesis
  proof (cases "r1 = XD3_OK")
    case True
    then have s1: "encodes h base seg tgt s1" "posn inst = unat (unencoded_offset s1)"
      "iopt_used s1 = iopt_used s" "iopt_size s1 = iopt_size s" "alloc s1 = alloc s"
      using e by (auto simp: encoded_to_def)
    obtain r2 s2 where f: "xd3_iopt_finish_encoding s1 inst = (r2, s2)" by fastforce
    have ne: "ri_type inst \<noteq> XD3_ADD" using r by (auto simp: true_inst_def)
    from finish_encoding_ok [OF s1(1,2) disjI1 [OF r]]
    have g: "encoded_to h base seg tgt (fin inst) s1 (r2, s2)" "r2 = XD3_OK \<longrightarrow> no_iadd s2"
      unfolding f using ne by simp_all
    have ae: "xd3_iopt_add_encoding s inst = (r2, end_iadd s2)"
      by (simp add: xd3_iopt_add_encoding_def a True f)
    show ?thesis
    proof (cases "r2 = XD3_OK")
      case ok: True
      then have "end_iadd s2 = s2" using g(2) by (simp add: end_iadd_none)
      then show ?thesis using g(1) s1(3-) by (simp add: ae encoded_to_def)
    next
      case False
      then show ?thesis unfolding ae by (rule encoded_to_fail [OF g(1) s1(5) [symmetric]])
    qed
  next
    case False
    then have "xd3_iopt_add_encoding s inst = (r1, end_iadd s1)"
      by (simp add: xd3_iopt_add_encoding_def a xd3_try_fail)
    then show ?thesis using encoded_to_fail [OF e refl False] by simp
  qed
qed

lemma iopt_pick_ok:
  assumes "encodes h base seg tgt s" and "\<forall>r \<in> set used. true_inst base seg tgt r" and "sorted_wrt apart used"
    and "\<forall>r \<in> set used. unat (unencoded_offset s) \<le> posn r"
  shows "case iopt_pick True flushed used s of (ret, t) \<Rightarrow>
    ret_ok (alloc s) ret \<and> (ret = XD3_OK \<longrightarrow> encodes h base seg tgt t \<and> alloc t = alloc s \<and> (used \<noteq> [] \<longrightarrow> iopt_used t = []))"
  using assms
proof (induction True flushed used s rule: iopt_pick.induct)
  case (2 flushed renc used s)
  let ?s = "s\<lparr>iopt_used := used\<rparr>"
  obtain r1 s1 where e: "xd3_iopt_add_encoding ?s renc = (r1, s1)" by fastforce
  have g: "encoded_to h base seg tgt (fin renc) ?s (r1, s1)"
    unfolding e [symmetric] by (rule add_encoding_ok) (use 2(3-) in simp_all)
  show ?case
  proof (cases "r1 = XD3_OK")
    case True
    then have s1: "encodes h base seg tgt s1" "unat (unencoded_offset s1) = fin renc" "iopt_used s1 = used" "alloc s1 = alloc s"
      using g by (auto simp: encoded_to_def)
    have "case iopt_pick True flushed used s1 of (ret, t) \<Rightarrow>
      ret_ok (alloc s1) ret \<and> (ret = XD3_OK \<longrightarrow> encodes h base seg tgt t \<and> alloc t = alloc s1 \<and> (used \<noteq> [] \<longrightarrow> iopt_used t = []))"
      by (rule 2(1) [OF _ _ s1(1)]) (use 2(3-) s1 True e in \<open>auto simp: apart_def\<close>)
    moreover have "iopt_pick True flushed (renc # used) s = iopt_pick True flushed used s1"
      by (simp add: e True)
    ultimately show ?thesis using s1(3,4) by (cases used) auto
  next
    case False
    then show ?thesis using g by (simp add: e xd3_try_fail encoded_to_def)
  qed
qed simp

section \<open>The window\<close>

lemma finalize_ok:
  assumes s: "encodes h base seg tgt s"
  shows "case xd3_iopt_add_finalize s of (ret, t) \<Rightarrow> ret_ok (alloc s) ret \<and>
    (ret = XD3_OK \<longrightarrow> encodes h base seg tgt t \<and> iout t = Iout_none \<and> unat (unencoded_offset t) = length tgt \<and> alloc t = alloc s \<and>
      iopt_used t = iopt_used s)"
proof -
  have n: "next_in s = tgt" "length tgt < 2 ^ 64" using s by (simp_all add: encodes_def enc_fixed_def info_defs)
  then have av: "unat (avail_in s) = length tgt" by (simp add: avail_in_def unat_of_nat_64)
  have off: "unat (unencoded_offset s) \<le> length tgt" using s by (simp add: encodes_def)
  obtain r1 s1 where a: "xd3_iopt_add s (avail_in s) = (r1, s1)" by fastforce
  have e: "encoded_to h base seg tgt (length tgt) s (r1, s1)"
    using iopt_add_ok [OF s, of "avail_in s"] av off by (simp add: a max_def)
  show ?thesis
  proof (cases "r1 = XD3_OK")
    case True
    then have s1: "encodes h base seg tgt s1" "unat (unencoded_offset s1) = length tgt" "alloc s1 = alloc s"
      "iopt_used s1 = iopt_used s"
      using e by (auto simp: encoded_to_def)
    then have f: "enc_fixed h base seg tgt s1" "iout_ok (iout s1)" "denotes seg (pending (iout s1)) tgt s1"
      by (simp_all add: encodes_def)
    show ?thesis
    proof (cases "iout s1")
      case Iout_none
      then show ?thesis using s1 by (simp add: xd3_iopt_add_finalize_def a True end_iadd_def)
    next
      case Iout_dead
      then show ?thesis using f(2) by (simp add: iout_ok_def)
    next
      case (Iout p)
      have p: "inst_type_ok p" "single_code_ok p" using f(2) by (simp_all add: Iout iout_ok_def)
      obtain r2 s2 where b: "xd3_emit_single s1 p (ri_code1 p) = (r2, s2)" by fastforce
      have g: "grown INST (single_bytes p) s1 (r2, s2)"
        unfolding b [symmetric] by (rule emit_single_grown) (use f(1) in \<open>simp_all add: enc_fixed_def info_defs\<close>)
      show ?thesis
      proof (cases "r2 = XD3_OK")
        case ok: True
        have "denotes seg [] tgt s2"
        proof (rule emitted_denotes)
          show "denotes seg ([half_of p] @ []) tgt s1" using f(3) by (simp add: Iout pending_def)
          show "grown INST (single_bytes p) s1 (XD3_OK, s2)" using g ok by simp
          show "halves (I @ single_bytes p) = Some (hs @ [half_of p])" if "halves I = Some hs" for I hs
            using halves_single [OF that p(2)] p(1) by (simp add: inst_type_ok_def)
        qed
        moreover have "enc_fixed h base seg tgt s2" "operands_frame s1 s2"
          using grown_fixed [OF f(1), of INST "single_bytes p" s2] g ok by simp_all
        ultimately have "encodes h base seg tgt ((xd3_iopt_free_nonadd p s2)\<lparr>iout := Iout_none\<rparr>)"
          and "unat (unencoded_offset s2) = length tgt" and "alloc s2 = alloc s" and "iopt_used s2 = iopt_used s"
          using s1(2-4) by (simp_all add: encodes_def iout_ok_def pending_def operands_frame_def)
        then show ?thesis
          by (simp add: xd3_iopt_add_finalize_def a True Iout b ok end_iadd_def)
      next
        case False
        then show ?thesis using g s1(3)
          by (simp add: xd3_iopt_add_finalize_def a True Iout b xd3_try_fail grown_def)
      qed
    qed
  next
    case False
    then show ?thesis using e by (simp add: xd3_iopt_add_finalize_def a xd3_try_fail encoded_to_def)
  qed
qed

lemma flush_ok:
  assumes s: "encodes h base seg tgt s" and found: "\<forall>r \<in> set (iopt_used s). true_inst base seg tgt r"
    and order: "sorted_wrt starts_first (iopt_used s)"
    and at: "\<forall>r \<in> set (iopt_used s). unat (unencoded_offset s) \<le> posn r"
  shows "case xd3_iopt_flush_instructions s True of (ret, t) \<Rightarrow> ret_ok (alloc s) ret \<and>
    (ret = XD3_OK \<longrightarrow> encodes h base seg tgt t \<and> alloc t = alloc s \<and> iopt_used t = [])"
proof -
  obtain used fr where c: "iopt_compact True [] (iopt_used s) [] = (used, fr)" by fastforce
  have n: "length tgt < 2 ^ 64" "length seg < 2 ^ 64" using s by (simp_all add: encodes_def enc_fixed_def info_defs)
  have t: "\<forall>f \<in> set (iopt_used s). in_target (length tgt) f" using found by (simp add: true_inst_def)
  have "choice_inv (length tgt) (set (iopt_used s)) [] (iopt_used s)"
    using order t by (auto simp: choice_inv_def in_target_def intro: part_refl)
  from iopt_compact_choice [OF this t n(1) c]
  have u: "sorted_wrt apart used" "\<forall>r \<in> set used. \<exists>f \<in> set (iopt_used s). part r f"
    by (simp_all add: choice_inv_def)
  have "\<forall>r \<in> set used. true_inst base seg tgt r" using u(2) found part_true n(2) by blast
  moreover have "\<forall>r \<in> set used. unat (unencoded_offset s) \<le> posn r"
    using u(2) at unfolding part_def by (meson order.trans)
  ultimately show ?thesis
    using iopt_pick_ok [of h base seg tgt "s\<lparr>iopt_used := used, iopt_free := iopt_free s @ fr\<rparr>" used 0] s u(1)
    by (cases used) (auto simp: xd3_iopt_flush_instructions_def c)
qed

section \<open>Properties\<close>

text \<open>The stream when a window's instructions are about to be written.\<close>

definition window_begins :: "xd3_encoder \<Rightarrow> bool" where
  "window_begins s \<longleftrightarrow> sinks_ok s \<and> (\<forall>k. k \<noteq> HDR \<longrightarrow> sect_bytes k s = []) \<and> code_table s = rfc3284_code_table \<and>
     acache s = cache0 \<and> iout s = Iout_none \<and> unencoded_offset s = 0 \<and> enc_state s = ENC_INSTR \<and>
     (\<forall>x. src s = Some x \<and> \<not> srcwin_decided s \<longrightarrow> srclen x = 0)"

lemma window_begins_encodes:
  assumes "window_begins s" and "win_ok base seg s" and "length seg + length (next_in s) < 2 ^ 64"
  shows "encodes (kept_info s) base seg (next_in s) s"
proof -
  have "cache_ok cache0" "s_near cache0 = 4" "s_same cache0 = 3"
    by (simp_all add: cache0_def cache_ok_def xd3_init_cache_def acache_zero_def Let_def)
  then show ?thesis using assms
    by (simp add: encodes_def enc_fixed_def info_defs undecided_ok_def window_begins_def iout_ok_def pending_def denotes_def)
qed

lemma window_encoded:
  assumes s: "window_begins s" "win_ok base seg s" "length seg + length (next_in s) < 2 ^ 64"
    and found: "\<forall>r \<in> set (iopt_used s). true_inst base seg (next_in s) r" "sorted_wrt starts_first (iopt_used s)"
  shows "case xd3_try (xd3_iopt_flush_instructions s True) xd3_iopt_add_finalize of (ret, t) \<Rightarrow>
    ret_ok (alloc s) ret \<and> (ret = XD3_OK \<longrightarrow> encodes (kept_info s) base seg (next_in s) t \<and> alloc t = alloc s \<and>
      iopt_used t = [] \<and> iout t = Iout_none \<and>
      vcdiff_window seg (sect_bytes DATA t) (sect_bytes INST t) (sect_bytes ADDR t) = Some (next_in s))"
proof -
  have e: "encodes (kept_info s) base seg (next_in s) s" by (rule window_begins_encodes [OF s])
  have off: "unencoded_offset s = 0" using s(1) by (simp add: window_begins_def)
  obtain r1 s1 where f: "xd3_iopt_flush_instructions s True = (r1, s1)" by fastforce
  have f1: "ret_ok (alloc s) r1" "r1 = XD3_OK \<longrightarrow> encodes (kept_info s) base seg (next_in s) s1 \<and> alloc s1 = alloc s \<and> iopt_used s1 = []"
    using flush_ok [OF e found] off by (simp_all add: f)
  show ?thesis
  proof (cases "r1 = XD3_OK")
    case True
    then have s1: "encodes (kept_info s) base seg (next_in s) s1" "alloc s1 = alloc s" "iopt_used s1 = []" using f1(2) by simp_all
    obtain r2 s2 where g: "xd3_iopt_add_finalize s1 = (r2, s2)" by fastforce
    have g1: "ret_ok (alloc s) r2" "r2 = XD3_OK \<longrightarrow> encodes (kept_info s) base seg (next_in s) s2 \<and> iout s2 = Iout_none \<and>
        unat (unencoded_offset s2) = length (next_in s) \<and> alloc s2 = alloc s \<and> iopt_used s2 = []"
      using finalize_ok [OF s1(1)] s1(2,3) by (simp_all add: g)
    have "vcdiff_window seg (sect_bytes DATA s2) (sect_bytes INST s2) (sect_bytes ADDR s2) = Some (next_in s)"
      if "r2 = XD3_OK"
      using g1(2) that by (auto simp: encodes_def denotes_def pending_def vcdiff_window_def cache0_def)
    then show ?thesis using g1 by (simp add: f True g)
  next
    case False
    then show ?thesis using f1(1) by (simp add: f xd3_try_fail)
  qed
qed

text \<open>C3: the instructions of a window are chosen, completed with ADDs and written so that the three sections
  mean the target.  If the matches in the instruction buffer, overlapping or not, are true of the target and
  of the source, then either an allocation fails or the data, instruction and address sections, executed as
  RFC 3284 says over the copy window, produce exactly the input window and use up every byte of the
  sections.\<close>

theorem sections_denote_target:
  assumes "window_begins s" and "win_ok base seg s" and "length seg + length (next_in s) < 2 ^ 64"
    and "\<forall>r \<in> set (iopt_used s). true_inst base seg (next_in s) r" and "sorted_wrt starts_first (iopt_used s)"
    and "xd3_try (xd3_iopt_flush_instructions s True) xd3_iopt_add_finalize = (ret, t)"
  shows "(ret = XD3_OK \<or> ret = ENOMEM \<and> (\<exists>n. \<not> alloc s n)) \<and>
    (ret = XD3_OK \<longrightarrow>
      vcdiff_window seg (sect_bytes DATA t) (sect_bytes INST t) (sect_bytes ADDR t) = Some (next_in s))"
  using window_encoded [OF assms(1-5)] assms(6) by (simp add: ret_ok_def)

text \<open>A window with a copy from the source, an overlapping copy within the target and a run.\<close>

definition window_example :: xd3_encoder where
  "window_example = encoder_zero
     \<lparr>next_in := [9, 1, 2, 3, 4, 1, 2, 3, 4, 1, 2, 7, 7, 7, 7, 7, 7, 7, 7, 5],
      src := Some \<lparr>blksize = 4, max_winsize = 4, curblkno = 0, onblk = 4, curblk = Some [1, 2, 3, 4],
        srclen = 0, srcbase = 0, shiftby = 2, maskby = 3, cpyoff_blocks = 0, cpyoff_blkoff = 0, getblkno = 0,
        max_blkno = 0, onlastblk = 4, eof_known = True\<rparr>,
      match_maxaddr := 4, enc_state := ENC_INSTR, code_table := rfc3284_code_table, acache := cache0,
      enc_chain := (\<lambda>_. [\<lparr>out_base = [], out_avail = 4\<rparr>]),
      iopt_used :=
        [rinst_zero\<lparr>ri_type := XD3_CPY, ri_xtra := 1, ri_pos := 1, ri_size := 4, ri_addr := 0\<rparr>,
         rinst_zero\<lparr>ri_type := XD3_CPY, ri_pos := 5, ri_size := 6, ri_addr := 1\<rparr>,
         rinst_zero\<lparr>ri_type := XD3_RUN, ri_xtra := 7, ri_pos := 11, ri_size := 8\<rparr>]\<rparr>"

lemmas window_example_eval = window_example_def encoder_zero_def xd3_outputs.extend_def outputs_zero_def
  xd3_stream.extend_def stream_zero_def xd3_outputs.fields_def rinst_zero_def

lemma all_below: "(\<forall>k < n. P k) = list_all P [0..<n]"
  by (auto simp: list_all_iff)

theorem sections_denote_target_witness:
  "\<exists>t. xd3_try (xd3_iopt_flush_instructions window_example True) xd3_iopt_add_finalize = (XD3_OK, t) \<and>
    vcdiff_window [1, 2, 3, 4] (sect_bytes DATA t) (sect_bytes INST t) (sect_bytes ADDR t) = Some (next_in window_example)"
proof -
  obtain ret t where e: "xd3_try (xd3_iopt_flush_instructions window_example True) xd3_iopt_add_finalize = (ret, t)" by fastforce
  have "window_begins window_example"
    by (simp add: window_begins_def window_example_eval sinks_ok_def free_ok_def chain_ok_def sect_bytes_def chain_bytes_def)
  moreover have "win_ok 0 [1, 2, 3, 4] window_example"
    by (simp add: win_ok_def window_example_eval)
  moreover have "length [1, 2, 3, 4 :: uint8] + length (next_in window_example) < 2 ^ 64"
    by (simp add: window_example_eval)
  moreover have "\<forall>r \<in> set (iopt_used window_example). true_inst 0 [1, 2, 3, 4] (next_in window_example) r"
    by (simp add: window_example_eval true_inst_def in_target_def fin_def posn_def len_def all_below, code_simp)
  moreover have "sorted_wrt starts_first (iopt_used window_example)"
    by (simp add: window_example_eval starts_first_def fin_def posn_def len_def)
  moreover have "\<forall>n. alloc window_example n" by (simp add: window_example_eval)
  ultimately show ?thesis using sections_denote_target [OF _ _ _ _ _ e, of 0 "[1, 2, 3, 4]"] e by auto
qed

end
