(* ===== verification/Xd3_Search.thy ===== *)
theory Xd3_Search
  imports Xd3_String_Match Xd3_Iopt_Encode
begin

text \<open>
  What the string matcher finds is true: every instruction it puts into the buffer describes the
  target, and they enter it in the order the choice among them relies on.
\<close>

section \<open>True matches\<close>

definition agree :: "uint8 list \<Rightarrow> nat \<Rightarrow> uint8 list \<Rightarrow> nat \<Rightarrow> nat \<Rightarrow> bool" where
  "agree xs a ys p l \<longleftrightarrow>
     l = 0 \<or> a + l \<le> length xs \<and> p + l \<le> length ys \<and> (\<forall>k < l. xs ! (a + k) = ys ! (p + k))"

text \<open>A source copy lies within the limits \<open>lo\<close> and \<open>hi\<close> of the source matches.\<close>

definition match_ok :: "uint8 list \<Rightarrow> nat \<Rightarrow> nat \<Rightarrow> uint8 list \<Rightarrow> xd3_rinst \<Rightarrow> bool" where
  "match_ok file lo hi tgt r \<longleftrightarrow> in_target (length tgt) r \<and>
     (ri_type r = XD3_RUN \<and> take (len r) (drop (posn r) tgt) = replicate (len r) (ri_xtra r) \<or>
      ri_type r = XD3_CPY \<and> ri_xtra r = 0 \<and> unat (ri_addr r) < posn r \<and>
        agree tgt (unat (ri_addr r)) tgt (posn r) (len r) \<or>
      ri_type r = XD3_CPY \<and> ri_xtra r \<noteq> 0 \<and> lo \<le> unat (ri_addr r) \<and> unat (ri_addr r) + len r \<le> hi \<and>
        agree file (unat (ri_addr r)) tgt (posn r) (len r))"

text \<open>The instructions are true of the copy window that the limits of the matches determine.\<close>

lemma match_true:
  assumes r: "match_ok file (unat lo) (unat hi) tgt r" and hi: "unat hi \<le> length file"
  shows "true_inst lo (take (unat hi - unat lo) (drop (unat lo) file)) tgt r"
proof -
  have t: "0 < len r" using r by (simp add: match_ok_def in_target_def)
  show ?thesis
  proof (cases "ri_type r = XD3_CPY \<and> ri_xtra r \<noteq> 0")
    case True
    then have c: "unat lo \<le> unat (ri_addr r)" "unat (ri_addr r) + len r \<le> unat hi"
        "\<forall>k < len r. file ! (unat (ri_addr r) + k) = tgt ! (posn r + k)"
      using r t by (auto simp: match_ok_def agree_def)
    have "unat (ri_addr r - lo) = unat (ri_addr r) - unat lo" using c(1) by (simp add: unat_sub word_le_nat_alt)
    then show ?thesis using True r c hi t by (auto simp: true_inst_def match_ok_def)
  qed (use r t in \<open>auto simp: true_inst_def match_ok_def agree_def\<close>)
qed

lemma match_ok_mono: "match_ok file lo hi tgt r \<Longrightarrow> lo' \<le> lo \<Longrightarrow> hi \<le> hi' \<Longrightarrow> match_ok file lo' hi' tgt r"
  by (auto simp: match_ok_def)

section \<open>The buffer\<close>

definition found_ok :: "uint8 list \<Rightarrow> xd3_encoder \<Rightarrow> bool" where
  "found_ok file s \<longleftrightarrow>
     (\<forall>r \<in> set (iopt_used s). match_ok file (unat (match_minaddr s)) (unat (match_maxaddr s)) (next_in s) r) \<and>
     sorted_wrt starts_first (iopt_used s) \<and> unat (match_maxaddr s) \<le> length file"

definition slot_frame :: "xd3_encoder \<Rightarrow> xd3_encoder \<Rightarrow> bool" where
  "slot_frame s t \<longleftrightarrow> (\<exists>ac fr sz sl. t = s\<lparr>alloc_cnt := ac, iopt_free := fr, iopt_size := sz, i_slots_used := sl\<rparr>)"

lemma get_slot_ok:
  assumes "iopt_unlimited s" and "xd3_iopt_get_slot s = (ret, t)"
  shows "ret_ok (alloc s) ret \<and> (ret = XD3_OK \<longrightarrow> (\<exists>x. slot_frame (s\<lparr>iopt_used := iopt_used s @ [x]\<rparr>) t))"
  using assms
  by (cases s)
    (auto simp: xd3_iopt_get_slot_def xd3_alloc_iopt_def xd3_alloc_def Let_def xd3_try_def ret_ok_def slot_frame_def
      split: if_splits prod.splits)

lemma put_slot_ok:
  assumes "iopt_unlimited s" and "xd3_try (xd3_iopt_get_slot s) (\<lambda>s. (XD3_OK, set_slot f s)) = (ret, t)"
  shows "ret_ok (alloc s) ret \<and> (ret = XD3_OK \<longrightarrow> (\<exists>x. slot_frame (s\<lparr>iopt_used := iopt_used s @ [f x]\<rparr>) t))"
proof (cases "xd3_iopt_get_slot s")
  case (Pair r u)
  note g = get_slot_ok [OF assms(1) Pair]
  show ?thesis
  proof (cases "r = XD3_OK")
    case True
    then obtain x ac fr sz sl where u: "u = s\<lparr>iopt_used := iopt_used s @ [x], alloc_cnt := ac, iopt_free := fr,
        iopt_size := sz, i_slots_used := sl\<rparr>"
      using g by (auto simp: slot_frame_def)
    have "ret = XD3_OK" "t = set_slot f u" using assms(2) Pair True by simp_all
    moreover have "slot_frame (s\<lparr>iopt_used := iopt_used s @ [f x]\<rparr>) (set_slot f u)"
      unfolding slot_frame_def
      by (rule exI [of _ ac], rule exI [of _ fr], rule exI [of _ sz], rule exI [of _ sl])
        (cases s, simp add: u set_slot_def)
    ultimately show ?thesis by auto
  next
    case False
    then show ?thesis using g assms(2) Pair by (simp add: xd3_try_fail)
  qed
qed

lemma found_ok_add:
  assumes s: "found_ok file s" and r: "match_ok file (unat (match_minaddr s)) (unat (match_maxaddr s)) (next_in s) r"
    and o: "iopt_used s \<noteq> [] \<Longrightarrow> starts_first (last (iopt_used s)) r"
    and t: "slot_frame (s\<lparr>iopt_used := iopt_used s @ [r]\<rparr>) t"
  shows "found_ok file t"
proof -
  have "starts_first a r" if "a \<in> set (iopt_used s)" for a
  proof -
    have ne: "iopt_used s = butlast (iopt_used s) @ [last (iopt_used s)]" using that by (cases "iopt_used s" rule: rev_cases) auto
    have "sorted_wrt starts_first (butlast (iopt_used s) @ [last (iopt_used s)])"
      using s ne by (simp add: found_ok_def)
    then have "a = last (iopt_used s) \<or> starts_first a (last (iopt_used s))"
      using that by (subst (asm) (3) ne) (auto simp: sorted_wrt_append)
    moreover have "iopt_used s \<noteq> []" using that by auto
    ultimately show ?thesis using o by (auto simp: starts_first_def)
  qed
  then show ?thesis using s r t by (auto simp: found_ok_def slot_frame_def sorted_wrt_append)
qed

section \<open>Runs\<close>

text \<open>The last \<open>l\<close> bytes of the segment, or all of it, are \<open>c\<close>.\<close>

definition run_tail :: "uint8 list \<Rightarrow> uint8 \<Rightarrow> nat \<Rightarrow> bool" where
  "run_tail seg c l \<longleftrightarrow> (\<forall>k < l. k < length seg \<longrightarrow> rev seg ! k = c)"

lemma run_tail_next:
  assumes "run_tail seg c (unat l)" and "NEXTRUN (c, l) b = (c', l')"
  shows "run_tail (seg @ [b]) c' (unat l')"
proof (cases "b = c")
  case True
  have "unat (l + 1) \<le> unat l + 1" by (simp add: unat_word_ariths)
  then show ?thesis using assms True by (auto simp: run_tail_def nth_Cons split: nat.splits)
next
  case False
  then show ?thesis using assms by (auto simp: run_tail_def)
qed

lemma run_tail_tl: "run_tail (x # seg) c l \<Longrightarrow> run_tail seg c l"
  by (auto simp: run_tail_def nth_append)

lemma run_tail_comprun:
  "xd3_comprun seg slook = (l, c) \<Longrightarrow> run_tail (take (unat slook) seg) c (unat l)"
proof -
  have "foldl NEXTRUN (0, 0) xs = (c, l) \<Longrightarrow> run_tail xs c (unat l)" for xs c l
  proof (induction xs arbitrary: c l rule: rev_induct)
    case (snoc b xs)
    obtain c0 l0 where "foldl NEXTRUN (0, 0) xs = (c0, l0)" by fastforce
    then show ?case using snoc run_tail_next by simp
  qed (simp add: run_tail_def)
  then show "xd3_comprun seg slook = (l, c) \<Longrightarrow> run_tail (take (unat slook) seg) c (unat l)"
    by (auto simp: xd3_comprun_def split: prod.splits)
qed

lemma run_tail_all:
  assumes "run_tail seg c l" and "length seg \<le> l" and "k < length seg"
  shows "seg ! k = c"
  using assms by (auto simp: run_tail_def dest!: spec [of _ "length seg - 1 - k"] simp: rev_nth)

lemma run_extend_ok:
  assumes "run_l \<le> max_len" and "unat max_len \<le> length inp" and "\<forall>k < unat run_l. inp ! k = c"
  shows "run_l \<le> run_extend inp c max_len run_l \<and> run_extend inp c max_len run_l \<le> max_len \<and>
    (\<forall>k < unat (run_extend inp c max_len run_l). inp ! k = c)"
  using assms
proof (induction inp c max_len run_l rule: run_extend.induct)
  case (1 inp c max_len run_l)
  show ?case
  proof (cases "run_l < max_len \<and> inp ! unat run_l = c")
    case True
    have u: "unat (run_l + 1) = unat run_l + 1"
      using True unat_plus_64 [of run_l 1] unat_bound_64 [of max_len] by (simp add: word_less_nat_alt)
    then have "run_l + 1 \<le> max_len" "run_l \<le> run_l + 1" using True by (simp_all add: word_le_nat_alt word_less_nat_alt)
    moreover have "\<forall>k < unat (run_l + 1). inp ! k = c"
      using 1(4) True by (auto simp: u less_Suc_eq)
    moreover have "run_extend inp c max_len run_l = run_extend inp c max_len (run_l + 1)"
      using if_P [OF True] by (subst run_extend.simps)
    ultimately show ?thesis using 1(1) [OF True _ 1(3)] by (metis (no_types) order.trans)
  next
    case False
    then have "run_extend inp c max_len run_l = run_l" by (subst run_extend.simps) (rule if_not_P)
    then show ?thesis using 1(2,4) by simp
  qed
qed

section \<open>Matches in the target\<close>

definition target_match :: "xd3_encoder \<Rightarrow> usize_t \<Rightarrow> usize_t \<Rightarrow> bool" where
  "target_match s l off \<longleftrightarrow> l = 0 \<or>
     off < input_position s \<and> agree (next_in s) (unat off) (next_in s) (unat (input_position s)) (unat l)"

lemma smatch_compare:
  assumes "base < input_position s" and "unat (input_position s) \<le> length (next_in s)" and "length (next_in s) < 2 ^ 64"
  defines "pos \<equiv> unat (input_position s)"
  defines "c \<equiv> byte_loop (drop (unat base) (next_in s)) (drop pos (next_in s)) (length (next_in s) - pos) 0"
  shows "target_match s (of_nat c) base \<and> c \<le> length (next_in s) - pos \<and> unat (of_nat c :: usize_t) = c"
proof -
  let ?inp = "next_in s" and ?n = "length (next_in s) - pos"
  have b: "unat base < pos" using assms(1) by (simp add: word_less_nat_alt pos_def)
  let ?x = "take ?n (drop (unat base) ?inp)" and ?y = "take ?n (drop pos ?inp)"
  have c: "c = common ?x ?y"
    using byte_loop_common [of 0 ?n "drop (unat base) ?inp" "drop pos ?inp"] b by (simp add: c_def)
  then have le: "c \<le> ?n" using common_le(2) [of ?x ?y] by simp
  then have u: "unat (of_nat c :: usize_t) = c" using assms(3) by (intro unat_of_nat_64) simp
  have "take c ?x = take c ?y" unfolding c by (rule common_take)
  then have "?x ! k = ?y ! k" if "k < c" for k using that by (metis nth_take)
  then have "\<forall>k < c. ?inp ! (unat base + k) = ?inp ! (pos + k)" using le b assms(2) by (auto simp: pos_def)
  then have "agree ?inp (unat base) ?inp pos c" using le b assms(2) by (auto simp: agree_def pos_def)
  then show ?thesis using u le assms(1) by (simp add: target_match_def pos_def)
qed

lemma smatch_again_ok:
  assumes "smatch_again s base chain l0 off0 = Some (l, off)" and "target_match s l0 off0"
    and "unat (input_position s) \<le> length (next_in s)" and "length (next_in s) < 2 ^ 64"
  shows "target_match s l off"
  using assms
proof (induction s base chain l0 off0 arbitrary: l off rule: smatch_again.induct)
  case (1 s base chain l0 off0)
  have b: "base < input_position s"
    using 1(2) by (subst (asm) smatch_again.simps) (auto simp: Let_def split: if_splits)
  define pos where "pos = unat (input_position s)"
  define n where "n = length (next_in s) - pos"
  define c where "c = byte_loop (drop (unat base) (next_in s)) (drop pos (next_in s)) n 0"
  define l1 where "l1 = (if of_nat c > l0 then of_nat c else l0)"
  define off1 where "off1 = (if of_nat c > l0 then base else off0)"
  have t: "target_match s l1 off1"
    using smatch_compare [OF b 1(4,5)] 1(3) by (simp add: l1_def off1_def c_def n_def pos_def)
  have step: "smatch_again s base chain l0 off0 =
      (if of_nat c > l0 \<and> (c = n \<or> of_nat c \<ge> long_enough (smatcher s)) then Some (l1, off1)
       else if chain - 1 = 0 then Some (l1, off1)
       else
         case table_get (small_prev s) (base AND sprevmask s) of
           None \<Rightarrow> None
         | Some prev_pos \<Rightarrow>
             if prev_pos = 0 then Some (l1, off1)
             else if prev_pos - 1 > base then Some (l1, off1)
             else if (input_position s - (prev_pos - 1)) AND NOT (sprevmask s) \<noteq> 0 then Some (l1, off1)
             else smatch_again s (prev_pos - 1) (chain - 1) l1 off1)"
    using b by (subst smatch_again.simps) (simp only: Let_def pos_def n_def c_def l1_def off1_def not_not simp_thms if_False)
  note ih = 1(1) [OF refl pos_def, folded n_def, OF refl, unfolded not_not, OF b, folded c_def]
  show ?case
  proof (cases "\<exists>p. smatch_again s base chain l0 off0 = smatch_again s (p - 1) (chain - 1) l1 off1 \<and>
      \<not> (of_nat c > l0 \<and> (c = n \<or> of_nat c \<ge> long_enough (smatcher s))) \<and> chain - 1 \<noteq> 0 \<and>
      table_get (small_prev s) (base AND sprevmask s) = Some p \<and> p \<noteq> 0 \<and> \<not> p - 1 > base \<and>
      (input_position s - (p - 1)) AND NOT (sprevmask s) = 0")
    case True
    then obtain p where p: "smatch_again s base chain l0 off0 = smatch_again s (p - 1) (chain - 1) l1 off1"
      "\<not> (of_nat c > l0 \<and> (c = n \<or> of_nat c \<ge> long_enough (smatcher s)))" "chain - 1 \<noteq> 0"
      "table_get (small_prev s) (base AND sprevmask s) = Some p" "p \<noteq> 0" "\<not> p - 1 > base"
      "(input_position s - (p - 1)) AND NOT (sprevmask s) = 0" by blast
    show ?thesis
      by (rule ih [OF refl refl refl l1_def off1_def p(2-7)]) (use 1(2,4,5) p(1) t in simp_all)
  next
    case False
    then show ?thesis using 1(2) t unfolding step by (auto split: if_splits option.splits)
  qed
qed

section \<open>Extending a match\<close>

lemma agree_back:
  assumes "agree xs a ys p l" and "m \<le> a" "m \<le> p" and "a \<le> length xs" "p \<le> length ys"
    and "\<forall>k < m. xs ! (a - 1 - k) = ys ! (p - 1 - k)"
  shows "agree xs (a - m) ys (p - m) (m + l)"
proof -
  have "xs ! (a - m + k) = ys ! (p - m + k)" if k: "k < m + l" for k
  proof (cases "k < m")
    case True
    then have "xs ! (a - 1 - (m - 1 - k)) = ys ! (p - 1 - (m - 1 - k))" by (intro assms(6) [rule_format]) simp
    moreover have "a - 1 - (m - 1 - k) = a - m + k" "p - 1 - (m - 1 - k) = p - m + k" using True assms(2,3) by linarith+
    ultimately show ?thesis by (simp only:)
  next
    case False
    have kl: "k - m < l" using False k by simp
    have all: "\<forall>j < l. xs ! (a + j) = ys ! (p + j)" using assms(1) by (auto simp: agree_def)
    have "xs ! (a + (k - m)) = ys ! (p + (k - m))" by (rule all [THEN spec, THEN mp, OF kl])
    moreover have "a + (k - m) = a - m + k" "p + (k - m) = p - m + k" using False assms(2,3) by linarith+
    ultimately show ?thesis by (simp only:)
  qed
  moreover have "a - m + (m + l) \<le> length xs" "p - m + (m + l) \<le> length ys"
    using assms by (auto simp: agree_def)
  ultimately show ?thesis by (auto simp: agree_def)
qed

lemma agree_fwd:
  assumes "agree xs a ys p l" and "a + l + m \<le> length xs" "p + l + m \<le> length ys"
    and "\<forall>k < m. xs ! (a + l + k) = ys ! (p + l + k)"
  shows "agree xs a ys p (l + m)"
proof -
  have "xs ! (a + k) = ys ! (p + k)" if k: "k < l + m" for k
  proof (cases "k < l")
    case True
    then show ?thesis using assms(1) by (auto simp: agree_def)
  next
    case False
    then show ?thesis using assms(4) [rule_format, of "k - l"] k by auto
  qed
  then show ?thesis using assms(2,3) by (auto simp: agree_def)
qed

lemma back_scan_ok:
  assumes "back_scan blk inp r i j = Some m"
  shows "m \<le> r \<and> m \<le> i \<and> m \<le> j \<and> (0 < r \<longrightarrow> i \<le> length blk \<and> j \<le> length inp) \<and>
    (\<forall>k < m. blk ! (i - 1 - k) = inp ! (j - 1 - k))"
  using assms
proof (induction blk inp r i j arbitrary: m rule: back_scan.induct)
  case (2 blk inp r i j)
  then have ne: "0 < i" "i \<le> length blk" "0 < j" "j \<le> length inp" by (auto split: if_splits)
  show ?case
  proof (cases "blk ! (i - 1) = inp ! (j - 1)")
    case True
    then obtain m' where m': "back_scan blk inp r (i - 1) (j - 1) = Some m'" "m = Suc m'"
      using 2(2) ne by (auto split: if_splits)
    have "blk ! (i - 1 - k) = inp ! (j - 1 - k)" if "k < m" for k
      using 2(1) [OF _ _ m'(1)] True ne m'(2) that by (cases k) (auto simp: not_less)
    then show ?thesis using 2(1) [OF _ _ m'(1)] True ne m'(2) by auto
  next
    case False
    then show ?thesis using 2(2) ne by (auto split: if_splits)
  qed
qed simp

text \<open>The limits of a match that is under way, and what it has found.\<close>

definition match_progress :: "uint8 list \<Rightarrow> xd3_encoder \<Rightarrow> bool" where
  "match_progress file s \<longleftrightarrow>
     (let b = unat (match_back s); f = unat (match_fwd s); sp = unat (match_srcpos s);
          p = unat (input_position s); n = length (next_in s) in
      b \<le> unat (match_maxback s) \<and> f \<le> unat (match_maxfwd s) \<and> unat (match_maxback s) \<le> sp \<and>
      unat (match_maxback s) \<le> p \<and> p \<le> n \<and> unat (match_maxfwd s) \<le> n - p \<and>
      agree file (sp - b) (next_in s) (p - b) b \<and> agree file sp (next_in s) p f)"

definition extend_frame :: "xd3_encoder \<Rightarrow> xd3_encoder \<Rightarrow> bool" where
  "extend_frame s t \<longleftrightarrow> (\<exists>x m b f. t = s\<lparr>src := x, msg := m, match_back := b, match_fwd := f\<rparr>)"

lemma extend_frame_trans: "extend_frame s t \<Longrightarrow> extend_frame t u \<Longrightarrow> extend_frame s u"
  unfolding extend_frame_def by (elim exE) (intro exI, simp)

definition extend_inv :: "uint8 list \<Rightarrow> xd3_source \<Rightarrow> xd3_encoder \<Rightarrow> bool" where
  "extend_inv file x s \<longleftrightarrow> src_true file s \<and> (\<exists>y. src s = Some y \<and> same_source x y) \<and> match_progress file s"

lemma progress_frame [simp]:
  "match_progress file (s\<lparr>src := y\<rparr>) = match_progress file s" "match_progress file (s\<lparr>msg := m\<rparr>) = match_progress file s"
  by (simp_all add: match_progress_def)

lemma same_source_trans: "same_source x y \<Longrightarrow> same_source y z \<Longrightarrow> same_source x z"
  by (simp add: same_source_def)

lemma getblk_extend:
  assumes "extend_inv file x s" and "xd3_getblk s blkno = (ret, t)"
  shows "extend_inv file x t \<and> extend_frame s t \<and> match_back t = match_back s \<and> match_fwd t = match_fwd s \<and>
    ret \<notin> {C_UNDEFINED, C_DIVERGES} \<and>
    (ret = XD3_OK \<longrightarrow> src_block t = Some (block_of file (unat (blksize x)) (unat blkno)) \<and>
      (\<exists>y. src t = Some y \<and> unat (onblk y) = length (block_of file (unat (blksize x)) (unat blkno))))"
proof -
  obtain y where y: "src s = Some y" "same_source x y" using assms(1) by (auto simp: extend_inv_def)
  have st: "src_true file s" using assms(1) by (simp add: extend_inv_def)
  from getblk_true [OF st y(1) assms(2)] obtain z m where z: "t = s\<lparr>src := Some z, msg := m\<rparr>" "src_true file t"
    "same_source y z" "ret = XD3_OK \<longrightarrow> curblk z = Some (block_of file (unat (blksize y)) (unat blkno)) \<and>
      unat (onblk z) = length (block_of file (unat (blksize y)) (unat blkno))" "ret \<notin> {C_UNDEFINED, C_DIVERGES}"
    by blast
  have "extend_frame s t"
    unfolding extend_frame_def z(1)
    by (rule exI [of _ "Some z"], rule exI [of _ m], rule exI [of _ "match_back s"], rule exI [of _ "match_fwd s"]) simp
  moreover have "blksize y = blksize x" using y(2) by (simp add: same_source_def)
  ultimately show ?thesis
    using assms(1) z y same_source_trans [OF y(2) z(3)] by (auto simp: extend_inv_def src_block_def)
qed

lemma extend_back_step:
  fixes tryblk :: xoff_t and tryoff streamoff tryrem :: usize_t
  assumes "extend_inv file x s" and "match_back s < match_maxback s"
    and at: "unat tryblk * unat (blksize x) + unat tryoff = unat (match_srcpos s) - unat (match_back s)"
    and soff: "unat streamoff = unat (input_position s) - unat (match_back s)"
    and r: "unat tryrem \<le> unat tryoff" "unat tryrem \<le> unat (match_maxback s) - unat (match_back s)" "tryrem \<noteq> 0"
    and m: "back_scan (block_of file (unat (blksize x)) (unat tryblk)) (next_in s) (unat tryrem) (unat tryoff) (unat streamoff) = Some m"
  defines "t \<equiv> s\<lparr>match_back := match_back s + of_nat m\<rparr>"
  shows "extend_inv file x t \<and> extend_frame s t \<and> m \<le> unat tryrem \<and>
    unat (tryoff - of_nat m) = unat tryoff - m \<and> unat (match_back t) = unat (match_back s) + m"
proof -
  let ?b = "unat (match_back s)" and ?sp = "unat (match_srcpos s)" and ?p = "unat (input_position s)"
  let ?blk = "block_of file (unat (blksize x)) (unat tryblk)"
  have pr: "match_progress file s" using assms(1) by (simp add: extend_inv_def)
  note bs = back_scan_ok [OF m]
  have um: "unat (of_nat m :: usize_t) = m" using bs unat_bound_64 [of tryrem] by (intro unat_of_nat_64) simp
  have mb: "?b < unat (match_maxback s)" using assms(2) by (simp add: word_less_nat_alt)
  have "?b + m < 2 ^ 64" using bs r mb unat_bound_64 [of "match_maxback s"] by linarith
  then have bm: "unat (match_back t) = ?b + m"
    using um unat_plus_64 [of "match_back s" "of_nat m"] by (simp add: t_def)
  have off: "unat (tryoff - of_nat m) = unat tryoff - m" using bs um by (simp add: unat_sub word_le_nat_alt)
  have "match_progress file t"
  proof (cases "m = 0")
    case True
    then show ?thesis using pr by (simp add: match_progress_def t_def)
  next
    case False
    then have tr: "0 < unat tryrem" "0 < unat tryoff" using bs by auto
    then have tl: "unat tryoff \<le> length ?blk" using bs by simp
    have byte: "?blk ! (unat tryoff - 1 - k) = file ! (?sp - ?b - 1 - k)" if "k < unat tryoff" for k
    proof -
      have "unat tryoff - 1 - k < length ?blk" using that tl by linarith
      then have "?blk ! (unat tryoff - 1 - k) = file ! (unat tryblk * unat (blksize x) + (unat tryoff - 1 - k))"
        using block_byte by blast
      also have "unat tryblk * unat (blksize x) + (unat tryoff - 1 - k) = ?sp - ?b - 1 - k" using at that by linarith
      finally show ?thesis .
    qed
    have last: "?sp - ?b \<le> length file"
    proof -
      have "unat tryoff - 1 < length ?blk" using tl tr by linarith
      from block_byte [OF this] show ?thesis using at tr by linarith
    qed
    have "\<forall>k < m. file ! (?sp - ?b - 1 - k) = next_in s ! (?p - ?b - 1 - k)"
      using bs byte soff by auto
    then have "agree file (?sp - ?b - m) (next_in s) (?p - ?b - m) (m + ?b)"
      using pr bs r last mb at soff by (intro agree_back) (auto simp: match_progress_def Let_def)
    moreover have "?sp - ?b - m = ?sp - (?b + m)" "?p - ?b - m = ?p - (?b + m)" "m + ?b = ?b + m" by linarith+
    moreover have "?b + m \<le> unat (match_maxback s)" using bs r mb by linarith
    ultimately show ?thesis using pr bm by (simp add: match_progress_def Let_def t_def)
  qed
  moreover have "extend_frame s t"
    unfolding extend_frame_def t_def
    by (rule exI [of _ "src s"], rule exI [of _ "msg s"], rule exI [of _ "match_back s + of_nat m"], rule exI [of _ "match_fwd s"]) simp
  moreover have "src_true file t \<and> (\<exists>y. src t = Some y \<and> same_source x y)"
    using assms(1) by (simp add: extend_inv_def src_true_def t_def)
  ultimately show ?thesis using bs off bm by (simp add: extend_inv_def)
qed

lemma extend_frame_refl: "extend_frame s s"
  unfolding extend_frame_def
  by (rule exI [of _ "src s"], rule exI [of _ "msg s"], rule exI [of _ "match_back s"], rule exI [of _ "match_fwd s"]) simp

lemma progress_position:
  "match_progress file s \<Longrightarrow> match_back s < match_maxback s \<Longrightarrow> unat (match_back s) < unat (match_srcpos s)"
  by (simp add: match_progress_def Let_def word_less_nat_alt)

lemma extend_inv_blksize: "extend_inv file x s \<Longrightarrow> src_blksize s = blksize x"
  by (auto simp: extend_inv_def src_blksize_def same_source_def)

lemma extend_frame_fields:
  assumes "extend_frame s t"
  shows "match_maxback t = match_maxback s" "match_srcpos t = match_srcpos s" "input_position t = input_position s"
    "match_maxfwd t = match_maxfwd s" "next_in t = next_in s"
  using assms by (auto simp: extend_frame_def)

lemma extend_back_ok:
  assumes "extend_back tryblk tryoff streamoff s = (e, t)" and "extend_inv file x s"
    and "unat tryblk * unat (blksize x) + unat tryoff = unat (match_srcpos s) - unat (match_back s)"
    and "unat streamoff = unat (input_position s) - unat (match_back s)"
  shows "extend_inv file x t \<and> extend_frame s t \<and> e \<noteq> Extend_return XD3_OK"
  using assms
proof (induction tryblk tryoff streamoff s rule: extend_back.induct)
  case (1 tryblk tryoff streamoff s)
  show ?case
  proof (cases "match_back s < match_maxback s")
    case less: True
    define tb where "tb = (if tryoff = 0 then tryblk - 1 else tryblk)"
    define toff where "toff = (if tryoff = 0 then src_blksize s else tryoff)"
    obtain ret s1 where g: "xd3_getblk s tb = (ret, s1)" by fastforce
    note g1 = getblk_extend [OF 1(3) g]
    show ?thesis
    proof (cases "ret = XD3_OK")
      case ok: True
      define tryrem where "tryrem = min toff (match_maxback s1 - match_back s1)"
      let ?blk = "block_of file (unat (blksize x)) (unat tb)"
      have blk: "src_block s1 = Some ?blk" using g1 ok by simp
      have eq: "extend_back tryblk tryoff streamoff s =
          (if tryrem = 0 then (Extend_return C_DIVERGES, s1)
           else case back_scan ?blk (next_in s1) (unat tryrem) (unat toff) (unat streamoff) of
               None \<Rightarrow> (Extend_return C_UNDEFINED, s1)
             | Some m \<Rightarrow>
                 let s = s1\<lparr>match_back := match_back s1 + of_nat m\<rparr> in
                 if m < unat tryrem then (Goto_doneback, s)
                 else extend_back tb (toff - of_nat m) (streamoff - of_nat m) s)"
        by (subst extend_back.simps) (simp add: less g ok blk tb_def [symmetric] toff_def [symmetric] tryrem_def [symmetric] Let_def
              cong: option.case_cong)
      show ?thesis
      proof (cases "tryrem = 0")
        case True
        then show ?thesis using 1(2) g1 unfolding eq by auto
      next
        case tr: False
        show ?thesis
        proof (cases "back_scan ?blk (next_in s1) (unat tryrem) (unat toff) (unat streamoff)")
          case None
          then show ?thesis using 1(2) g1 tr unfolding eq by auto
        next
          case (Some m)
          define s2 where "s2 = s1\<lparr>match_back := match_back s1 + of_nat m\<rparr>"
          have s1: "match_maxback s1 = match_maxback s" "match_srcpos s1 = match_srcpos s" "input_position s1 = input_position s"
            "match_back s1 = match_back s" "extend_inv file x s1"
            using g1 extend_frame_fields by auto
          have bs: "src_blksize s = blksize x" by (rule extend_inv_blksize [OF 1(3)])
          have at: "unat tb * unat (blksize x) + unat toff = unat (match_srcpos s1) - unat (match_back s1)"
          proof (cases "tryoff = 0")
            case True
            have "unat (match_back s) < unat (match_srcpos s)"
              using progress_position [OF _ less] 1(3) unfolding extend_inv_def by blast
            then have "tryblk \<noteq> 0" using 1(4) True by auto
            then have "unat tryblk = Suc (unat (tryblk - 1))" by (simp add: unat_minus_one unat_gt_0)
            then have "unat (tryblk - 1) * unat (blksize x) + unat (blksize x) = unat tryblk * unat (blksize x)" by simp
            then show ?thesis using 1(4) True s1 bs by (simp add: tb_def toff_def)
          next
            case False
            then show ?thesis using 1(4) s1 by (simp add: tb_def toff_def)
          qed
          have rem: "unat tryrem \<le> unat toff" "unat tryrem \<le> unat (match_maxback s1) - unat (match_back s1)"
            using less s1 by (auto simp: tryrem_def min_def word_le_nat_alt unat_sub word_less_nat_alt)
          have st: "extend_inv file x s2 \<and> extend_frame s1 s2 \<and> m \<le> unat tryrem \<and>
              unat (toff - of_nat m) = unat toff - m \<and> unat (match_back s2) = unat (match_back s1) + m"
            unfolding s2_def
            by (rule extend_back_step [OF s1(5) _ at _ rem tr Some]) (use less s1 1(5) in simp_all)
          have fr: "extend_frame s s2" using g1 st extend_frame_trans by blast
          show ?thesis
          proof (cases "m < unat tryrem")
            case True
            then show ?thesis using 1(2) st fr tr Some unfolding eq by (auto simp: s2_def Let_def)
          next
            case more: False
            have e: "extend_back tb (toff - of_nat m) (streamoff - of_nat m) s2 = (e, t)"
              using 1(2) tr Some more unfolding eq by (simp add: s2_def Let_def)
            have "extend_inv file x t \<and> extend_frame s2 t \<and> e \<noteq> Extend_return XD3_OK"
            proof (rule 1(1) [OF less tb_def toff_def g [symmetric] _ tryrem_def tr blk Some s2_def more e])
              show "\<not> ret \<noteq> XD3_OK" using ok by simp
              show "extend_inv file x s2" using st by simp
              show "unat tb * unat (blksize x) + unat (toff - of_nat m) = unat (match_srcpos s2) - unat (match_back s2)"
                using st at back_scan_ok [OF Some] s1 by (simp add: s2_def)
              have "unat (of_nat m :: usize_t) = m" using st unat_bound_64 [of tryrem] by (intro unat_of_nat_64) simp
              then have "unat (streamoff - of_nat m) = unat streamoff - m"
                using back_scan_ok [OF Some] by (simp add: unat_sub word_le_nat_alt)
              then show "unat (streamoff - of_nat m) = unat (input_position s2) - unat (match_back s2)"
                using 1(5) st s1 by (simp add: s2_def)
            qed
            then show ?thesis using fr extend_frame_trans by blast
          qed
        qed
      qed
    next
      case False
      have "extend_back tryblk tryoff streamoff s = (if ret = XD3_TOOFARBACK
          then (if match_back s1 = 0 then Goto_donefwd else Goto_doneback, s1) else (Extend_return ret, s1))"
        by (subst extend_back.simps) (simp add: less g False tb_def [symmetric] toff_def [symmetric] Let_def)
      then show ?thesis using 1(2) g1 False by (auto split: if_splits)
    qed
  next
    case False
    then have "extend_back tryblk tryoff streamoff s = (Goto_doneback, s)" by (subst extend_back.simps) simp
    then show ?thesis using 1(2,3) by (auto simp: extend_frame_refl)
  qed
qed

lemma getblk_extend_src:
  assumes "extend_inv file x s" and "xd3_getblk s blkno = (XD3_OK, t)"
  shows "\<exists>y. src t = Some y \<and> curblk y = Some (block_of file (unat (blksize x)) (unat blkno)) \<and>
    unat (onblk y) = length (block_of file (unat (blksize x)) (unat blkno))"
  using getblk_extend [OF assms] by (auto simp: src_block_def)

lemma extend_fwd_step:
  fixes tryblk :: xoff_t and tryoff streamoff tryrem :: usize_t
  assumes inv: "extend_inv file x s" and r0: "match_fwd s + tryrem \<le> match_maxfwd s" "tryrem \<le> match_maxfwd s - match_fwd s"
    "match_fwd s < match_maxfwd s"
    and at: "unat tryblk * unat (blksize x) + unat tryoff = unat (match_srcpos s) + unat (match_fwd s)"
    and soff: "unat streamoff = unat (input_position s) + unat (match_fwd s)"
    and r: "unat tryoff + unat tryrem \<le> length (block_of file (unat (blksize x)) (unat tryblk))"
      "unat streamoff + unat tryrem \<le> length (next_in s)" "tryrem \<noteq> 0"
  defines "m \<equiv> xd3_forward_match (drop (unat tryoff) (block_of file (unat (blksize x)) (unat tryblk)))
    (drop (unat streamoff) (next_in s)) (unat tryrem)"
  defines "t \<equiv> s\<lparr>match_fwd := match_fwd s + of_nat m\<rparr>"
  shows "extend_inv file x t \<and> extend_frame s t \<and> m \<le> unat tryrem \<and> unat (of_nat m :: usize_t) = m \<and>
    unat (match_fwd t) = unat (match_fwd s) + m"
proof -
  let ?f = "unat (match_fwd s)" and ?sp = "unat (match_srcpos s)" and ?p = "unat (input_position s)"
  let ?blk = "block_of file (unat (blksize x)) (unat tryblk)"
  let ?x = "take (unat tryrem) (drop (unat tryoff) ?blk)" and ?y = "take (unat tryrem) (drop (unat streamoff) (next_in s))"
  have pr: "match_progress file s" using inv by (simp add: extend_inv_def)
  have m: "m = common ?x ?y" unfolding m_def by (rule forward_match_common) (use r in simp_all)
  then have le: "m \<le> unat tryrem" using common_le(1) [of ?x ?y] r by simp
  then have um: "unat (of_nat m :: usize_t) = m" using unat_bound_64 [of tryrem] by (intro unat_of_nat_64) simp
  have "unat tryrem \<le> unat (match_maxfwd s) - ?f"
    using r0(2,3) by (simp add: word_le_nat_alt unat_sub word_less_nat_alt)
  then have fm: "?f + m \<le> unat (match_maxfwd s)" using le r0(3) by (simp add: word_less_nat_alt)
  then have bm: "unat (match_fwd t) = ?f + m"
    using um unat_plus_64 [of "match_fwd s" "of_nat m"] unat_bound_64 [of "match_maxfwd s"] by (simp add: t_def)
  have "take m ?x = take m ?y" unfolding m by (rule common_take)
  then have xy: "?x ! k = ?y ! k" if "k < m" for k using that by (metis nth_take)
  have off: "unat tryoff < length ?blk" "unat tryoff + m \<le> length ?blk" using r le by (auto simp: unat_gt_0 [symmetric])
  have byte: "?blk ! (unat tryoff + k) = file ! (?sp + ?f + k)" if "k < m" for k
  proof -
    have "unat tryoff + k < length ?blk" using off that by linarith
    then have "?blk ! (unat tryoff + k) = file ! (unat tryblk * unat (blksize x) + (unat tryoff + k))"
      using block_byte by blast
    then show ?thesis using at by (simp add: add.assoc [symmetric])
  qed
  have "match_progress file t"
  proof (cases "m = 0")
    case True
    then show ?thesis using pr by (simp add: match_progress_def t_def)
  next
    case False
    have "unat tryoff + (m - 1) < length ?blk" using off False by linarith
    from block_byte [OF this] have last: "?sp + ?f + m \<le> length file" using at False by linarith
    have "file ! (?sp + ?f + k) = next_in s ! (?p + ?f + k)" if "k < m" for k
      using xy [OF that] byte [OF that] that le r off soff by (simp add: add.assoc)
    then have "agree file ?sp (next_in s) ?p (?f + m)"
      using pr last r le soff by (intro agree_fwd) (auto simp: match_progress_def Let_def)
    then show ?thesis using pr bm fm by (simp add: match_progress_def Let_def t_def)
  qed
  moreover have "extend_frame s t"
    unfolding extend_frame_def t_def
    by (rule exI [of _ "src s"], rule exI [of _ "msg s"], rule exI [of _ "match_back s"], rule exI [of _ "match_fwd s + of_nat m"]) simp
  moreover have "src_true file t \<and> (\<exists>y. src t = Some y \<and> same_source x y)"
    using inv by (simp add: extend_inv_def src_true_def t_def)
  ultimately show ?thesis using le um bm by (simp add: extend_inv_def)
qed

lemma extend_fwd_ok:
  assumes "extend_fwd tryblk tryoff streamoff s = (e, t)" and "extend_inv file x s"
    and "unat tryblk * unat (blksize x) + unat tryoff = unat (match_srcpos s) + unat (match_fwd s)"
    and "unat streamoff = unat (input_position s) + unat (match_fwd s)" and "0 < unat (blksize x)" and "length (next_in s) < 2 ^ 64"
  shows "extend_inv file x t \<and> extend_frame s t \<and> e \<noteq> Extend_return XD3_OK"
  using assms
proof (induction tryblk tryoff streamoff s rule: extend_fwd.induct)
  case (1 tryblk tryoff streamoff s)
  show ?case
  proof (cases "match_fwd s < match_maxfwd s")
    case less: True
    define tb where "tb = (if tryoff = src_blksize s then tryblk + 1 else tryblk)"
    define toff where "toff = (if tryoff = src_blksize s then 0 else tryoff)"
    obtain ret s1 where g: "xd3_getblk s tb = (ret, s1)" by fastforce
    note g1 = getblk_extend [OF 1(3) g]
    show ?thesis
    proof (cases "ret = XD3_OK")
      case ok: True
      let ?blk = "block_of file (unat (blksize x)) (unat tb)"
      obtain y where y: "src s1 = Some y" "curblk y = Some ?blk" "unat (onblk y) = length ?blk"
        using getblk_extend_src [OF 1(3)] g ok by blast
      define tryrem where "tryrem = min (match_maxfwd s1 - match_fwd s1) (onblk y - toff)"
      define m where "m = xd3_forward_match (drop (unat toff) ?blk) (drop (unat streamoff) (next_in s1)) (unat tryrem)"
      define s2 where "s2 = s1\<lparr>match_fwd := match_fwd s1 + of_nat m\<rparr>"
      have eq: "extend_fwd tryblk tryoff streamoff s =
          (if tryrem = 0 then (Goto_donefwd, s1)
           else if unat toff + unat tryrem > length ?blk \<or> unat streamoff + unat tryrem > length (next_in s1)
             then (Extend_return C_UNDEFINED, s1)
           else if tryrem \<noteq> of_nat m then (Goto_donefwd, s2)
           else extend_fwd tb (toff + of_nat m) (streamoff + of_nat m) s2)"
        by (subst extend_fwd.simps) (simp add: less g ok y tb_def [symmetric] toff_def [symmetric] tryrem_def [symmetric]
              m_def [symmetric] s2_def [symmetric] Let_def cong: option.case_cong if_cong)
      have s1: "match_maxfwd s1 = match_maxfwd s" "match_srcpos s1 = match_srcpos s" "input_position s1 = input_position s"
        "match_fwd s1 = match_fwd s" "next_in s1 = next_in s" "extend_inv file x s1" "extend_frame s s1"
        using g1 extend_frame_fields by auto
      show ?thesis
      proof (cases "tryrem = 0 \<or> unat toff + unat tryrem > length ?blk \<or> unat streamoff + unat tryrem > length (next_in s1)")
        case True
        then show ?thesis using 1(2) s1 unfolding eq by (auto split: if_splits)
      next
        case False
        have bs: "src_blksize s = blksize x" by (rule extend_inv_blksize [OF 1(3)])
        have at: "unat tb * unat (blksize x) + unat toff = unat (match_srcpos s1) + unat (match_fwd s1)"
        proof (cases "tryoff = blksize x")
          case True
          have "unat (match_srcpos s) + unat (match_fwd s) \<le> length file \<or> unat (match_fwd s) = 0"
            using 1(3) by (auto simp: extend_inv_def match_progress_def Let_def agree_def)
          moreover have "length file < 2 ^ 62" using 1(3) by (simp add: extend_inv_def src_true_def)
          ultimately have "unat (match_srcpos s) + unat (match_fwd s) < 2 ^ 64"
            using unat_bound_64 [of "match_srcpos s"] by auto
          moreover have "unat tryblk \<le> unat tryblk * unat (blksize x)" using 1(6) by simp
          moreover have "0 < unat tryoff" using 1(6) True by simp
          ultimately have "unat tryblk + 1 < 2 ^ 64" using 1(4) by linarith
          then have "unat (tryblk + 1) = unat tryblk + 1" using unat_plus_64 [of tryblk 1] by simp
          then show ?thesis using 1(4) True s1 bs by (simp add: tb_def toff_def)
        next
          case False
          then show ?thesis using 1(4) s1 bs by (simp add: tb_def toff_def)
        qed
        have rem: "tryrem \<le> match_maxfwd s1 - match_fwd s1" by (simp add: tryrem_def)
        have less1: "match_fwd s1 < match_maxfwd s1" using less s1 by simp
        have sum: "unat (match_fwd s1) + unat tryrem \<le> unat (match_maxfwd s1)"
          using rem less1 by (simp add: word_le_nat_alt unat_sub word_less_nat_alt)
        then have sum': "match_fwd s1 + tryrem \<le> match_maxfwd s1"
          using unat_plus_64 [of "match_fwd s1" tryrem] unat_bound_64 [of "match_maxfwd s1"] by (simp add: word_le_nat_alt)
        have st: "extend_inv file x s2 \<and> extend_frame s1 s2 \<and> m \<le> unat tryrem \<and> unat (of_nat m :: usize_t) = m \<and>
            unat (match_fwd s2) = unat (match_fwd s1) + m"
          unfolding s2_def m_def
          by (rule extend_fwd_step [OF s1(6) sum' rem less1 at]) (use False 1(5) s1 in simp_all)
        have fr: "extend_frame s s2" using s1 st extend_frame_trans by blast
        show ?thesis
        proof (cases "tryrem = of_nat m")
          case False': False
          then show ?thesis using 1(2) st fr False unfolding eq by auto
        next
          case True
          have e: "extend_fwd tb (toff + of_nat m) (streamoff + of_nat m) s2 = (e, t)"
            using 1(2) True False unfolding eq by simp
          have len: "unat toff + m < 2 ^ 64" "unat streamoff + m < 2 ^ 64"
          proof -
            have "unat toff + m \<le> unat (onblk y)" using False st y by linarith
            then show "unat toff + m < 2 ^ 64" using unat_bound_64 [of "onblk y"] by linarith
            have "unat (match_maxfwd s) \<le> length (next_in s) - unat (input_position s)" "unat (input_position s) \<le> length (next_in s)"
              using 1(3) by (simp_all add: extend_inv_def match_progress_def Let_def)
            then show "unat streamoff + m < 2 ^ 64" using False st 1(7) s1 by simp
          qed
          have "extend_inv file x t \<and> extend_frame s2 t \<and> e \<noteq> Extend_return XD3_OK"
          proof (rule 1(1) [OF less tb_def toff_def g [symmetric] _ y(1) tryrem_def _ y(2) _ m_def s2_def _ e])
            show "\<not> ret \<noteq> XD3_OK" using ok by simp
            show "extend_inv file x s2" using st by simp
            show "unat tb * unat (blksize x) + unat (toff + of_nat m) = unat (match_srcpos s2) + unat (match_fwd s2)"
              using st at len s1 unat_plus_64 [of toff "of_nat m"] by (simp add: s2_def)
            show "unat (streamoff + of_nat m) = unat (input_position s2) + unat (match_fwd s2)"
              using 1(5) st len s1 unat_plus_64 [of streamoff "of_nat m"] by (simp add: s2_def)
          qed (use False True 1(6,7) s1 in \<open>auto simp: s2_def\<close>)
          then show ?thesis using fr extend_frame_trans by blast
        qed
      qed
    next
      case False
      have "extend_fwd tryblk tryoff streamoff s = (if ret = XD3_TOOFARBACK then (Goto_donefwd, s1) else (Extend_return ret, s1))"
        by (subst extend_fwd.simps) (simp add: less g False tb_def [symmetric] toff_def [symmetric] Let_def)
      then show ?thesis using 1(2) g1 False by (auto split: if_splits)
    qed
  next
    case False
    then have "extend_fwd tryblk tryoff streamoff s = (Goto_donefwd, s)" by (subst extend_fwd.simps) simp
    then show ?thesis using 1(2,3) by (auto simp: extend_frame_refl)
  qed
qed

section \<open>Taking a match\<close>

text \<open>What the search leaves alone.\<close>

definition search_frame :: "xd3_encoder \<Rightarrow> xd3_encoder \<Rightarrow> bool" where
  "search_frame s t \<longleftrightarrow>
     next_in t = next_in s \<and> flags t = flags s \<and> smatcher t = smatcher s \<and> large_hash t = large_hash s \<and>
     small_hash t = small_hash s \<and> taroff t = taroff s \<and> unencoded_offset t = unencoded_offset s \<and>
     srcwin_decided t = srcwin_decided s \<and> alloc t = alloc s \<and> getblk t = getblk s \<and>
     iopt_unlimited t = iopt_unlimited s \<and> sprevsz t = sprevsz s \<and> sprevmask t = sprevmask s \<and>
     code_table t = code_table s \<and> acache t = acache s \<and> iout t = iout s \<and> enc_chain t = enc_chain s \<and>
     enc_free t = enc_free s \<and> enc_state t = enc_state s \<and> (src t = None \<longleftrightarrow> src s = None) \<and>
     sec_type t = sec_type s \<and> enc_appheader t = enc_appheader s \<and> current_window t = current_window s \<and>
     dec_state t = dec_state s \<and> recode_adler32 t = recode_adler32 s \<and>
     buf_in t = buf_in s \<and> buf_leftover t = buf_leftover s \<and> winsize t = winsize s"

lemma search_frame_refl [simp]: "search_frame s s"
  by (simp add: search_frame_def)

lemma search_frame_trans: "search_frame s t \<Longrightarrow> search_frame t u \<Longrightarrow> search_frame s u"
  by (simp add: search_frame_def)

lemma search_frame_update [simp]:
  "search_frame s (t\<lparr>iopt_used := a\<rparr>) = search_frame s t" "search_frame s (t\<lparr>iopt_free := b\<rparr>) = search_frame s t"
  "search_frame s (t\<lparr>iopt_size := sz\<rparr>) = search_frame s t" "search_frame s (t\<lparr>i_slots_used := sl\<rparr>) = search_frame s t"
  "search_frame s (t\<lparr>alloc_cnt := n\<rparr>) = search_frame s t" "search_frame s (t\<lparr>msg := m\<rparr>) = search_frame s t"
  "search_frame s (t\<lparr>input_position := p\<rparr>) = search_frame s t" "search_frame s (t\<lparr>min_match := p\<rparr>) = search_frame s t"
  "search_frame s (t\<lparr>match_state := st\<rparr>) = search_frame s t" "search_frame s (t\<lparr>match_srcpos := x\<rparr>) = search_frame s t"
  "search_frame s (t\<lparr>match_last_srcpos := x\<rparr>) = search_frame s t" "search_frame s (t\<lparr>match_minaddr := x\<rparr>) = search_frame s t"
  "search_frame s (t\<lparr>match_maxaddr := x\<rparr>) = search_frame s t" "search_frame s (t\<lparr>match_back := x\<rparr>) = search_frame s t"
  "search_frame s (t\<lparr>match_maxback := x\<rparr>) = search_frame s t" "search_frame s (t\<lparr>match_fwd := x\<rparr>) = search_frame s t"
  "search_frame s (t\<lparr>match_maxfwd := x\<rparr>) = search_frame s t" "search_frame s (t\<lparr>maxsrcaddr := x\<rparr>) = search_frame s t"
  "search_frame s (t\<lparr>small_table := ta\<rparr>) = search_frame s t" "search_frame s (t\<lparr>small_prev := ta\<rparr>) = search_frame s t"
  "search_frame s (t\<lparr>small_reset := rr\<rparr>) = search_frame s t" "search_frame s (t\<lparr>large_table := ta\<rparr>) = search_frame s t"
  "search_frame s (t\<lparr>srcwin_cksum_pos := x\<rparr>) = search_frame s t"
  by (simp_all add: search_frame_def)

lemma slot_search_frame: "slot_frame (s\<lparr>iopt_used := us\<rparr>) t \<Longrightarrow> search_frame s t"
  by (auto simp: slot_frame_def)

lemma erase_ok:
  "\<exists>us fr sl zs. xd3_iopt_erase s pos sz = s\<lparr>iopt_used := us, iopt_free := fr, i_slots_used := sl\<rparr> \<and>
     iopt_used s = us @ zs \<and> (us \<noteq> [] \<longrightarrow> ri_pos (last us) < pos)"
proof (induction s pos sz rule: xd3_iopt_erase.induct)
  case (1 s pos sz)
  show ?case
  proof (cases "iopt_used s = [] \<or> ri_pos (last (iopt_used s)) < pos")
    case True
    then have "xd3_iopt_erase s pos sz = s" by (subst xd3_iopt_erase.simps) (auto simp: Let_def)
    then show ?thesis using True
      by (rule_tac x = "iopt_used s" in exI, rule_tac x = "iopt_free s" in exI, rule_tac x = "i_slots_used s" in exI,
          rule_tac x = "[]" in exI) auto
  next
    case False
    define s1 where "s1 = s\<lparr>iopt_used := butlast (iopt_used s), iopt_free := iopt_free s @ [last (iopt_used s)],
      i_slots_used := i_slots_used s - 1\<rparr>"
    have e: "xd3_iopt_erase s pos sz = xd3_iopt_erase s1 pos sz"
      using False by (subst xd3_iopt_erase.simps) (simp add: s1_def)
    obtain us fr sl zs where i: "xd3_iopt_erase s1 pos sz = s1\<lparr>iopt_used := us, iopt_free := fr, i_slots_used := sl\<rparr>"
      "iopt_used s1 = us @ zs" "us \<noteq> [] \<longrightarrow> ri_pos (last us) < pos"
      using 1 [OF _ refl, folded s1_def] False by blast
    have "iopt_used s = us @ zs @ [last (iopt_used s)]"
      using i(2) False append_butlast_last_id [of "iopt_used s"] by (simp add: s1_def)
    then show ?thesis using i e
      by (rule_tac x = us in exI, rule_tac x = fr in exI, rule_tac x = sl in exI,
          rule_tac x = "zs @ [last (iopt_used s)]" in exI) (simp add: s1_def)
  qed
qed

text \<open>The limits of the source matches grow to those of a new one.\<close>

lemma match_ok_widen:
  "match_ok file lo hi tgt r \<Longrightarrow> hi = 0 \<or> lo' \<le> lo \<Longrightarrow> hi \<le> hi' \<Longrightarrow> match_ok file lo' hi' tgt r"
  by (auto simp: match_ok_def in_target_def)

definition used_before :: "xd3_encoder \<Rightarrow> nat \<Rightarrow> nat \<Rightarrow> bool" where
  "used_before s p e \<longleftrightarrow> (iopt_used s \<noteq> [] \<longrightarrow> posn (last (iopt_used s)) < p \<and> fin (last (iopt_used s)) < e)"

definition searching :: "uint8 list \<Rightarrow> xd3_encoder \<Rightarrow> bool" where
  "searching file s \<longleftrightarrow> found_ok file s \<and> src_true file s \<and> input_position s \<le> avail_in s \<and>
     length (next_in s) < 2 ^ 62 \<and> match_minaddr s \<le> match_maxaddr s \<and>
     (src s = None \<longrightarrow> match_maxaddr s = 0) \<and> (\<forall>x. src s = Some x \<longrightarrow> srclen x = 0) \<and> iopt_unlimited s \<and> unencoded_offset s = 0 \<and> \<not> srcwin_decided s \<and>
     flags s AND XD3_BEGREEDY = 0 \<and> 4 \<le> unat (min_match s) \<and> unat (min_match s) < 2 ^ 63 \<and>
     (match_state s = MATCH_BACKWARD \<or> match_state s = MATCH_FORWARD \<longrightarrow> match_progress file s)"

lemma used_before_mono: "used_before s p e \<Longrightarrow> p \<le> p' \<Longrightarrow> e \<le> e' \<Longrightarrow> used_before s p' e'"
  by (auto simp: used_before_def)

lemma unat_add_62: "length (xs :: 'a list) < 2 ^ 62 \<Longrightarrow> a \<le> length xs \<Longrightarrow> unat (of_nat a :: 64 word) = a"
  by (rule unat_of_nat_64) simp

lemma searching_position:
  assumes "searching file s"
  shows "unat (input_position s) \<le> length (next_in s)" "unat (avail_in s) = length (next_in s)"
  using assms unat_add_62 [of "next_in s" "length (next_in s)"]
  by (simp_all add: searching_def avail_in_def word_le_nat_alt)

text \<open>An instruction from \<open>pos\<close> is put into the buffer after those that start before it.\<close>

lemma put_match_ok:
  assumes f: "found_ok file s" and u: "iopt_unlimited s" and b: "used_before s p e"
    and r: "\<And>x. match_ok file (unat (match_minaddr s)) (unat (match_maxaddr s)) (next_in s) (g x) \<and> posn (g x) = p \<and> fin (g x) = e"
    and m: "xd3_try (xd3_iopt_get_slot s) (\<lambda>s. (XD3_OK, set_slot g s)) = (ret, t)"
  shows "ret_ok (alloc s) ret \<and> (ret = XD3_OK \<longrightarrow> found_ok file t \<and> (\<exists>us. slot_frame (s\<lparr>iopt_used := us\<rparr>) t) \<and>
    (\<exists>r. iopt_used t = iopt_used s @ [r] \<and> posn r = p \<and> fin r = e))"
proof (intro conjI impI)
  note p = put_slot_ok [OF u m]
  show "ret_ok (alloc s) ret" using p by simp
  assume "ret = XD3_OK"
  then obtain x where x: "slot_frame (s\<lparr>iopt_used := iopt_used s @ [g x]\<rparr>) t" using p by blast
  show "found_ok file t"
    by (rule found_ok_add [OF f _ _ x]) (use r b in \<open>auto simp: used_before_def starts_first_def\<close>)
  show "\<exists>us. slot_frame (s\<lparr>iopt_used := us\<rparr>) t" using x by blast
  show "\<exists>r. iopt_used t = iopt_used s @ [r] \<and> posn r = p \<and> fin r = e"
    using x r by (auto simp: slot_frame_def)
qed

lemmas found_match_ok = put_match_ok [where g = "\<lambda>ri. ri\<lparr>ri_type := XD3_CPY, ri_xtra := (if is_source then 1 else 0),
  ri_pos := pos, ri_size := sz, ri_addr := addr\<rparr>", folded xd3_found_match_def]
  for is_source pos sz addr

lemmas emit_run_ok = put_match_ok [where g = "\<lambda>ri. ri\<lparr>ri_type := XD3_RUN, ri_xtra := c, ri_pos := pos, ri_size := sz\<rparr>",
  folded xd3_emit_run_def] for c pos sz

text \<open>\<open>slot_frame\<close> and the search.\<close>

lemma slot_searching:
  assumes "searching file s" and "slot_frame (s\<lparr>iopt_used := us\<rparr>) t" and "found_ok file t"
  shows "searching file t"
proof -
  obtain ac fr sz sl where t: "t = s\<lparr>iopt_used := us, alloc_cnt := ac, iopt_free := fr, iopt_size := sz, i_slots_used := sl\<rparr>"
    using assms(2) unfolding slot_frame_def by blast
  have "match_progress file t = match_progress file s" by (simp add: t match_progress_def)
  then show ?thesis using assms(1,3) by (simp add: searching_def src_true_def avail_in_def t)
qed

section \<open>Taking a match\<close>

definition settled :: "xd3_encoder \<Rightarrow> bool" where
  "settled s \<longleftrightarrow> match_state s = MATCH_SEARCHING \<or> match_state s = MATCH_TARGET"

lemma extend_take_ok:
  assumes s: "searching file s" and p: "match_progress file s" and u: "used_before s (unat (input_position s)) (unat (input_position s) + unat (match_fwd s))"
    and f: "0 < match_fwd s" and st: "match_state s = MATCH_SEARCHING" and x: "src s \<noteq> None" and t: "extend_take s = (ret, t)"
  shows "ret_ok (alloc s) ret \<and> (ret = XD3_OK \<longrightarrow> searching file t \<and> search_frame s t \<and> settled t \<and>
    small_table t = small_table s \<and> small_reset t = small_reset s \<and> small_prev t = small_prev s \<and> input_position t = input_position s \<and> match_fwd t = match_fwd s \<and> min_match t = min_match s \<and>
    used_before t (unat (input_position s) + 1) (unat (input_position s) + unat (match_fwd s) + 1))"
proof -
  let ?b = "unat (match_back s)" and ?f = "unat (match_fwd s)" and ?sp = "unat (match_srcpos s)" and ?p = "unat (input_position s)"
  note n = searching_position [OF s]
  have f0: "0 < ?f" using f by (simp add: word_less_nat_alt)
  have pr: "?b \<le> ?sp" "?b \<le> ?p" "agree file (?sp - ?b) (next_in s) (?p - ?b) ?b" "agree file ?sp (next_in s) ?p ?f"
    using p by (simp_all add: match_progress_def Let_def)
  have small: "length file < 2 ^ 62" "length (next_in s) < 2 ^ 62" using s by (simp_all add: searching_def src_true_def)
  have ends: "?sp + ?f \<le> length file" "?p + ?f \<le> length (next_in s)" using pr(4) f0 by (simp_all add: agree_def)
  have ag: "agree file (?sp - ?b) (next_in s) (?p - ?b) (?b + ?f)"
    using pr ends by (intro agree_fwd) (auto simp: agree_def)
  have w: "unat (input_position s - match_back s) = ?p - ?b" "unat (match_srcpos s - match_back s) = ?sp - ?b"
    "unat (match_back s + match_fwd s) = ?b + ?f" "unat (match_srcpos s + match_fwd s) = ?sp + ?f"
    using pr ends small by (simp_all add: unat_sub word_le_nat_alt unat_plus_64)
  define tp where "tp = input_position s - match_back s"
  define mp where "mp = match_srcpos s - match_back s"
  obtain us fr sl zs where e: "(if match_back s > 0 then xd3_iopt_erase s tp (match_fwd s + match_back s) else s) =
      s\<lparr>iopt_used := us, iopt_free := fr, i_slots_used := sl\<rparr>" "iopt_used s = us @ zs" "us \<noteq> [] \<longrightarrow> ri_pos (last us) < tp"
  proof (cases "match_back s > 0")
    case True
    then show ?thesis using erase_ok [of s tp "match_fwd s + match_back s"] that by auto
  next
    case False
    then have "match_back s = 0" by (simp add: word_gt_0)
    then have "tp = input_position s" by (simp add: tp_def)
    then show ?thesis
      using u False by (intro that [where us = "iopt_used s" and fr = "iopt_free s" and sl = "i_slots_used s" and zs = "[]"])
        (auto simp: used_before_def posn_def word_less_nat_alt)
  qed
  define lo where "lo = (if match_maxaddr s = 0 \<or> mp < match_minaddr s then mp else match_minaddr s)"
  define hi where "hi = (if match_srcpos s + match_fwd s > match_maxaddr s then match_srcpos s + match_fwd s else match_maxaddr s)"
  define mx where "mx = (if match_srcpos s + match_fwd s > maxsrcaddr s then match_srcpos s + match_fwd s else maxsrcaddr s)"
  define s4 where "s4 = s\<lparr>iopt_used := us, iopt_free := fr, i_slots_used := sl, match_back := 0, match_minaddr := lo,
      match_maxaddr := hi, maxsrcaddr := mx\<rparr>"
  have eq: "extend_take s = xd3_try (xd3_found_match s4 tp (match_back s + match_fwd s) mp True) (\<lambda>s'.
      if tp + (match_back s + match_fwd s) = avail_in s'
      then (XD3_OK, s'\<lparr>match_state := MATCH_TARGET, match_srcpos := match_srcpos s + match_fwd s\<rparr>) else (XD3_OK, s'))"
    unfolding extend_take_def Let_def tp_def [symmetric] mp_def [symmetric] e(1)
    by (simp add: s4_def lo_def hi_def mx_def)
  have wid: "match_maxaddr s = 0 \<or> unat lo \<le> unat (match_minaddr s)" "unat (match_maxaddr s) \<le> unat hi"
    by (auto simp: lo_def hi_def word_le_nat_alt word_less_nat_alt)
  have mono: "lo \<le> hi"
    using s w ends by (auto simp: lo_def hi_def mp_def searching_def word_le_nat_alt word_less_nat_alt not_less)
  have lohi: "unat lo \<le> unat mp" "?sp + ?f \<le> unat hi" "unat hi \<le> length file"
    using s ends w(4) by (auto simp: lo_def hi_def word_le_nat_alt word_less_nat_alt searching_def found_ok_def not_less)
  have used: "\<forall>r \<in> set us. match_ok file (unat lo) (unat hi) (next_in s) r" "sorted_wrt starts_first us"
    using s wid by (auto simp: searching_def found_ok_def e(2) sorted_wrt_append intro: match_ok_widen)
  have last: "us \<noteq> [] \<Longrightarrow> fin (last us) < ?p + ?f"
  proof (cases zs rule: rev_cases)
    case Nil
    then show "us \<noteq> [] \<Longrightarrow> fin (last us) < ?p + ?f" using u e(2) by (auto simp: used_before_def)
  next
    case (snoc ys y)
    assume us: "us \<noteq> []"
    have "sorted_wrt starts_first (us @ ys @ [y])" using s snoc by (simp add: searching_def found_ok_def e(2))
    then have "starts_first (last us) y" using us by (auto simp: sorted_wrt_append)
    moreover have "fin y < ?p + ?f" using u e(2) snoc by (auto simp: used_before_def)
    ultimately show "fin (last us) < ?p + ?f" by (simp add: starts_first_def)
  qed
  have f4: "found_ok file s4" using used lohi(3) by (simp add: found_ok_def s4_def)
  have u4: "iopt_unlimited s4" using s by (simp add: searching_def s4_def)
  have b4: "used_before s4 (unat tp) (?p + ?f)"
    using e(3) last by (auto simp: used_before_def s4_def posn_def word_less_nat_alt)
  have mo: "match_ok file (unat (match_minaddr s4)) (unat (match_maxaddr s4)) (next_in s4)
      (x\<lparr>ri_type := XD3_CPY, ri_xtra := (if True then 1 else 0), ri_pos := tp, ri_size := match_back s + match_fwd s, ri_addr := mp\<rparr>) \<and>
      posn (x\<lparr>ri_type := XD3_CPY, ri_xtra := (if True then 1 else 0), ri_pos := tp, ri_size := match_back s + match_fwd s, ri_addr := mp\<rparr>) = unat tp \<and>
      fin (x\<lparr>ri_type := XD3_CPY, ri_xtra := (if True then 1 else 0), ri_pos := tp, ri_size := match_back s + match_fwd s, ri_addr := mp\<rparr>) = ?p + ?f"
    for x :: xd3_rinst
    using ag lohi w pr f0 ends by (simp add: match_ok_def s4_def in_target_def posn_def fin_def len_def tp_def mp_def)
  obtain r s5 where m: "xd3_found_match s4 tp (match_back s + match_fwd s) mp True = (r, s5)" by fastforce
  note g = found_match_ok [OF f4 u4 b4 mo m]
  show ?thesis
  proof (cases "r = XD3_OK")
    case False
    then have "ret = r" using t by (simp add: eq m xd3_try_fail)
    moreover have "alloc s4 = alloc s" by (simp add: s4_def)
    ultimately show ?thesis using g False by simp
  next
    case True
    then obtain vs x where g5: "found_ok file s5" "slot_frame (s4\<lparr>iopt_used := vs\<rparr>) s5" "iopt_used s5 = us @ [x]"
      "posn x = unat tp" "fin x = ?p + ?f"
      using g by (auto simp: s4_def)
    have s4: "searching file s4"
      using s f4 st mono x by (auto simp: searching_def s4_def avail_in_def src_true_def)
    have s5: "searching file s5" by (rule slot_searching [OF s4 g5(2,1)])
    have fr: "search_frame s s5" using slot_search_frame [OF g5(2)] by (simp add: s4_def search_frame_def)
    have fields: "settled s5" "small_table s5 = small_table s" "small_reset s5 = small_reset s" "small_prev s5 = small_prev s" "input_position s5 = input_position s" "match_fwd s5 = match_fwd s" "min_match s5 = min_match s"
      using g5(2) st by (auto simp: slot_frame_def s4_def settled_def)
    have "used_before s5 (?p + 1) (?p + ?f + 1)" using g5 w by (simp add: used_before_def tp_def)
    moreover have "(ret, t) = (if tp + (match_back s + match_fwd s) = avail_in s5
        then (XD3_OK, s5\<lparr>match_state := MATCH_TARGET, match_srcpos := match_srcpos s + match_fwd s\<rparr>) else (XD3_OK, s5))"
      unfolding t [symmetric] eq m True by simp
    then have "ret = XD3_OK" "t = s5 \<or> t = s5\<lparr>match_state := MATCH_TARGET, match_srcpos := match_srcpos s + match_fwd s\<rparr>"
      by (simp_all split: if_splits)
    moreover have "searching file (s5\<lparr>match_state := MATCH_TARGET, match_srcpos := x\<rparr>)" for x
      using s5 by (simp add: searching_def found_ok_def src_true_def avail_in_def)
    ultimately show ?thesis using s5 fr fields by (elim disjE) (simp_all add: used_before_def settled_def)
  qed
qed

section \<open>Extending and taking\<close>

text \<open>The result of an extension: no match is taken, or one of at least \<open>min_match\<close> bytes forward.\<close>

definition extended :: "uint8 list \<Rightarrow> xd3_encoder \<Rightarrow> xd3_encoder \<Rightarrow> bool" where
  "extended file s t \<longleftrightarrow> searching file t \<and> search_frame s t \<and> settled t \<and> input_position t = input_position s \<and> min_match t = min_match s \<and>
     small_table t = small_table s \<and> small_reset t = small_reset s \<and> small_prev t = small_prev s \<and>
     (match_fwd t = 0 \<and> used_before t (unat (input_position s)) (unat (input_position s) + unat (min_match s)) \<or>
      unat (min_match s) \<le> unat (match_fwd t) \<and> unat (input_position s) + unat (match_fwd t) \<le> length (next_in s) \<and>
        used_before t (unat (input_position s) + 1) (unat (input_position s) + unat (match_fwd t) + 1))"

definition paused :: "uint8 list \<Rightarrow> xd3_encoder \<Rightarrow> xd3_encoder \<Rightarrow> bool" where
  "paused file s t \<longleftrightarrow> searching file t \<and> search_frame s t \<and> input_position t = input_position s \<and>
     min_match t = min_match s \<and> iopt_used t = iopt_used s \<and> small_table t = small_table s \<and> small_reset t = small_reset s \<and> small_prev t = small_prev s"

lemma extend_frame_search:
  assumes "extend_frame s t" and "extend_inv file x s" and "extend_inv file x t" and "searching file s"
  shows "paused file s t"
proof -
  obtain y m bk fw where t: "t = s\<lparr>src := y, msg := m, match_back := bk, match_fwd := fw\<rparr>"
    using assms(1) unfolding extend_frame_def by blast
  obtain z z' where z: "src s = Some z" "same_source x z" "y = Some z'" "same_source x z'"
    using assms(2,3) by (auto simp: extend_inv_def t)
  have "src_true file t" "match_progress file t" using assms(3) by (simp_all add: extend_inv_def)
  then have "searching file t"
    using assms(4) z unfolding searching_def found_ok_def avail_in_def by (simp add: t same_source_def)
  then show ?thesis by (simp add: t paused_def search_frame_def z)
qed

lemma searching_matched:
  "searching file s \<Longrightarrow> st = MATCH_SEARCHING \<or> st = MATCH_TARGET \<or> match_progress file s \<Longrightarrow> searching file (s\<lparr>match_state := st\<rparr>)"
  by (auto simp: searching_def found_ok_def avail_in_def src_true_def match_progress_def)

lemma extend_done_ok:
  assumes s: "searching file s" and x: "src s \<noteq> None" and p: "match_progress file s"
    and u: "used_before s (unat (input_position s)) (unat (input_position s) + unat (min_match s))"
    and t: "extend_done s = (ret, t)"
  shows "ret_ok (alloc s) ret \<and> (ret = XD3_OK \<longrightarrow> extended file s t)"
proof -
  define s1 where "s1 = s\<lparr>match_state := MATCH_SEARCHING\<rparr>"
  have s1: "searching file s1" unfolding s1_def by (rule searching_matched [OF s]) simp
  show ?thesis
  proof (cases "match_fwd s < min_match s")
    case True
    have "searching file (s1\<lparr>match_fwd := 0\<rparr>)"
      using s1 by (simp add: s1_def searching_def found_ok_def avail_in_def src_true_def)
    then show ?thesis using t True u
      by (auto simp: extend_done_def Let_def extended_def s1_def used_before_def settled_def)
  next
    case False
    have e: "extend_take s1 = (ret, t)" using t False by (simp add: extend_done_def s1_def)
    have le: "unat (min_match s) \<le> unat (match_fwd s)" using False by (simp add: not_less word_le_nat_alt)
    have "0 < match_fwd s" using False s by (auto simp: searching_def word_less_nat_alt not_less)
    moreover have "unat (input_position s) + unat (match_fwd s) \<le> length (next_in s)"
      using p by (auto simp: match_progress_def Let_def)
    moreover have "used_before s1 (unat (input_position s1)) (unat (input_position s1) + unat (match_fwd s1))"
      using u le by (auto simp: used_before_def s1_def)
    ultimately show ?thesis
      using extend_take_ok [OF s1 _ _ _ _ _ e] p le x by (auto simp: s1_def extended_def match_progress_def search_frame_def)
  qed
qed

lemma progress_sum:
  assumes "match_progress file s" and "src_true file s"
  shows "unat (match_srcpos s + match_fwd s) = unat (match_srcpos s) + unat (match_fwd s)"
proof -
  have "unat (match_fwd s) = 0 \<or> unat (match_srcpos s) + unat (match_fwd s) \<le> length file"
    using assms(1) by (auto simp: match_progress_def Let_def agree_def)
  moreover have "length file < 2 ^ 62" using assms(2) by (simp add: src_true_def)
  ultimately show ?thesis using unat_bound_64 [of "match_srcpos s"] by (intro unat_plus_64) auto
qed

lemma extend_forward_ok:
  assumes s: "searching file s" and p: "match_progress file s"
    and u: "used_before s (unat (input_position s)) (unat (input_position s) + unat (min_match s))"
    and x: "src s = Some x" and t: "extend_forward s = (ret, t)"
  shows "(ret = XD3_OK \<longrightarrow> extended file s t) \<and> (ret \<noteq> XD3_OK \<and> ret \<noteq> ENOMEM \<longrightarrow> paused file s t)"
proof -
  have st: "src_true file s" using s by (simp add: searching_def)
  have inv: "extend_inv file x s" using st x p by (simp add: extend_inv_def)
  have ok: "source_ok x" using st x by (simp add: src_true_def holds_file_def)
  obtain b r where d: "xd3_blksize_div (match_srcpos s + match_fwd s) x = (b, r)" by fastforce
  have at: "unat b * unat (blksize x) + unat r = unat (match_srcpos s) + unat (match_fwd s)"
    using blksize_div_nat [OF ok d] progress_sum [OF p st] by simp
  have bs: "0 < unat (blksize x)" using source_ok_blksize [OF ok] by simp
  have n: "length (next_in s) < 2 ^ 62" using s by (simp add: searching_def)
  have "unat (input_position s) + unat (match_fwd s) \<le> length (next_in s)"
    using p by (auto simp: match_progress_def Let_def)
  then have ip: "unat (input_position s + match_fwd s) = unat (input_position s) + unat (match_fwd s)"
    using n by (intro unat_plus_64) simp
  obtain e s1 where f: "extend_fwd b r (input_position s + match_fwd s) s = (e, s1)" by fastforce
  have g: "extend_inv file x s1" "extend_frame s s1" "e \<noteq> Extend_return XD3_OK"
    using extend_fwd_ok [OF f inv at ip bs] n by simp_all
  have pa: "paused file s s1" by (rule extend_frame_search [OF g(2) inv g(1) s])
  show ?thesis
  proof (cases "\<exists>q. e = Extend_return q")
    case True
    then show ?thesis using t g(3) pa by (auto simp: extend_forward_def x d f)
  next
    case False
    then have "extend_done s1 = (ret, t)" using t by (cases e) (simp_all add: extend_forward_def x d f)
    from extend_done_ok [OF _ _ _ _ this] have "ret_ok (alloc s1) ret \<and> (ret = XD3_OK \<longrightarrow> extended file s1 t)"
      using pa g(1) u by (auto simp: paused_def extend_inv_def used_before_def)
    then show ?thesis
      using pa by (auto simp: ret_ok_def extended_def paused_def search_frame_def)
  qed
qed

lemma extended_trans: "paused file s s1 \<Longrightarrow> extended file s1 t \<Longrightarrow> extended file s t"
  by (auto simp: paused_def extended_def search_frame_def)

lemma paused_trans: "paused file s s1 \<Longrightarrow> paused file s1 t \<Longrightarrow> paused file s t"
  by (auto simp: paused_def search_frame_def)

lemma extend_match_ok:
  assumes s: "searching file s" and p: "match_progress file s"
    and u: "used_before s (unat (input_position s)) (unat (input_position s) + unat (min_match s))"
    and x: "src s = Some x" and t: "xd3_source_extend_match s = (ret, t)"
  shows "(ret = XD3_OK \<longrightarrow> extended file s t) \<and> (ret \<noteq> XD3_OK \<and> ret \<noteq> ENOMEM \<longrightarrow> paused file s t)"
proof (cases "match_state s = MATCH_BACKWARD")
  case False
  then show ?thesis using extend_forward_ok [OF s p u x] t by (simp add: xd3_source_extend_match_def x)
next
  case True
  have st: "src_true file s" using s by (simp add: searching_def)
  have inv: "extend_inv file x s" using st x p by (simp add: extend_inv_def)
  have ok: "source_ok x" using st x by (simp add: src_true_def holds_file_def)
  have le: "unat (match_back s) \<le> unat (match_srcpos s)" "unat (match_back s) \<le> unat (input_position s)"
    using p by (auto simp: match_progress_def Let_def)
  obtain b r where d: "xd3_blksize_div (match_srcpos s - match_back s) x = (b, r)" by fastforce
  have at: "unat b * unat (blksize x) + unat r = unat (match_srcpos s) - unat (match_back s)"
    using blksize_div_nat [OF ok d] le by (simp add: unat_sub word_le_nat_alt)
  have ip: "unat (input_position s - match_back s) = unat (input_position s) - unat (match_back s)"
    using le by (simp add: unat_sub word_le_nat_alt)
  obtain e s1 where f: "extend_back b r (input_position s - match_back s) s = (e, s1)" by fastforce
  have g: "extend_inv file x s1" "extend_frame s s1" "e \<noteq> Extend_return XD3_OK"
    using extend_back_ok [OF f inv at ip] by simp_all
  have pa: "paused file s s1" by (rule extend_frame_search [OF g(2) inv g(1) s])
  have p1: "match_progress file s1" using g(1) by (simp add: extend_inv_def)
  have u1: "used_before s1 (unat (input_position s1)) (unat (input_position s1) + unat (min_match s1))"
    using u pa by (simp add: paused_def used_before_def)
  consider (Return) q where "e = Extend_return q" | (Fwd) "e = Goto_donefwd" | (Back) "e = Goto_doneback" by (cases e)
  then show ?thesis
  proof cases
    case Return
    then show ?thesis using t g(3) pa True by (auto simp: xd3_source_extend_match_def x d f)
  next
    case Fwd
    then have "extend_done s1 = (ret, t)" using t True by (simp add: xd3_source_extend_match_def x d f)
    from extend_done_ok [OF _ _ p1 u1 this] have "ret_ok (alloc s1) ret \<and> (ret = XD3_OK \<longrightarrow> extended file s1 t)"
      using pa g(1) by (auto simp: paused_def extend_inv_def)
    then show ?thesis using extended_trans [OF pa] by (auto simp: ret_ok_def)
  next
    case Back
    define s2 where "s2 = s1\<lparr>match_state := MATCH_FORWARD\<rparr>"
    have e2: "extend_forward s2 = (ret, t)" using t True Back by (simp add: xd3_source_extend_match_def x d f s2_def)
    have s2: "searching file s2" unfolding s2_def by (rule searching_matched) (use pa p1 in \<open>simp_all add: paused_def\<close>)
    have pa2: "paused file s s2" using pa s2 by (simp add: paused_def s2_def)
    obtain y where y: "src s2 = Some y" using g(1) by (auto simp: extend_inv_def s2_def)
    have p2: "match_progress file s2" using p1 by (simp add: s2_def match_progress_def)
    have u2: "used_before s2 (unat (input_position s2)) (unat (input_position s2) + unat (min_match s2))"
      using u1 by (simp add: s2_def used_before_def)
    from extend_forward_ok [OF s2 p2 u2 y e2] show ?thesis
      using extended_trans [OF pa2] paused_trans [OF pa2] by blast
  qed
qed

end
