(* ===== verification/Xd3_Search_Loop.thy ===== *)
theory Xd3_Search_Loop
  imports Xd3_Search Xd3_Encode
begin

text \<open>
  The loop of the string matcher keeps the buffer true, goes through all of the input and ends, and the
  window it is run on is encoded by sections that denote the target.
\<close>

section \<open>Setting up a match\<close>

lemma match_progress_start:
  assumes "match_back s = 0" and "match_fwd s = 0" and "input_position s \<le> avail_in s" and "length (next_in s) < 2 ^ 62"
    and "match_maxback s \<le> input_position s" "match_maxfwd s \<le> avail_in s - input_position s"
    and "match_maxback s \<le> match_srcpos s"
  shows "match_progress file s"
proof -
  have "unat (avail_in s) = length (next_in s)" using assms(4) unat_add_62 [of "next_in s"] by (simp add: avail_in_def)
  then show ?thesis
    using assms by (simp add: match_progress_def Let_def agree_def word_le_nat_alt unat_sub)
qed

lemma match_setup_ok:
  assumes s: "searching file s" and t: "xd3_source_match_setup s x srcpos = (good, t)"
  shows "paused file s t \<and> match_progress file t \<and> src t = src s \<and> (\<not> good \<longrightarrow> settled t)"
proof -
  have c: "unencoded_offset s = 0" "flags s AND XD3_BEGREEDY = 0" "\<not> srcwin_decided s" "input_position s \<le> avail_in s"
    "length (next_in s) < 2 ^ 62"
    using s by (simp_all add: searching_def)
  define z where "z = s\<lparr>match_back := 0, match_maxback := 0, match_fwd := 0, match_maxfwd := 0\<rparr>"
  define mb where "mb = (if srcpos < input_position s then srcpos else input_position s)"
  define mf where "mf = (if eof_known x \<and> xd3_source_eof x - srcpos < avail_in s - input_position s
    then xd3_source_eof x - srcpos else avail_in s - input_position s)"
  have z: "unencoded_offset z = 0" "flags z AND XD3_BEGREEDY = 0" "\<not> srcwin_decided z" "input_position z = input_position s"
    "avail_in z = avail_in s"
    using c by (simp_all add: z_def avail_in_def)
  have "t = z\<lparr>match_state := MATCH_SEARCHING, match_last_srcpos := srcpos\<rparr> \<or> good \<and>
      t = z\<lparr>match_maxback := mb, match_maxfwd := mf, match_state := MATCH_BACKWARD, match_srcpos := srcpos, match_last_srcpos := srcpos\<rparr>"
    using t z unfolding xd3_source_match_setup_def z_def [symmetric] match_limits_def Let_def
    by (auto simp: match_bad_def match_good_def mb_def mf_def split: if_splits)
  then show ?thesis
  proof
    assume e: "t = z\<lparr>match_state := MATCH_SEARCHING, match_last_srcpos := srcpos\<rparr>"
    have "searching file t"
      using s by (auto simp: e z_def searching_def found_ok_def avail_in_def src_true_def)
    moreover have "match_progress file t"
      by (rule match_progress_start) (use c in \<open>simp_all add: e z_def avail_in_def\<close>)
    ultimately show ?thesis by (simp add: paused_def e z_def settled_def)
  next
    assume "good \<and> t = z\<lparr>match_maxback := mb, match_maxfwd := mf, match_state := MATCH_BACKWARD, match_srcpos := srcpos, match_last_srcpos := srcpos\<rparr>"
    then have e: good "t = z\<lparr>match_maxback := mb, match_maxfwd := mf, match_state := MATCH_BACKWARD, match_srcpos := srcpos, match_last_srcpos := srcpos\<rparr>" by simp_all
    have p: "match_progress file t"
      by (rule match_progress_start) (use c in \<open>auto simp: e(2) z_def mb_def mf_def avail_in_def\<close>)
    then have "searching file t"
      using s by (auto simp: e(2) z_def searching_def found_ok_def avail_in_def src_true_def)
    then show ?thesis using p e(1) by (simp add: paused_def e(2) z_def)
  qed
qed

section \<open>Indexing the source\<close>

lemma searching_index [simp]:
  "searching file (t\<lparr>large_table := l\<rparr>) = searching file t" "searching file (t\<lparr>srcwin_cksum_pos := p\<rparr>) = searching file t"
  "searching file (t\<lparr>small_table := l\<rparr>) = searching file t" "searching file (t\<lparr>small_prev := l\<rparr>) = searching file t"
  "searching file (t\<lparr>small_reset := q\<rparr>) = searching file t" "searching file (t\<lparr>alloc_cnt := n\<rparr>) = searching file t"
  by (simp_all add: searching_def found_ok_def src_true_def avail_in_def match_progress_def)

definition indexed :: "uint8 list \<Rightarrow> xd3_encoder \<Rightarrow> xd3_encoder \<Rightarrow> bool" where
  "indexed file s t \<longleftrightarrow> paused file s t \<and> match_state t = match_state s"

lemma indexed_simps [simp]:
  "indexed file s (t\<lparr>large_table := l\<rparr>) = indexed file s t" "indexed file s (t\<lparr>srcwin_cksum_pos := p\<rparr>) = indexed file s t"
  by (simp_all add: indexed_def paused_def)

lemma indexed_refl: "searching file s \<Longrightarrow> indexed file s s"
  by (simp add: indexed_def paused_def)

lemma getblk_indexed:
  assumes "indexed file s t" and "src t = Some x" and "xd3_getblk t blkno = (ret, u)"
  shows "indexed file s u \<and> ret \<notin> {C_UNDEFINED, C_DIVERGES} \<and> src u \<noteq> None"
proof -
  have t: "searching file t" using assms(1) by (simp add: indexed_def paused_def)
  then have "src_true file t" by (simp add: searching_def)
  from getblk_true [OF this assms(2,3)] obtain y m where u: "u = t\<lparr>src := Some y, msg := m\<rparr>" "src_true file u"
    "same_source x y" "ret \<notin> {C_UNDEFINED, C_DIVERGES}" by blast
  have "searching file u"
    using t u(2,3) assms(2) unfolding searching_def found_ok_def avail_in_def by (simp add: u(1) same_source_def match_progress_def)
  then show ?thesis using assms(1,2) u by (simp add: indexed_def paused_def search_frame_def)
qed

lemma index_block_ok:
  assumes "index_block blk blkbase oldpos blkpos t = Some r" and "indexed file s t"
  shows "indexed file s (snd r) \<and> src (snd r) = src t \<and> fst r \<in> {XD3_OK, C_UNDEFINED}"
  using assms
proof (induction rule: index_block.raw_induct [rotated, consumes 1, case_names step])
  case (step f blk blkbase oldpos blkpos t r)
  show ?case using step(2,3) by (auto simp: Let_def dest!: step(1) split: if_splits option.splits)
qed

lemma move_loop_ok:
  assumes "move_loop target t = Some r" and "indexed file s t" and "src t \<noteq> None"
  shows "indexed file s (snd r) \<and> src (snd r) \<noteq> None"
  using assms
proof (induction rule: move_loop.raw_induct [rotated, consumes 1, case_names step])
  case (step f target t r)
  obtain x where x: "src t = Some x" using step(4) by blast
  obtain b q where d: "xd3_blksize_div (srcwin_cksum_pos t) x = (b, q)" by fastforce
  obtain ret u where g: "xd3_getblk t b = (ret, u)" by fastforce
  note g1 = getblk_indexed [OF step(3) x g]
  then obtain y where y: "src u = Some y" by blast
  show ?case
  proof (cases "srcwin_cksum_pos t < target \<and> (\<not> eof_known x \<or> srcwin_cksum_pos t < xd3_source_eof x) \<and> ret = XD3_OK")
    case False
    then have "snd r = t \<or> snd r = u" using step(2) by (simp add: x d g) (auto simp: d g split: if_splits)
    then show ?thesis using step(3,4) g1 by auto
  next
    case True
    show ?thesis
    proof (cases "sint (xd3_bytes_on_srcblk y b) < sint (large_look (smatcher u))")
      case short: True
      then show ?thesis
        using step(2) True x d g g1 y by (auto simp: Let_def dest!: step(1))
    next
      case False
      define blk where "blk = (case curblk y of None \<Rightarrow> [] | Some b \<Rightarrow> b)"
      have step': "(case index_block blk (blksize y * b) (sint q)
            (sint (xd3_bytes_on_srcblk y b) - sint (large_look (smatcher u))) u of
          None \<Rightarrow> None
        | Some (ret, s) \<Rightarrow> if ret \<noteq> XD3_OK then Some (ret, s)
            else f target (s\<lparr>srcwin_cksum_pos := (b + 1) * blksize y\<rparr>)) = Some r"
        using step(2) True False x d g y by (auto simp: Let_def blk_def)
      show ?thesis
      proof (cases "index_block blk (blksize y * b) (sint q) (sint (xd3_bytes_on_srcblk y b) - sint (large_look (smatcher u))) u")
        case (Some r1)
        then show ?thesis using step' g1 y index_block_ok [OF Some]
          by (cases r1) (auto dest!: step(1) split: if_splits)
      qed (use step' in simp)
    qed
  qed
qed

lemma move_point_ok:
  assumes s: "searching file s" and x: "src s = Some x" and t: "xd3_srcwin_move_point s = (ret, t, nmp)"
  shows "indexed file s t"
proof -
  define z where "z = (if maxsrcaddr s > srcwin_cksum_pos s then s\<lparr>srcwin_cksum_pos := maxsrcaddr s\<rparr> else s)"
  define tg where "tg = (if move_target x s < srcwin_cksum_pos z then srcwin_cksum_pos z else move_target x s)"
  have z: "indexed file s z" "src z \<noteq> None" using indexed_refl [OF s] x by (auto simp: z_def)
  show ?thesis
  proof (cases "move_loop tg z")
    case None
    then show ?thesis
      using t x z indexed_refl [OF s] unfolding xd3_srcwin_move_point_def Let_def z_def [symmetric]
      by (auto simp: tg_def split: if_splits)
  next
    case (Some r)
    note ml = move_loop_ok [OF Some z]
    show ?thesis
      using t x z indexed_refl [OF s] ml Some unfolding xd3_srcwin_move_point_def Let_def z_def [symmetric]
      by (cases r) (auto simp: tg_def split: if_splits option.splits)
  qed
qed

section \<open>The rounds of the loop\<close>

text \<open>The tables of the target hold positions below \<open>q\<close>, offset by 1.\<close>

definition small_ok :: "nat \<Rightarrow> xd3_encoder \<Rightarrow> bool" where
  "small_ok q s \<longleftrightarrow> (DO_SMALL s \<longrightarrow> hash_ok (small_hash s) \<and>
     (\<exists>t. small_table s = Some t \<and> length t = unat (hc_size (small_hash s)) \<and> (\<forall>e \<in> set t. unat e \<le> q)) \<and>
     (small_prev s = None \<longrightarrow> small_chain (smatcher s) = 1 \<and> small_lchain (smatcher s) = 1) \<and>
     (\<forall>p. small_prev s = Some p \<longrightarrow> length p = unat (sprevsz s)) \<and> sprevsz s \<noteq> 0 \<and> sprevmask s = sprevsz s - 1)"

definition look_ok :: "xd3_encoder \<Rightarrow> bool" where
  "look_ok s \<longleftrightarrow> 4 \<le> unat (small_look (smatcher s)) \<and> unat (small_look (smatcher s)) < 2 ^ 31"

text \<open>At the start of a round, at \<open>updateone\<close> and at \<open>restartloop\<close>.\<close>

definition room :: "xd3_encoder \<Rightarrow> sm_vars \<Rightarrow> bool" where
  "room s v \<longleftrightarrow> look_ok s \<and> unat (input_position s) + unat (small_look (smatcher s)) \<le> length (next_in s) \<and>
     run_tail (take (unat (small_look (smatcher s))) (sm_inp s)) (v_run_c v) (unat (v_run_l v))"

definition at_body :: "uint8 list \<Rightarrow> sm_vars \<Rightarrow> xd3_encoder \<Rightarrow> bool" where
  "at_body file v s \<longleftrightarrow> searching file s \<and> settled s \<and> room s v \<and> small_ok (unat (input_position s)) s \<and>
     used_before s (unat (input_position s)) (unat (input_position s) + unat (min_match s))"

definition at_update :: "uint8 list \<Rightarrow> sm_vars \<Rightarrow> xd3_encoder \<Rightarrow> bool" where
  "at_update file v s \<longleftrightarrow> searching file s \<and> settled s \<and> room s v \<and> small_ok (unat (input_position s) + 1) s \<and>
     used_before s (unat (input_position s) + 1) (unat (input_position s) + unat (min_match s) + 1)"

definition at_restart :: "uint8 list \<Rightarrow> xd3_encoder \<Rightarrow> bool" where
  "at_restart file s \<longleftrightarrow> searching file s \<and> settled s \<and> look_ok s \<and> small_ok (unat (input_position s)) s \<and>
     used_before s (unat (input_position s)) (2 ^ 64)"

text \<open>What the hash table of the target needs once it is cleared.\<close>

definition tables_fit :: "xd3_encoder \<Rightarrow> bool" where
  "tables_fit s \<longleftrightarrow> (DO_SMALL s \<longrightarrow> hash_ok (small_hash s) \<and> sprevsz s \<noteq> 0 \<and> sprevmask s = sprevsz s - 1 \<and>
     (small_table s = None \<longrightarrow> small_prev s = None \<and> small_chain (smatcher s) \<noteq> 0 \<and> small_lchain (smatcher s) \<noteq> 0) \<and>
     (\<forall>t. small_table s = Some t \<longrightarrow> length t = unat (hc_size (small_hash s)) \<and>
       (small_prev s = None \<longrightarrow> small_chain (smatcher s) = 1 \<and> small_lchain (smatcher s) = 1) \<and>
       (\<forall>p. small_prev s = Some p \<longrightarrow> length p = unat (sprevsz s))))"

lemma small_tables_fit: "small_ok q s \<Longrightarrow> tables_fit s"
  by (auto simp: small_ok_def tables_fit_def)

definition returned :: "uint8 list \<Rightarrow> xd3_encoder \<Rightarrow> xd3_rvalue \<Rightarrow> xd3_encoder \<Rightarrow> bool" where
  "returned file s ret t \<longleftrightarrow> (ret \<noteq> ENOMEM \<longrightarrow> searching file t \<and> search_frame s t) \<and>
     (ret \<noteq> XD3_OK \<and> ret \<noteq> ENOMEM \<longrightarrow> look_ok t \<and> small_ok (unat (input_position t)) t \<and>
       used_before t (unat (input_position t)) (unat (input_position t) + unat (min_match t))) \<and>
     (src s = None \<longrightarrow> ret_ok (alloc s) ret) \<and> (ret = XD3_OK \<longrightarrow> settled t \<and> tables_fit t)"

definition stepped :: "uint8 list \<Rightarrow> xd3_encoder \<Rightarrow> sm_jump \<times> sm_vars \<times> xd3_encoder \<Rightarrow> bool" where
  "stepped file s r \<longleftrightarrow> (case r of (j, v, t) \<Rightarrow> (case j of
      Sm_next \<Rightarrow> at_body file v t \<and> search_frame s t \<and> input_position t = input_position s
    | Sm_updateone \<Rightarrow> at_update file v t \<and> search_frame s t \<and> input_position t = input_position s
    | Sm_restart \<Rightarrow> at_restart file t \<and> search_frame s t \<and> input_position s < input_position t
    | Sm_return ret \<Rightarrow> returned file s ret t))"

lemma small_ok_mono: "small_ok q s \<Longrightarrow> q \<le> q' \<Longrightarrow> small_ok q' s"
  by (fastforce simp: small_ok_def)

lemma small_ok_frame:
  "search_frame s t \<Longrightarrow> small_table t = small_table s \<Longrightarrow> small_prev t = small_prev s \<Longrightarrow> small_ok q t = small_ok q s"
  by (simp add: small_ok_def DO_SMALL_def search_frame_def)

lemma room_frame: "search_frame s t \<Longrightarrow> input_position t = input_position s \<Longrightarrow> room t v = room s v"
  by (simp add: room_def look_ok_def sm_inp_def search_frame_def)

lemma look_frame: "search_frame s t \<Longrightarrow> look_ok t = look_ok s"
  by (simp add: look_ok_def search_frame_def)

lemma handle_lazy_ok:
  assumes s: "searching file s" and d: "settled s" and r: "room s v" and sm: "small_ok (unat (input_position s) + 1) s"
    and u: "used_before s (unat (input_position s) + 1) (unat (input_position s) + unat mlen + 1)"
    and l: "4 \<le> unat mlen" "unat (input_position s) + unat mlen \<le> length (next_in s)"
    and fr: "search_frame s0 s" "input_position s = input_position s0"
  shows "stepped file s0 (HANDLELAZY mlen v s)"
proof (cases "TRYLAZYLEN s mlen")
  case True
  have n: "length (next_in s) < 2 ^ 62" using s by (simp add: searching_def)
  let ?t = "s\<lparr>min_match := mlen\<rparr>"
  have "searching file ?t"
    using s l n by (auto simp: searching_def found_ok_def avail_in_def src_true_def match_progress_def)
  moreover have "room ?t v = room s v" "small_ok q ?t = small_ok q s" for q
    by (simp_all add: room_def look_ok_def sm_inp_def small_ok_def DO_SMALL_def)
  ultimately show ?thesis using True r sm u fr d
    by (auto simp: settled_def HANDLELAZY_def stepped_def at_update_def used_before_def)
next
  case False
  let ?t = "s\<lparr>input_position := input_position s + mlen\<rparr>"
  have n: "length (next_in s) < 2 ^ 62" "unat (avail_in s) = length (next_in s)"
    using s searching_position [OF s] by (simp_all add: searching_def)
  have p: "unat (input_position s + mlen) = unat (input_position s) + unat mlen"
    using l n by (intro unat_plus_64) simp
  have "searching file ?t"
    using s l n p d by (auto simp: settled_def searching_def found_ok_def avail_in_def src_true_def word_le_nat_alt)
  moreover have "small_ok (unat (input_position s) + unat mlen) ?t"
    using small_ok_mono [OF sm, of "unat (input_position s) + unat mlen"] l by (simp add: small_ok_def DO_SMALL_def)
  moreover have "look_ok ?t" using r by (simp add: room_def look_ok_def)
  moreover have "used_before ?t (unat (input_position s) + unat mlen) (2 ^ 64)"
    using u l n by (auto simp: used_before_def)
  ultimately show ?thesis using False fr p l d
    by (auto simp: settled_def HANDLELAZY_def stepped_def at_restart_def word_less_nat_alt)
qed

lemma found_lazy:
  assumes s: "searching file s" "settled s" "room s v" "small_ok (unat (input_position s) + 1) s"
    and fr: "search_frame s0 s" "input_position s = input_position s0"
    and t: "found_ok file t" "slot_frame (s\<lparr>iopt_used := us\<rparr>) t" "iopt_used t = vs @ [r]"
    and r: "posn r = unat (input_position s)" "fin r = unat (input_position s) + unat mlen"
    and l: "4 \<le> unat mlen" "unat (input_position s) + unat mlen \<le> length (next_in s)"
  shows "stepped file s0 (HANDLELAZY mlen v t)"
proof -
  obtain ac fr sz sl where e: "t = s\<lparr>iopt_used := us, alloc_cnt := ac, iopt_free := fr, iopt_size := sz, i_slots_used := sl\<rparr>"
    using t(2) unfolding slot_frame_def by blast
  have st: "search_frame s t" by (simp add: e)
  have "small_ok q t = small_ok q s" for q by (rule small_ok_frame [OF st]) (simp_all add: e)
  moreover have "room t v = room s v" by (rule room_frame [OF st]) (simp add: e)
  moreover have "settled t" using s(2) by (simp add: e settled_def)
  moreover have "searching file t" by (rule slot_searching [OF s(1) t(2,1)])
  moreover have ip: "input_position t = input_position s" "next_in t = next_in s" by (simp_all add: e)
  moreover have "used_before t (unat (input_position t) + 1) (unat (input_position t) + unat mlen + 1)"
    using t(3) r ip by (simp add: used_before_def)
  ultimately show ?thesis
    using s l fr search_frame_trans [OF fr(1) st] by (intro handle_lazy_ok) simp_all
qed

lemma run_tail_const: "\<forall>k < length seg. seg ! k = c \<Longrightarrow> run_tail seg c l"
  by (simp add: run_tail_def rev_nth)

lemma sm_run_ok:
  assumes b: "at_body file v s"
  shows "stepped file s (sm_run v s)"
proof (cases "v_run_l v = small_look (smatcher s)")
  case False
  then show ?thesis using b by (simp add: sm_run_def stepped_def)
next
  case True
  let ?p = "unat (input_position s)" and ?look = "unat (small_look (smatcher s))" and ?c = "v_run_c v"
  have s: "searching file s" "settled s" "room s v" "small_ok ?p s" "used_before s ?p (?p + unat (min_match s))"
    using b by (simp_all add: at_body_def)
  have n: "?p \<le> length (next_in s)" "unat (avail_in s) = length (next_in s)" using searching_position [OF s(1)] by simp_all
  have look: "?p + ?look \<le> length (next_in s)" using s(3) by (simp add: room_def)
  have len: "length (take ?look (sm_inp s)) = ?look" using look by (simp add: sm_inp_def)
  have "run_tail (take ?look (sm_inp s)) ?c ?look" using s(3) True by (simp add: room_def)
  then have c0: "\<forall>k < ?look. sm_inp s ! k = ?c" using run_tail_all [of "take ?look (sm_inp s)" ?c ?look] len by simp
  define mx where "mx = avail_in s - input_position s"
  have mx: "unat mx = length (next_in s) - ?p" using n by (simp add: mx_def unat_sub word_le_nat_alt)
  define l where "l = run_extend (sm_inp s) ?c mx (v_run_l v)"
  have l: "v_run_l v \<le> l" "l \<le> mx" "\<forall>k < unat l. sm_inp s ! k = ?c"
    using run_extend_ok [of "v_run_l v" mx "sm_inp s" ?c] True c0 mx look by (auto simp: l_def sm_inp_def word_le_nat_alt)
  have ll: "?p + unat l \<le> length (next_in s)" using l(2) mx n(1) by (simp add: word_le_nat_alt)
  define v' where "v' = v\<lparr>v_run_l := l\<rparr>"
  have r': "room s v'"
    using s(3) c0 len by (auto simp: room_def v'_def intro: run_tail_const)
  show ?thesis
  proof (cases "l \<ge> min_match s \<and> l \<ge> 8")
    case False
    then have "sm_run v s = (Sm_next, v', s)" using True by (auto simp: sm_run_def Let_def l_def mx_def v'_def)
    then show ?thesis using s r' by (simp add: stepped_def at_body_def)
  next
    case big: True
    have l8: "8 \<le> unat l" "unat (min_match s) \<le> unat l" using big by (simp_all add: word_le_nat_alt)
    obtain ret t where m: "xd3_emit_run s (input_position s) l ?c = (ret, t)" by fastforce
    have f: "found_ok file s" "iopt_unlimited s" using s(1) by (simp_all add: searching_def)
    have u: "used_before s ?p (?p + unat l)" by (rule used_before_mono [OF s(5)]) (use l8 in simp_all)
    have "take (unat l) (drop ?p (next_in s)) = replicate (unat l) ?c"
      using l(3) ll by (intro nth_equalityI) (simp_all add: sm_inp_def)
    then have mo: "match_ok file (unat (match_minaddr s)) (unat (match_maxaddr s)) (next_in s)
        (x\<lparr>ri_type := XD3_RUN, ri_xtra := ?c, ri_pos := input_position s, ri_size := l\<rparr>) \<and>
      posn (x\<lparr>ri_type := XD3_RUN, ri_xtra := ?c, ri_pos := input_position s, ri_size := l\<rparr>) = ?p \<and>
      fin (x\<lparr>ri_type := XD3_RUN, ri_xtra := ?c, ri_pos := input_position s, ri_size := l\<rparr>) = ?p + unat l"
      for x :: xd3_rinst
      using l8 ll by (simp add: match_ok_def in_target_def posn_def fin_def len_def)
    note g = emit_run_ok [OF f u mo m]
    have e: "sm_run v s = (if ret \<noteq> XD3_OK then (Sm_return ret, v', t) else HANDLELAZY l v' t)"
      using True big m by (simp add: sm_run_def Let_def l_def mx_def v'_def)
    show ?thesis
    proof (cases "ret = XD3_OK")
      case False
      then show ?thesis using g e by (simp add: stepped_def returned_def ret_ok_def)
    next
      case True
      then obtain us r where t: "found_ok file t" "slot_frame (s\<lparr>iopt_used := us\<rparr>) t" "iopt_used t = iopt_used s @ [r]"
        "posn r = ?p" "fin r = ?p + unat l"
        using g by blast
      have "stepped file s (HANDLELAZY l v' t)"
        by (rule found_lazy [OF s(1,2) r' small_ok_mono [OF s(4)] _ _ t]) (use l8 ll in simp_all)
      then show ?thesis using True e by simp
    qed
  qed
qed

lemma smatch_again_total:
  assumes "base < input_position s" and "small_prev s = None \<longrightarrow> chain = 1"
    and "\<forall>p. small_prev s = Some p \<longrightarrow> length p = unat (sprevsz s)" and "sprevsz s \<noteq> 0" and "sprevmask s = sprevsz s - 1"
  shows "smatch_again s base chain l0 off0 \<noteq> None"
  using assms
proof (induction s base chain l0 off0 rule: smatch_again.induct)
  case (1 s base chain l0 off0)
  define pos where "pos = unat (input_position s)"
  define n where "n = length (next_in s) - pos"
  define c where "c = byte_loop (drop (unat base) (next_in s)) (drop pos (next_in s)) n 0"
  define l1 where "l1 = (if of_nat c > l0 then of_nat c else l0)"
  define off1 where "off1 = (if of_nat c > l0 then base else off0)"
  have step: "smatch_again s base chain l0 off0 =
      (if of_nat c > l0 \<and> (c = n \<or> of_nat c \<ge> long_enough (smatcher s)) then Some (l1, off1)
       else if chain - 1 = 0 then Some (l1, off1)
       else
         case table_get (small_prev s) (base AND sprevmask s) of
           None \<Rightarrow> None
         | Some prev_pos \<Rightarrow>
             if prev_pos = 0 then Some (l1, off1)
             else if prev_pos - 1 > base then Some (l1, off1)
             else if (input_position s - (prev_pos - 1)) AND NOT (sprevmask s) \<noteq> 0 then Some (l1, off1)
             else smatch_again s (prev_pos - 1) (chain - 1) l1 off1)"
    using 1(2) by (subst smatch_again.simps) (simp only: Let_def pos_def n_def c_def l1_def off1_def not_not simp_thms if_False)
  note ih = 1(1) [OF refl pos_def, folded n_def, OF refl, unfolded not_not, OF 1(2), folded c_def]
  show ?case
  proof (cases "(of_nat c > l0 \<and> (c = n \<or> of_nat c \<ge> long_enough (smatcher s))) \<or> chain - 1 = 0")
    case True
    then show ?thesis unfolding step by auto
  next
    case False
    then obtain p where p: "small_prev s = Some p" using 1(3) by (cases "small_prev s") auto
    have "base AND sprevmask s \<le> sprevmask s" by (rule word_and_le1)
    then have "unat (base AND sprevmask s) < unat (sprevsz s)"
      using 1(5,6) measure_unat [of "sprevsz s"] by (simp add: word_le_nat_alt)
    then have g: "table_get (small_prev s) (base AND sprevmask s) = Some (p ! unat (base AND sprevmask s))"
      using p 1(4) by (simp add: table_get_def)
    define q where "q = p ! unat (base AND sprevmask s)"
    show ?thesis
    proof (cases "q = 0 \<or> q - 1 > base \<or> (input_position s - (q - 1)) AND NOT (sprevmask s) \<noteq> 0")
      case True
      then show ?thesis using False g unfolding step q_def [symmetric] by auto
    next
      case more: False
      have "smatch_again s (q - 1) (chain - 1) l1 off1 \<noteq> None"
      proof (rule ih [OF refl refl refl l1_def off1_def])
        show "table_get (small_prev s) (base AND sprevmask s) = Some q" using g by (simp add: q_def)
        show "q - 1 < input_position s" using more 1(2) by (auto simp: not_less)
      qed (use False more p 1(4-6) in auto)
      then show ?thesis using False more g unfolding step q_def [symmetric] by simp
    qed
  qed
qed

lemma smatch_ok:
  assumes b: "searching file s" "small_ok (unat (input_position s)) s" "DO_SMALL s"
    and e: "table_get (small_table s) i = Some e"
  shows "\<exists>l off. (if e \<noteq> 0 then xd3_smatch s e else Some (0, 0)) = Some (l, off) \<and> target_match s l off"
proof (cases "e = 0")
  case True
  then show ?thesis by (simp add: target_match_def)
next
  case False
  define chain where "chain = (if min_match s = 4 then small_chain (smatcher s) else small_lchain (smatcher s))"
  have "e \<in> set (the (small_table s))" using e by (auto simp: table_get_def split: option.splits if_splits)
  then have le: "unat e \<le> unat (input_position s)" using b(2,3) by (auto simp: small_ok_def)
  then have base: "e - 1 < input_position s" using False measure_unat [of e] by (simp add: word_less_nat_alt)
  have "smatch_again s (e - 1) chain 0 0 \<noteq> None"
    by (rule smatch_again_total [OF base]) (use b(2,3) in \<open>auto simp: small_ok_def chain_def\<close>)
  then obtain l off where r: "smatch_again s (e - 1) chain 0 0 = Some (l, off)" by auto
  have n: "unat (input_position s) \<le> length (next_in s)" "length (next_in s) < 2 ^ 64"
    using searching_position [OF b(1)] b(1) by (simp_all add: searching_def)
  have "target_match s l off" by (rule smatch_again_ok [OF r _ n]) (simp add: target_match_def)
  moreover have "target_match s 0 off" by (simp add: target_match_def)
  ultimately show ?thesis using False r by (simp add: xd3_smatch_def Let_def chain_def [symmetric])
qed

lemma scksum_insert_ok:
  assumes s: "small_ok (unat pos) s" "DO_SMALL s" "unat pos < 2 ^ 62" and i: "table_get (small_table s) i = Some e"
  shows "\<exists>t p. xd3_scksum_insert s i pos = (XD3_OK, s\<lparr>small_table := t, small_prev := p\<rparr>) \<and>
    small_ok (unat pos + 1) (s\<lparr>small_table := t, small_prev := p\<rparr>)"
proof -
  obtain xs where xs: "small_table s = Some xs" "unat i < length xs" "e = xs ! unat i"
    using i by (auto simp: table_get_def split: option.splits if_splits)
  have so: "hash_ok (small_hash s)" "length xs = unat (hc_size (small_hash s))" "\<forall>e \<in> set xs. unat e \<le> unat pos"
    "small_prev s = None \<longrightarrow> small_chain (smatcher s) = 1 \<and> small_lchain (smatcher s) = 1"
    "\<forall>p. small_prev s = Some p \<longrightarrow> length p = unat (sprevsz s)" "sprevsz s \<noteq> 0" "sprevmask s = sprevsz s - 1"
    using s(1,2) xs(1) by (auto simp: small_ok_def)
  have "unat (pos + 1) = unat pos + 1" using s(3) unat_plus_64 [of pos 1] by simp
  then have t: "\<forall>e \<in> set (xs[unat i := pos + 1]). unat e \<le> unat pos + 1"
    using so(3) set_update_subset_insert [of xs "unat i" "pos + 1"] by fastforce
  have keep: "small_ok (unat pos + 1) (s\<lparr>small_table := Some (xs[unat i := pos + 1]), small_prev := q\<rparr>)"
    if "q = None \<longrightarrow> small_prev s = None" "\<forall>p. q = Some p \<longrightarrow> length p = unat (sprevsz s)" for q
    unfolding small_ok_def
  proof (intro impI conjI exI)
    show "\<forall>e \<in> set (xs[unat i := pos + 1]). unat e \<le> unat pos + 1" by (rule t)
  qed (use so(1,2,4-7) that in \<open>simp_all\<close>)
  show ?thesis
  proof (cases "small_prev s")
    case None
    have "xd3_scksum_insert s i pos = (XD3_OK, s\<lparr>small_table := Some (xs[unat i := pos + 1]), small_prev := None\<rparr>)"
      using xs None by (cases s) (simp add: xd3_scksum_insert_def table_get_def table_put_def)
    moreover have "small_ok (unat pos + 1) (s\<lparr>small_table := Some (xs[unat i := pos + 1]), small_prev := None\<rparr>)"
      by (rule keep) (use None in simp_all)
    ultimately show ?thesis by blast
  next
    case (Some p)
    have "pos AND sprevmask s \<le> sprevmask s" by (rule word_and_le1)
    then have m: "unat (pos AND sprevmask s) < length p"
      using so(5-7) Some measure_unat [of "sprevsz s"] by (simp add: word_le_nat_alt)
    define p' where "p' = p[unat (pos AND sprevmask s) := e]"
    have "xd3_scksum_insert s i pos = (XD3_OK, s\<lparr>small_table := Some (xs[unat i := pos + 1]), small_prev := Some p'\<rparr>)"
      using xs Some m by (cases s) (simp add: xd3_scksum_insert_def table_get_def table_put_def p'_def)
    moreover have "small_ok (unat pos + 1) (s\<lparr>small_table := Some (xs[unat i := pos + 1]), small_prev := Some p'\<rparr>)"
      by (rule keep) (use Some so(5) in \<open>simp_all add: p'_def\<close>)
    ultimately show ?thesis by blast
  qed
qed

text \<open>After the position was entered in the table.\<close>

definition at_end :: "uint8 list \<Rightarrow> sm_vars \<Rightarrow> xd3_encoder \<Rightarrow> bool" where
  "at_end file v s \<longleftrightarrow> searching file s \<and> settled s \<and> room s v \<and> small_ok (unat (input_position s) + 1) s \<and>
     used_before s (unat (input_position s)) (unat (input_position s) + unat (min_match s))"

lemma at_body_end: "at_body file v s \<Longrightarrow> at_end file v s"
  by (auto simp: at_body_def at_end_def elim: small_ok_mono)

lemma sm_small_ok:
  assumes b: "at_body file v s" and r: "sm_small v s = (j, v', t)"
  shows "(j = Sm_next \<longrightarrow> at_end file v' t \<and> search_frame s t \<and> input_position t = input_position s) \<and>
    (j \<noteq> Sm_next \<longrightarrow> stepped file s (j, v', t))"
proof (cases "DO_SMALL s")
  case False
  then show ?thesis using r at_body_end [OF b] by (auto simp: sm_small_def)
next
  case True
  let ?p = "unat (input_position s)"
  have s: "searching file s" "settled s" "room s v" "small_ok ?p s" "used_before s ?p (?p + unat (min_match s))"
    using b by (simp_all add: at_body_def)
  have n: "?p \<le> length (next_in s)" "length (next_in s) < 2 ^ 62"
    using searching_position [OF s(1)] s(1) by (simp_all add: searching_def)
  define i where "i = xd3_checksum_hash (small_hash s) (ucast (v_scksum v))"
  have "hash_ok (small_hash s)" using s(4) True by (simp add: small_ok_def)
  then have "i < hc_size (small_hash s)" by (simp add: i_def checksum_hash_less)
  then obtain e where e: "table_get (small_table s) i = Some e"
    using s(4) True by (auto simp: small_ok_def table_get_def word_less_nat_alt)
  obtain l off where m: "(if e \<noteq> 0 then xd3_smatch s e else Some (0, 0)) = Some (l, off)" "target_match s l off"
    using smatch_ok [OF s(1,4) True e] by blast
  obtain ta p where ins: "xd3_scksum_insert s i (input_position s) = (XD3_OK, s\<lparr>small_table := ta, small_prev := p\<rparr>)"
    "small_ok (?p + 1) (s\<lparr>small_table := ta, small_prev := p\<rparr>)"
    using scksum_insert_ok [OF s(4) True _ e] n by auto
  define s1 where "s1 = s\<lparr>small_table := ta, small_prev := p\<rparr>"
  have fr: "search_frame s s1" "input_position s1 = input_position s" by (simp_all add: s1_def)
  have s1: "searching file s1" "settled s1" "room s1 v" "small_ok (unat (input_position s1) + 1) s1"
    using s ins(2) room_frame [OF fr, of v] by (simp_all add: s1_def settled_def)
  have eq: "sm_small v s = (if l \<ge> min_match s then
      case xd3_found_match s1 (input_position s) l off False of
        (ret, s) \<Rightarrow> if ret \<noteq> XD3_OK then (Sm_return ret, v, s) else HANDLELAZY l v s
      else (Sm_next, v, s1))"
    using True e m(1) ins(1) by (simp add: sm_small_def Let_def i_def [symmetric] s1_def)
  show ?thesis
  proof (cases "l \<ge> min_match s")
    case False
    have "used_before s1 ?p (?p + unat (min_match s))" using s(5) by (simp add: s1_def used_before_def)
    then have "at_end file v s1" using s1 fr by (simp add: at_end_def s1_def)
    then show ?thesis using r eq fr False by simp
  next
    case big: True
    have l: "4 \<le> unat l" "unat (min_match s) \<le> unat l" using big s(1) by (auto simp: searching_def word_le_nat_alt)
    have a: "off < input_position s" "agree (next_in s) (unat off) (next_in s) ?p (unat l)"
      using m(2) l by (auto simp: target_match_def)
    then have ll: "?p + unat l \<le> length (next_in s)" using l by (auto simp: agree_def)
    obtain ret u where f: "xd3_found_match s1 (input_position s) l off False = (ret, u)" by fastforce
    have f1: "found_ok file s1" "iopt_unlimited s1" using s1(1) by (simp_all add: searching_def)
    have ub: "used_before s1 ?p (?p + unat l)" using s(5) l by (auto simp: s1_def used_before_def)
    have mo: "match_ok file (unat (match_minaddr s1)) (unat (match_maxaddr s1)) (next_in s1)
        (x\<lparr>ri_type := XD3_CPY, ri_xtra := (if False then 1 else 0), ri_pos := input_position s, ri_size := l, ri_addr := off\<rparr>) \<and>
      posn (x\<lparr>ri_type := XD3_CPY, ri_xtra := (if False then 1 else 0), ri_pos := input_position s, ri_size := l, ri_addr := off\<rparr>) = ?p \<and>
      fin (x\<lparr>ri_type := XD3_CPY, ri_xtra := (if False then 1 else 0), ri_pos := input_position s, ri_size := l, ri_addr := off\<rparr>) = ?p + unat l"
      for x :: xd3_rinst
      using l ll a by (simp add: match_ok_def in_target_def posn_def fin_def len_def s1_def word_less_nat_alt)
    note g = found_match_ok [OF f1 ub mo f]
    show ?thesis
    proof (cases "ret = XD3_OK")
      case False
      then show ?thesis using g eq f big r by (auto simp: stepped_def returned_def ret_ok_def s1_def)
    next
      case True
      then obtain us q where t: "found_ok file u" "slot_frame (s1\<lparr>iopt_used := us\<rparr>) u" "iopt_used u = iopt_used s1 @ [q]"
        "posn q = unat (input_position s1)" "fin q = unat (input_position s1) + unat l"
        using g fr(2) by auto
      have "stepped file s (HANDLELAZY l v u)"
        by (rule found_lazy [OF s1 fr t]) (use l ll in \<open>simp_all add: s1_def\<close>)
      moreover have "HANDLELAZY l v u = (j, v', t)" using True eq f big r by simp
      moreover have "j \<noteq> Sm_next" using calculation(2) by (auto simp: HANDLELAZY_def split: if_splits)
      ultimately show ?thesis by simp
    qed
  qed
qed


lemma sm_end_ok:
  assumes b: "at_end file v s"
  defines "t \<equiv> if min_match s > 4 then s\<lparr>min_match := min_match s - 1\<rparr> else s"
  shows "at_update file v t \<and> search_frame s t \<and> input_position t = input_position s"
proof (cases "min_match s > 4")
  case True
  have u: "unat (min_match s - 1) = unat (min_match s) - 1" "4 < unat (min_match s)"
    using True by (auto simp: unat_sub word_le_nat_alt word_less_nat_alt)
  have "searching file t"
    using b True u by (auto simp: at_end_def t_def searching_def found_ok_def src_true_def avail_in_def settled_def)
  moreover have "used_before t (unat (input_position s) + 1) (unat (input_position s) + unat (min_match s) - 1 + 1)"
    using b True u by (auto simp: at_end_def t_def used_before_def)
  ultimately show ?thesis
    using b True u by (auto simp: at_end_def at_update_def t_def settled_def room_def look_ok_def sm_inp_def small_ok_def DO_SMALL_def
      used_before_def)
next
  case False
  then show ?thesis using b by (auto simp: at_end_def at_update_def t_def used_before_def)
qed

lemma paused_body:
  assumes b: "at_body file v s" and p: "paused file s t" and d: "settled t"
  shows "at_body file v t"
proof -
  have fr: "search_frame s t" "input_position t = input_position s" using p by (simp_all add: paused_def)
  have "small_ok q t = small_ok q s" for q by (rule small_ok_frame [OF fr(1)]) (use p in \<open>simp_all add: paused_def\<close>)
  then show ?thesis
    using b p d room_frame [OF fr, of v] by (simp add: at_body_def paused_def used_before_def)
qed

text \<open>A source that cannot be read now, or not at all, leaves the search where it is.\<close>

lemma paused_returned:
  assumes b: "at_body file v s" and p: "paused file s t" and r: "ret \<noteq> XD3_OK" "src s \<noteq> None"
  shows "returned file s ret t"
proof -
  have fr: "search_frame s t" using p by (simp add: paused_def)
  have "small_ok q t = small_ok q s" for q by (rule small_ok_frame [OF fr]) (use p in \<open>simp_all add: paused_def\<close>)
  then show ?thesis
    using b p r look_frame [OF fr] by (auto simp: returned_def at_body_def room_def paused_def used_before_def)
qed

lemma extended_lazy:
  assumes b': "searching file s" "room s v" "small_ok (unat (input_position s)) s"
    and p: "paused file s0 s" and e: "extended file s t" and f: "match_fwd t > 0"
  shows "stepped file s0 (HANDLELAZY (match_fwd t) v t)"
proof -
  have f0: "0 < unat (match_fwd t)" using f by (simp add: word_less_nat_alt)
  have fr: "search_frame s t" "input_position t = input_position s" using e by (simp_all add: extended_def)
  have fr0: "search_frame s0 t" "input_position t = input_position s0"
    using fr p search_frame_trans by (auto simp: paused_def)
  have sm: "small_ok q t = small_ok q s" for q
    by (rule small_ok_frame [OF fr(1)]) (use e in \<open>simp_all add: extended_def\<close>)
  have n: "next_in t = next_in s" using fr by (simp add: search_frame_def)
  have m: "unat (min_match s) \<le> unat (match_fwd t)" "unat (input_position s) + unat (match_fwd t) \<le> length (next_in s)"
    "used_before t (unat (input_position s) + 1) (unat (input_position s) + unat (match_fwd t) + 1)"
    using e f0 by (auto simp: extended_def)
  have "4 \<le> unat (min_match s)" using b'(1) by (simp add: searching_def)
  then show ?thesis
    using e m fr n b' room_frame [OF fr, of v]
    by (intro handle_lazy_ok fr0) (auto simp: extended_def sm intro: small_ok_mono)
qed

lemma sm_large_ok:
  assumes b: "at_body file v s"
  shows "stepped file s (sm_large v s)"
proof (cases "DO_LARGE s \<and> input_position s + large_look (smatcher s) \<le> avail_in s")
  case False
  then have "sm_large v s = (Sm_next, v, s)" by (simp only: sm_large_def if_False)
  then show ?thesis using b by (simp add: stepped_def)
next
  case True
  then obtain x where x: "src s = Some x" by (auto simp: DO_LARGE_def)
  have s: "searching file s" "settled s" using b by (simp_all add: at_body_def)
  define mv where "mv = (if input_position s \<ge> v_next_move_point v
              then case xd3_srcwin_move_point s of
                     (ret, s, nmp) \<Rightarrow> (ret, if ret = XD3_OK then v\<lparr>v_next_move_point := nmp\<rparr> else v, s)
              else (XD3_OK, v, s))"
  obtain ret v1 s1 where mv1: "mv = (ret, v1, s1)" by (cases mv)
  have p1: "indexed file s s1" "room s1 v1 = room s1 v"
  proof -
    obtain r t nmp where m: "xd3_srcwin_move_point s = (r, t, nmp)" by (cases "xd3_srcwin_move_point s")
    from move_point_ok [OF s(1) x m] show "indexed file s s1" "room s1 v1 = room s1 v"
      using mv1 m indexed_refl [OF s(1)] by (auto simp: mv_def room_def split: if_splits)
  qed
  have pa: "paused file s s1" "settled s1" using p1(1) s(2) by (simp_all add: indexed_def settled_def)
  have b1: "at_body file v1 s1" using paused_body [OF b pa] p1(2) by (simp add: at_body_def)
  have fr: "search_frame s s1" "input_position s1 = input_position s" using pa(1) by (simp_all add: paused_def)
  then obtain y where y: "src s1 = Some y" using x by (auto simp: search_frame_def)
  have s1: "searching file s1" using b1 by (simp add: at_body_def)
  have next1: "stepped file s (Sm_next, v1, s1)" using b1 fr by (simp add: stepped_def)
  have eq: "sm_large v s =
     (if ret \<noteq> XD3_OK then (Sm_return ret, v1, s1)
      else
        case table_get (large_table s1) (xd3_checksum_hash (large_hash s1) (v_lcksum v1)) of
          None \<Rightarrow> (Sm_return C_UNDEFINED, v1, s1)
        | Some e \<Rightarrow>
            if e = 0 then (Sm_next, v1, s1)
            else
              (case xd3_source_match_setup s1 y (e - 1) of
                 (good, s) \<Rightarrow>
                   if good then
                     case xd3_source_extend_match s of
                       (ret, s) \<Rightarrow>
                         if ret \<noteq> XD3_OK then (Sm_return ret, v1, s)
                         else if match_fwd s > 0 then HANDLELAZY (match_fwd s) v1 s
                         else (Sm_next, v1, s)
                   else (Sm_next, v1, s)))"
    using True unfolding sm_large_def mv_def [symmetric] by (simp add: mv1 y cong: option.case_cong if_cong)
  show ?thesis
  proof (cases "ret = XD3_OK")
    case False
    then show ?thesis using eq paused_returned [OF b pa(1)] x by (simp add: stepped_def)
  next
    case ok: True
    show ?thesis
    proof (cases "table_get (large_table s1) (xd3_checksum_hash (large_hash s1) (v_lcksum v1))")
      case None
      then show ?thesis using eq ok paused_returned [OF b pa(1)] x by (simp add: stepped_def)
    next
      case (Some e)
      show ?thesis
      proof (cases "e = 0")
        case True
        then show ?thesis using eq ok Some next1 by simp
      next
        case False
        obtain good s2 where su: "xd3_source_match_setup s1 y (e - 1) = (good, s2)" by fastforce
        note g2 = match_setup_ok [OF s1 su]
        have pa2: "paused file s s2" using g2 paused_trans [OF pa(1)] by blast
        have fr2: "search_frame s s2" "input_position s2 = input_position s" using pa2 by (simp_all add: paused_def)
        show ?thesis
        proof (cases good)
          case False
          then have "at_body file v1 s2" using paused_body [OF b1] g2 by blast
          then show ?thesis using eq ok Some \<open>e \<noteq> 0\<close> su False fr2 by (simp add: stepped_def)
        next
          case good: True
          obtain q s3 where ex: "xd3_source_extend_match s2 = (q, s3)" by fastforce
          have s2: "searching file s2" "match_progress file s2" "src s2 = Some y" using g2 y by (simp_all add: paused_def)
          have u2: "used_before s2 (unat (input_position s2)) (unat (input_position s2) + unat (min_match s2))"
            using b1 g2 by (simp add: at_body_def paused_def used_before_def)
          note g3 = extend_match_ok [OF s2(1,2) u2 s2(3) ex]
          have eq2: "sm_large v s = (if q \<noteq> XD3_OK then (Sm_return q, v1, s3)
              else if match_fwd s3 > 0 then HANDLELAZY (match_fwd s3) v1 s3 else (Sm_next, v1, s3))"
            using eq ok Some \<open>e \<noteq> 0\<close> su good ex by simp
          have sm2: "small_ok r s2 = small_ok r s1" for r
            by (rule small_ok_frame) (use g2 in \<open>simp_all add: paused_def\<close>)
          have r2: "room s2 v1" using b1 g2 room_frame [of s1 s2 v1] by (simp add: at_body_def paused_def)
          show ?thesis
          proof (cases "q = XD3_OK")
            case False
            have "q = ENOMEM \<or> paused file s s3" using False g3 paused_trans [OF pa2] by blast
            then show ?thesis
              using paused_returned [OF b _ False, of s3] eq2 False x by (auto simp: stepped_def returned_def)
          next
            case True
            then have e3: "extended file s2 s3" using g3 by simp
            have fr3: "search_frame s2 s3" "input_position s3 = input_position s2" using e3 by (simp_all add: extended_def)
            have sm3: "small_ok r s3 = small_ok r s2" for r
              by (rule small_ok_frame [OF fr3(1)]) (use e3 in \<open>simp_all add: extended_def\<close>)
            show ?thesis
            proof (cases "match_fwd s3 > 0")
              case False
              then have f0: "match_fwd s3 = 0" by (simp add: word_gt_0)
              have "4 \<le> unat (min_match s2)" using s2(1) by (simp add: searching_def)
              then have "used_before s3 (unat (input_position s2)) (unat (input_position s2) + unat (min_match s2))"
                using e3 f0 by (auto simp: extended_def)
              moreover have "small_ok (unat (input_position s3)) s3" using b1 sm2 sm3 fr fr2 fr3 by (simp add: at_body_def)
              moreover have "room s3 v1" using r2 room_frame [OF fr3, of v1] by simp
              ultimately have "at_body file v1 s3" using e3 by (simp add: at_body_def extended_def)
              moreover have "search_frame s s3" by (rule search_frame_trans [OF fr2(1) fr3(1)])
              moreover have "sm_large v s = (Sm_next, v1, s3)" using eq2 True False by simp
              ultimately show ?thesis using fr2(2) fr3(2) by (simp add: stepped_def)
            next
              case pos: True
              have "small_ok (unat (input_position s2)) s2" using b1 sm2 fr fr2 by (simp add: at_body_def)
              then have "stepped file s (HANDLELAZY (match_fwd s3) v1 s3)"
                using extended_lazy [OF s2(1) r2 _ pa2 e3 pos] by blast
              then show ?thesis using eq2 True pos by simp
            qed
          qed
        qed
      qed
    qed
  qed
qed

lemma returned_trans: "search_frame s t \<Longrightarrow> returned file t ret u \<Longrightarrow> returned file s ret u"
  by (auto simp: returned_def search_frame_def)

lemma stepped_trans:
  "search_frame s t \<Longrightarrow> input_position t = input_position s \<Longrightarrow> stepped file t r \<Longrightarrow> stepped file s r"
  by (cases r) (auto simp: stepped_def split: sm_jump.splits elim: search_frame_trans returned_trans)

lemma sm_body_ok:
  assumes b: "at_body file v s"
  shows "stepped file s (sm_body v s) \<and> fst (sm_body v s) \<noteq> Sm_next"
proof -
  obtain j1 v1 s1 where r1: "sm_run v s = (j1, v1, s1)" by (cases "sm_run v s")
  have st1: "stepped file s (j1, v1, s1)" using sm_run_ok [OF b] r1 by simp
  show ?thesis
  proof (cases "j1 = Sm_next")
    case False
    then show ?thesis using st1 by (simp add: sm_body_def sm_then_def r1)
  next
    case True
    have b1: "at_body file v1 s1" "search_frame s s1" "input_position s1 = input_position s"
      using st1 True by (simp_all add: stepped_def)
    obtain j2 v2 s2 where r2: "sm_large v1 s1 = (j2, v2, s2)" by (cases "sm_large v1 s1")
    have st2: "stepped file s1 (j2, v2, s2)" using sm_large_ok [OF b1(1)] r2 by simp
    show ?thesis
    proof (cases "j2 = Sm_next")
      case False
      then show ?thesis using stepped_trans [OF b1(2,3) st2] True by (simp add: sm_body_def sm_then_def r1 r2)
    next
      case next2: True
      have b2: "at_body file v2 s2" "search_frame s1 s2" "input_position s2 = input_position s1"
        using st2 next2 by (simp_all add: stepped_def)
      have fr2: "search_frame s s2" "input_position s2 = input_position s" using b1 b2 search_frame_trans by auto
      obtain j3 v3 s3 where r3: "sm_small v2 s2 = (j3, v3, s3)" by (cases "sm_small v2 s2")
      note g3 = sm_small_ok [OF b2(1) r3]
      show ?thesis
      proof (cases "j3 = Sm_next")
        case False
        then show ?thesis using stepped_trans [OF fr2, where r = "(j3, v3, s3)"] g3 True next2
          by (simp add: sm_body_def sm_then_def r1 r2 r3)
      next
        case next3: True
        then have b3: "at_end file v3 s3" "search_frame s2 s3" "input_position s3 = input_position s2" using g3 by simp_all
        define s4 where "s4 = (if min_match s3 > 4 then s3\<lparr>min_match := min_match s3 - 1\<rparr> else s3)"
        have b4: "at_update file v3 s4" "search_frame s3 s4" "input_position s4 = input_position s3"
          unfolding s4_def using sm_end_ok [OF b3(1)] by blast+
        have "sm_body v s = (Sm_updateone, v3, s4)"
          using True next2 next3 by (simp add: sm_body_def sm_then_def r1 r2 r3 s4_def)
        moreover have "search_frame s s4" using fr2(1) b3(2) b4(2) search_frame_trans by blast
        ultimately show ?thesis using b4 b3(3) fr2(2) by (simp add: stepped_def)
      qed
    qed
  qed
qed

lemma sm_update_ok:
  assumes b: "at_update file v s" and r: "sm_update v s = (j, v', t)"
  shows "(j = Sm_next \<and> at_body file v' t \<and> search_frame s t \<and> unat (input_position t) = unat (input_position s) + 1) \<or>
    (j = Sm_return XD3_OK \<and> returned file s XD3_OK t)"
proof -
  let ?p = "unat (input_position s)" and ?look = "unat (small_look (smatcher s))"
  have s: "searching file s" "settled s" "room s v" "small_ok (?p + 1) s" "used_before s (?p + 1) (?p + unat (min_match s) + 1)"
    using b by (simp_all add: at_update_def)
  have n: "unat (avail_in s) = length (next_in s)" "length (next_in s) < 2 ^ 62"
    using searching_position [OF s(1)] s(1) by (simp_all add: searching_def)
  have look: "?p + ?look \<le> length (next_in s)" "4 \<le> ?look" using s(3) by (simp_all add: room_def look_ok_def)
  have sum: "unat (input_position s + small_look (smatcher s)) = ?p + ?look"
    using look n by (intro unat_plus_64) simp
  show ?thesis
  proof (cases "input_position s + small_look (smatcher s) = avail_in s")
    case True
    then show ?thesis using r s(1,2) small_tables_fit [OF s(4)] by (auto simp: sm_update_def returned_def)
  next
    case False
    then have lt: "?p + ?look < length (next_in s)" using look sum n(1) by (metis nat_less_le word_unat_eq_iff)
    obtain c l where nr: "NEXTRUN (v_run_c v, v_run_l v) (sm_inp s ! ?look) = (c, l)" by fastforce
    have len: "?look < length (sm_inp s)" "4 < length (sm_inp s)" using lt look by (auto simp: sm_inp_def)
    have t: "t = s\<lparr>input_position := input_position s + 1\<rparr>" "v_run_c v' = c" "v_run_l v' = l" "j = Sm_next"
      using r False len nr by (auto simp: sm_update_def Let_def)
    have p1: "unat (input_position s + 1) = ?p + 1" using lt n by (subst unat_plus_64) simp_all
    have "sm_inp s = sm_inp s ! 0 # sm_inp t"
      using len by (simp add: t(1) sm_inp_def p1 Cons_nth_drop_Suc)
    then have cons: "take ?look (sm_inp s) @ [sm_inp s ! ?look] = sm_inp s ! 0 # take ?look (sm_inp t)"
      using len(1) by (metis take_Suc_Cons take_Suc_conv_app_nth)
    have "run_tail (take ?look (sm_inp s) @ [sm_inp s ! ?look]) c (unat l)"
      using run_tail_next [OF _ nr] s(3) by (simp add: room_def)
    then have rt: "run_tail (take ?look (sm_inp t)) c (unat l)" unfolding cons by (rule run_tail_tl)
    have "searching file t"
      using s(1,2) lt p1 n
      by (auto simp: t(1) settled_def searching_def found_ok_def src_true_def avail_in_def word_le_nat_alt)
    moreover have "room t v'" using s(3) rt t lt p1 by (simp add: room_def look_ok_def)
    moreover have "small_ok (unat (input_position t)) t" using s(4) p1 by (simp add: t(1) small_ok_def DO_SMALL_def)
    moreover have "used_before t (unat (input_position t)) (unat (input_position t) + unat (min_match t))"
      using s(5) p1 by (simp add: t(1) used_before_def add.commute add.left_commute)
    ultimately show ?thesis using t(4) s(2) p1 by (simp add: at_body_def t(1) settled_def)
  qed
qed

lemma last_matched_nat:
  assumes "searching file s"
  shows "unat (xd3_iopt_last_matched s) = (if iopt_used s = [] then 0 else fin (last (iopt_used s)))"
    "unat (xd3_iopt_last_matched s) \<le> length (next_in s)"
proof -
  have "unat (ri_pos r + ri_size r) = fin r \<and> fin r \<le> length (next_in s)" if "r \<in> set (iopt_used s)" for r
  proof -
    have f: "fin r \<le> length (next_in s)" "length (next_in s) < 2 ^ 62"
      using assms that by (auto simp: searching_def found_ok_def match_ok_def in_target_def)
    then show ?thesis using unat_plus_64 [of "ri_pos r" "ri_size r"] by (simp add: fin_def posn_def len_def)
  qed
  then show "unat (xd3_iopt_last_matched s) = (if iopt_used s = [] then 0 else fin (last (iopt_used s)))"
    "unat (xd3_iopt_last_matched s) \<le> length (next_in s)"
    by (auto simp: xd3_iopt_last_matched_def)
qed

lemma sm_restart_ok:
  assumes b: "at_restart file s" and r: "sm_restart v s = (j, v', t)"
  shows "(j = Sm_next \<and> at_body file v' t \<and> search_frame s t \<and> input_position t = input_position s) \<or>
    (\<exists>ret. j = Sm_return ret \<and> returned file s ret t)"
proof -
  let ?p = "unat (input_position s)" and ?look = "unat (small_look (smatcher s))"
  have s: "searching file s" "settled s" "look_ok s" "small_ok ?p s" "used_before s ?p (2 ^ 64)"
    using b by (simp_all add: at_restart_def)
  have n: "?p \<le> length (next_in s)" "unat (avail_in s) = length (next_in s)" "length (next_in s) < 2 ^ 62"
    using searching_position [OF s(1)] s(1) by (simp_all add: searching_def)
  have look: "4 \<le> ?look" "?look < 2 ^ 31" using s(3) by (simp_all add: look_ok_def)
  have sum: "unat (input_position s + small_look (smatcher s)) = ?p + ?look"
    using look n by (intro unat_plus_64) simp
  show ?thesis
  proof (cases "input_position s + small_look (smatcher s) > avail_in s")
    case True
    then show ?thesis using r s(1,2) small_tables_fit [OF s(4)] by (auto simp: sm_restart_def returned_def)
  next
    case False
    then have le: "?p + ?look \<le> length (next_in s)" using sum n by (simp add: not_less word_le_nat_alt)
    define lastm where "lastm = xd3_iopt_last_matched s"
    define mm where "mm = (if lastm > input_position s then max 4 (1 + lastm - input_position s) else 4)"
    define s1 where "s1 = s\<lparr>min_match := mm\<rparr>"
    obtain l c where cr: "xd3_comprun (sm_inp s) (small_look (smatcher s)) = (l, c)" by fastforce
    define v1 where "v1 = (if DO_SMALL s then v\<lparr>v_scksum := snd (xd3_scksum (sm_inp s) (small_look (smatcher s)))\<rparr> else v)"
    define v2 where "v2 = v1\<lparr>v_run_c := c, v_run_l := l\<rparr>"
    have lm: "unat lastm = (if iopt_used s = [] then 0 else fin (last (iopt_used s)))" "unat lastm \<le> length (next_in s)"
      using last_matched_nat [OF s(1)] by (simp_all add: lastm_def)
    have gap: "unat (1 + lastm - input_position s) = 1 + unat lastm - ?p" if "lastm > input_position s"
    proof -
      have u: "unat (1 + lastm) = 1 + unat lastm" using lm n unat_plus_64 [of 1 lastm] by simp
      then show ?thesis using that by (simp add: unat_sub word_le_nat_alt word_less_nat_alt)
    qed
    have mm: "4 \<le> unat mm" "unat lastm < ?p + unat mm" "unat mm < 2 ^ 63"
      using gap lm n by (auto simp: mm_def max_def word_le_nat_alt word_less_nat_alt not_less)
    have "searching file s1"
      using s(1,2) mm by (auto simp: s1_def settled_def searching_def found_ok_def src_true_def avail_in_def)
    moreover have "used_before s1 ?p (?p + unat mm)" using s(5) mm lm by (auto simp: s1_def used_before_def)
    moreover have "room s1 v2"
      using s(3) le run_tail_comprun [OF cr] by (simp add: s1_def room_def look_ok_def sm_inp_def v2_def)
    moreover have "small_ok ?p s1" using s(4) by (simp add: s1_def small_ok_def DO_SMALL_def)
    ultimately have b1: "at_body file v2 s1" using s(2) by (simp add: at_body_def s1_def settled_def)
    have fr1: "search_frame s s1" "input_position s1 = input_position s" by (simp_all add: s1_def)
    have len: "\<not> (length (sm_inp s) < ?look \<or> length (sm_inp s) < 4)"
      using le look unfolding sm_inp_def length_drop by linarith
    have inp1: "sm_inp s1 = sm_inp s" "DO_SMALL s1 = DO_SMALL s" by (simp_all add: s1_def sm_inp_def DO_SMALL_def)
    have eq: "sm_restart v s =
       (if DO_LARGE s1 \<and> input_position s1 + large_look (smatcher s) \<le> avail_in s1 then
          (case xd3_srcwin_move_point s1 of
             (ret, s', nmp) \<Rightarrow>
               if ret \<noteq> XD3_OK then (Sm_return ret, v2, s')
               else (Sm_next, v2\<lparr>v_lcksum := xd3_large64_cksum (large_hash s') (sm_inp s') (large_look (smatcher s)),
                                v_next_move_point := nmp\<rparr>, s'))
        else (Sm_next, v2, s1))"
      using False len unfolding sm_restart_def Let_def lastm_def [symmetric] mm_def [symmetric] s1_def [symmetric]
        inp1 cr prod.case v1_def [symmetric] v2_def [symmetric]
      by simp
    show ?thesis
    proof (cases "DO_LARGE s1 \<and> input_position s1 + large_look (smatcher s) \<le> avail_in s1")
      case False
      then show ?thesis using r eq b1 fr1 by auto
    next
      case True
      then obtain x where x: "src s1 = Some x" by (auto simp: DO_LARGE_def)
      obtain ret s2 nmp where m: "xd3_srcwin_move_point s1 = (ret, s2, nmp)" by (cases "xd3_srcwin_move_point s1")
      have i: "indexed file s1 s2" by (rule move_point_ok [OF _ x m]) (use b1 in \<open>simp add: at_body_def\<close>)
      have pa: "paused file s1 s2" "settled s2" using i s(2) by (simp_all add: indexed_def settled_def s1_def)
      have fr2: "search_frame s s2" "input_position s2 = input_position s"
        using pa(1) fr1 search_frame_trans by (auto simp: paused_def)
      show ?thesis
      proof (cases "ret = XD3_OK")
        case False
        then have "returned file s ret s2"
          using paused_returned [OF b1 pa(1) False] x by (auto intro: returned_trans [OF fr1(1)])
        then show ?thesis using r eq True m False by auto
      next
        case ok: True
        have "at_body file (v2\<lparr>v_lcksum := a, v_next_move_point := nmp\<rparr>) s2" for a
          using paused_body [OF b1 pa] by (simp add: at_body_def room_def)
        then show ?thesis using r eq True m ok fr2 by auto
      qed
    qed
  qed
qed

text \<open>The loop ends: every round moves the input position on.\<close>

lemma sm_loop_ok:
  assumes "at_body file v s"
  shows "\<exists>ret t. sm_loop v s = Some (ret, t) \<and> returned file s ret t"
  using assms
proof (induction "length (next_in s) - unat (input_position s)" arbitrary: v s rule: less_induct)
  case less
  have n: "unat (input_position s) + unat (small_look (smatcher s)) \<le> length (next_in s)" "4 \<le> unat (small_look (smatcher s))"
    using less.prems by (simp_all add: at_body_def room_def look_ok_def)
  obtain j v1 s1 where b: "sm_body v s = (j, v1, s1)" by (cases "sm_body v s")
  have st: "stepped file s (j, v1, s1)" "j \<noteq> Sm_next" using sm_body_ok [OF less.prems] b by simp_all
  define nx where "nx = (case j of Sm_return ret \<Rightarrow> (j, v1, s1) | Sm_restart \<Rightarrow> sm_restart v1 s1 | _ \<Rightarrow> sm_update v1 s1)"
  obtain j2 v2 s2 where nx: "nx = (j2, v2, s2)" by (cases nx)
  have loop: "sm_loop v s = (case j2 of Sm_return ret \<Rightarrow> Some (ret, s2) | _ \<Rightarrow> sm_loop v2 s2)"
    by (subst sm_loop.simps) (simp add: b nx_def [symmetric] nx)
  have "(j2 = Sm_next \<and> at_body file v2 s2 \<and> search_frame s s2 \<and> unat (input_position s) < unat (input_position s2)) \<or>
      (\<exists>ret. j2 = Sm_return ret \<and> returned file s ret s2)"
  proof (cases j)
    case Sm_next
    then show ?thesis using st by simp
  next
    case Sm_updateone
    then have u: "at_update file v1 s1" "search_frame s s1" "input_position s1 = input_position s" using st by (simp_all add: stepped_def)
    have "sm_update v1 s1 = (j2, v2, s2)" using nx Sm_updateone by (simp add: nx_def)
    from sm_update_ok [OF u(1) this] show ?thesis
      using u(2,3) by (auto elim: search_frame_trans returned_trans)
  next
    case Sm_restart
    then have u: "at_restart file s1" "search_frame s s1" "input_position s < input_position s1" using st by (simp_all add: stepped_def)
    have "sm_restart v1 s1 = (j2, v2, s2)" using nx Sm_restart by (simp add: nx_def)
    from sm_restart_ok [OF u(1) this] show ?thesis
      using u(2,3) by (auto simp: word_less_nat_alt elim: search_frame_trans returned_trans)
  next
    case (Sm_return ret)
    then show ?thesis using st nx by (auto simp: nx_def stepped_def)
  qed
  then show ?case
  proof
    assume m: "j2 = Sm_next \<and> at_body file v2 s2 \<and> search_frame s s2 \<and> unat (input_position s) < unat (input_position s2)"
    then have "length (next_in s2) - unat (input_position s2) < length (next_in s) - unat (input_position s)"
      using n by (auto simp: search_frame_def)
    then obtain ret u where "sm_loop v2 s2 = Some (ret, u)" "returned file s2 ret u" using less.hyps m by blast
    then show ?thesis using loop m returned_trans by auto
  qed (use loop in auto)
qed

section \<open>The string matcher\<close>

text \<open>What it starts from: a new window, or one that was left for want of a source block.\<close>

definition tables_ok :: "xd3_encoder \<Rightarrow> bool" where
  "tables_ok s \<longleftrightarrow> (DO_SMALL s \<longrightarrow> hash_ok (small_hash s) \<and> sprevsz s \<noteq> 0 \<and> sprevmask s = sprevsz s - 1 \<and>
     (small_table s = None \<longrightarrow> small_prev s = None \<and> small_chain (smatcher s) \<noteq> 0 \<and> small_lchain (smatcher s) \<noteq> 0) \<and>
     (\<forall>t. small_table s = Some t \<longrightarrow> length t = unat (hc_size (small_hash s)) \<and>
       (small_reset s \<or> (\<forall>e \<in> set t. unat e \<le> unat (input_position s))) \<and>
       (small_prev s = None \<longrightarrow> small_chain (smatcher s) = 1 \<and> small_lchain (smatcher s) = 1) \<and>
       (\<forall>p. small_prev s = Some p \<longrightarrow> length p = unat (sprevsz s))))"

definition search_ready :: "uint8 list \<Rightarrow> xd3_encoder \<Rightarrow> bool" where
  "search_ready file s \<longleftrightarrow> searching file s \<and> settled s \<and> look_ok s \<and> tables_ok s \<and>
     used_before s (unat (input_position s)) (2 ^ 64)"

lemma tables_ok_fit: "tables_ok s \<Longrightarrow> tables_fit s"
  by (auto simp: tables_ok_def tables_fit_def)

lemma small_tables: "small_ok (unat (input_position s)) s \<Longrightarrow> tables_ok s"
  by (auto simp: small_ok_def tables_ok_def)

text \<open>What the allocation of the tables keeps.\<close>

definition init_keep :: "uint8 list \<Rightarrow> xd3_encoder \<Rightarrow> xd3_encoder \<Rightarrow> bool" where
  "init_keep file s t \<longleftrightarrow> searching file t \<and> search_frame s t \<and> match_state t = match_state s \<and>
     input_position t = input_position s \<and> iopt_used t = iopt_used s"

lemma init_keep_simps [simp]:
  "init_keep file s (t\<lparr>large_table := l\<rparr>) = init_keep file s t" "init_keep file s (t\<lparr>small_table := l\<rparr>) = init_keep file s t"
  "init_keep file s (t\<lparr>small_prev := l\<rparr>) = init_keep file s t" "init_keep file s (t\<lparr>small_reset := q\<rparr>) = init_keep file s t"
  "init_keep file s (t\<lparr>alloc_cnt := n\<rparr>) = init_keep file s t"
  by (simp_all add: init_keep_def)

lemma alloc_result:
  "xd3_alloc s = (b, t) \<Longrightarrow> (b \<longrightarrow> t = s\<lparr>alloc_cnt := alloc_cnt s + 1\<rparr>) \<and> (\<not> b \<longrightarrow> (\<exists>n. \<not> alloc s n))"
  by (auto simp: xd3_alloc_def Let_def split: if_splits)

lemma init_keep_restart:
  assumes "search_ready file s" and "init_keep file s t" and "small_ok (unat (input_position t)) t"
  shows "at_restart file t \<and> search_frame s t \<and> input_position t = input_position s"
  using assms look_frame [of s t] by (simp add: search_ready_def init_keep_def at_restart_def settled_def used_before_def)

lemma large_table_ok:
  assumes s: "searching file s"
    and r: "(if src s \<noteq> None \<and> large_table s = None then
        case xd3_alloc s of
          (False, s) \<Rightarrow> (ENOMEM, s)
        | (True, s) \<Rightarrow> (XD3_OK, s\<lparr>large_table := Some (replicate (unat (hc_size (large_hash s))) 0)\<rparr>)
      else (XD3_OK, s)) = (q, t)"
  shows "ret_ok (alloc s) q \<and> (q = XD3_OK \<longrightarrow> init_keep file s t \<and> small_table t = small_table s \<and> small_prev t = small_prev s \<and>
    small_reset t = small_reset s)"
proof (cases "src s \<noteq> None \<and> large_table s = None")
  case False
  then show ?thesis using r s by (auto simp: init_keep_def)
next
  case True
  obtain b u where u: "xd3_alloc s = (b, u)" by fastforce
  show ?thesis
  proof (cases b)
    case b: True
    then have e: "u = s\<lparr>alloc_cnt := alloc_cnt s + 1\<rparr>" using alloc_result [OF u] by simp
    have "init_keep file s u" using s by (simp add: e init_keep_def)
    then show ?thesis using r True u b by (auto simp: e)
  next
    case False
    then show ?thesis using r True u alloc_result [OF u] by (auto simp: ret_ok_def)
  qed
qed

lemma small_ok_fresh:
  assumes "tables_ok s" and "search_frame s t" and "small_table t = Some (replicate (unat (hc_size (small_hash s))) 0)"
    and "small_prev t = None \<longrightarrow> small_chain (smatcher s) = 1 \<and> small_lchain (smatcher s) = 1"
    and "\<forall>p. small_prev t = Some p \<longrightarrow> length p = unat (sprevsz s)"
  shows "small_ok q t"
  using assms by (auto simp: small_ok_def tables_ok_def search_frame_def DO_SMALL_def)

lemma word_at_most_1: "\<not> (1 :: 64 word) < w \<Longrightarrow> w \<noteq> 0 \<Longrightarrow> w = 1"
proof -
  assume "\<not> 1 < w" "w \<noteq> 0"
  then have "unat w = 1" using unat_gt_0 [of w] by (simp add: word_less_nat_alt not_less)
  then show "w = 1" by (metis unat_1 word_unat_eq_iff)
qed

lemma init_ok:
  assumes rd: "search_ready file s" and t: "xd3_string_match_init s = (ret, t)"
  shows "ret_ok (alloc s) ret \<and> (ret = XD3_OK \<longrightarrow> at_restart file t \<and> search_frame s t \<and> input_position t = input_position s)"
proof -
  have s: "searching file s" "tables_ok s" using rd by (simp_all add: search_ready_def)
  define r1 where "r1 = (if src s \<noteq> None \<and> large_table s = None then
          case xd3_alloc s of
            (False, s) \<Rightarrow> (ENOMEM, s)
          | (True, s) \<Rightarrow> (XD3_OK, s\<lparr>large_table := Some (replicate (unat (hc_size (large_hash s))) 0)\<rparr>)
        else (XD3_OK, s))"
  obtain q z where q: "r1 = (q, z)" by (cases r1)
  note lt = large_table_ok [OF s(1) q [unfolded r1_def]]
  show ?thesis
  proof (cases "q = XD3_OK")
    case False
    then have "ret = q" using t unfolding xd3_string_match_init_def r1_def [symmetric] q by (simp add: xd3_try_fail)
    then show ?thesis using False lt by simp
  next
    case True
    then have z: "init_keep file s z" "small_table z = small_table s" "small_prev z = small_prev s" "small_reset z = small_reset s"
      using lt by simp_all
    have fr: "search_frame s z" using z(1) by (simp add: init_keep_def)
    then have frz: "alloc z = alloc s" "small_hash z = small_hash s" "smatcher z = smatcher s" "sprevsz z = sprevsz s"
      "DO_SMALL z = DO_SMALL s" "input_position z = input_position s"
      using z(1) by (simp_all add: search_frame_def DO_SMALL_def init_keep_def)
    have eq: "(ret, t) = (if \<not> DO_SMALL z then (XD3_OK, z)
          else if small_table z \<noteq> None then
            if small_reset z then
              (XD3_OK, z\<lparr>small_table := Some (replicate (unat (hc_size (small_hash z))) 0), small_reset := False\<rparr>)
            else (XD3_OK, z)
          else
            case xd3_alloc z of
              (False, s) \<Rightarrow> (ENOMEM, s)
            | (True, s) \<Rightarrow>
                let s = s\<lparr>small_table := Some (replicate (unat (hc_size (small_hash s))) 0)\<rparr> in
                if small_lchain (smatcher s) > 1 \<or> small_chain (smatcher s) > 1 then
                  case xd3_alloc s of
                    (False, s) \<Rightarrow> (ENOMEM, s)
                  | (True, s) \<Rightarrow> (XD3_OK, s\<lparr>small_prev := Some (replicate (unat (sprevsz s)) 0)\<rparr>)
                else (XD3_OK, s))"
      using t True unfolding xd3_string_match_init_def r1_def [symmetric] q by (simp add: DO_SMALL_def)
    note fin = init_keep_restart [OF rd]
    show ?thesis
    proof (cases "DO_SMALL z \<and> small_table z = None")
      case False
      show ?thesis
      proof (cases "DO_SMALL z \<and> small_reset z")
        case reset: True
        define u where "u = z\<lparr>small_table := Some (replicate (unat (hc_size (small_hash z))) 0), small_reset := False\<rparr>"
        have e: "ret = XD3_OK" "t = u" using eq False reset by (simp_all add: u_def)
        have "small_ok (unat (input_position u)) u"
          by (rule small_ok_fresh [OF s(2)]) (use fr frz z s(2) False reset in \<open>auto simp: u_def tables_ok_def\<close>)
        then show ?thesis using fin [of u] z(1) by (simp add: e u_def)
      next
        case keep: False
        then have e: "ret = XD3_OK" "t = z" using eq False by (auto split: if_splits)
        have "small_ok (unat (input_position z)) z"
          using s(2) False keep z frz fr by (auto simp: small_ok_def tables_ok_def search_frame_def)
        then show ?thesis using fin [of z] z(1) by (simp add: e)
      qed
    next
      case none: True
      have small: "small_prev s = None" "small_chain (smatcher s) \<noteq> 0" "small_lchain (smatcher s) \<noteq> 0"
        using none s(2) frz z by (simp_all add: tables_ok_def)
      obtain b u where u: "xd3_alloc z = (b, u)" by fastforce
      show ?thesis
      proof (cases b)
        case False
        then show ?thesis using eq none u alloc_result [OF u] frz by (auto simp: ret_ok_def)
      next
        case b: True
        define z1 where "z1 = z\<lparr>alloc_cnt := alloc_cnt z + 1, small_table := Some (replicate (unat (hc_size (small_hash z))) 0)\<rparr>"
        have u1: "u = z\<lparr>alloc_cnt := alloc_cnt z + 1\<rparr>" using alloc_result [OF u] b by simp
        have eq1: "(ret, t) = (if small_lchain (smatcher s) > 1 \<or> small_chain (smatcher s) > 1 then
                  case xd3_alloc z1 of
                    (False, s) \<Rightarrow> (ENOMEM, s)
                  | (True, s) \<Rightarrow> (XD3_OK, s\<lparr>small_prev := Some (replicate (unat (sprevsz s)) 0)\<rparr>)
                else (XD3_OK, z1))"
          using eq none u b frz by (simp add: z1_def u1 Let_def)
        have k1: "init_keep file s z1" using z(1) by (simp add: z1_def)
        show ?thesis
        proof (cases "small_lchain (smatcher s) > 1 \<or> small_chain (smatcher s) > 1")
          case False
          then have one: "small_chain (smatcher s) = 1" "small_lchain (smatcher s) = 1"
            using small word_at_most_1 by auto
          have e: "ret = XD3_OK" "t = z1" using eq1 False by simp_all
          have "small_ok (unat (input_position z1)) z1"
            by (rule small_ok_fresh [OF s(2)]) (use fr frz z small one in \<open>simp_all add: z1_def\<close>)
          then show ?thesis using fin [OF k1] by (simp add: e)
        next
          case True
          obtain c w where w: "xd3_alloc z1 = (c, w)" by fastforce
          show ?thesis
          proof (cases c)
            case False
            then show ?thesis using eq1 True w alloc_result [OF w] frz by (auto simp: ret_ok_def z1_def)
          next
            case c: True
            define z2 where "z2 = z1\<lparr>alloc_cnt := alloc_cnt z1 + 1, small_prev := Some (replicate (unat (sprevsz z1)) 0)\<rparr>"
            have e: "ret = XD3_OK" "t = z2" using eq1 True w c alloc_result [OF w] by (simp_all add: z2_def)
            have k2: "init_keep file s z2" using k1 by (simp add: z2_def)
            have "small_ok (unat (input_position z2)) z2"
              by (rule small_ok_fresh [OF s(2)]) (use fr frz z small in \<open>simp_all add: z2_def z1_def\<close>)
            then show ?thesis using fin [OF k2] by (simp add: e)
          qed
        qed
      qed
    qed
  qed
qed

lemma string_match_ok:
  assumes rd: "search_ready file s" and t: "xd3_string_match s = (ret, t)"
  shows "returned file s ret t"
proof (cases "input_position s + small_look (smatcher s) > avail_in s")
  case True
  then show ?thesis using assms by (simp add: xd3_string_match_def returned_def search_ready_def tables_ok_fit)
next
  case False
  obtain q z where i: "xd3_string_match_init s = (q, z)" by fastforce
  note io = init_ok [OF rd i]
  show ?thesis
  proof (cases "q = XD3_OK")
    case no: False
    then have "ret = q" using t False i by (simp add: xd3_string_match_def xd3_try_fail)
    then show ?thesis using no io by (auto simp: returned_def ret_ok_def)
  next
    case True
    then have z: "at_restart file z" "search_frame s z" using io by simp_all
    define v0 where "v0 = \<lparr>v_scksum = 0, v_lcksum = 0, v_run_c = 0, v_run_l = 0, v_next_move_point = 0\<rparr>"
    obtain j v u where r: "sm_restart v0 z = (j, v, u)" by (cases "sm_restart v0 z")
    have eq: "(ret, t) = (case j of Sm_return ret \<Rightarrow> (ret, u)
        | _ \<Rightarrow> (case sm_loop v u of None \<Rightarrow> (C_DIVERGES, u) | Some r \<Rightarrow> r))"
      using t False i True by (simp add: xd3_string_match_def v0_def [symmetric] r)
    from sm_restart_ok [OF z(1) r] show ?thesis
    proof
      assume b: "j = Sm_next \<and> at_body file v u \<and> search_frame z u \<and> input_position u = input_position z"
      then obtain ret' t' where l: "sm_loop v u = Some (ret', t')" "returned file u ret' t'" using sm_loop_ok by blast
      have "ret' = ret" "t' = t" using eq b l(1) by simp_all
      moreover have "search_frame s u" using z(2) b search_frame_trans by blast
      ultimately show ?thesis using returned_trans l(2) by blast
    next
      assume "\<exists>ret. j = Sm_return ret \<and> returned file z ret u"
      then obtain ret' where l: "j = Sm_return ret'" "returned file z ret' u" by blast
      have "ret' = ret" "u = t" using eq l(1) by simp_all
      then show ?thesis using returned_trans [OF z(2)] l(2) by blast
    qed
  qed
qed

section \<open>The window\<close>

text \<open>The state at \<open>ENC_SEARCH\<close>: at the start of a window, or where the search was left for want of a block.\<close>

definition window_search :: "uint8 list \<Rightarrow> xd3_encoder \<Rightarrow> bool" where
  "window_search file s \<longleftrightarrow> searching file s \<and> look_ok s \<and> tables_ok s \<and>
     used_before s (unat (input_position s)) (unat (input_position s) + unat (min_match s)) \<and>
     (settled s \<or> avail_in s \<noteq> 0 \<and> src s \<noteq> None)"

text \<open>The sections are empty.\<close>

definition sections_start :: "xd3_encoder \<Rightarrow> bool" where
  "sections_start s \<longleftrightarrow> sinks_ok s \<and> (\<forall>k. k \<noteq> HDR \<longrightarrow> sect_bytes k s = []) \<and> code_table s = rfc3284_code_table \<and>
     acache s = cache0 \<and> iout s = Iout_none \<and> (src s = None \<longrightarrow> taroff s = 0)"

text \<open>The sections mean the target, over the part of the source that the fields name.\<close>

definition window_written :: "uint8 list \<Rightarrow> xd3_encoder \<Rightarrow> bool" where
  "window_written file u \<longleftrightarrow>
     (\<exists>a n. a + n \<le> length file \<and>
        (case src u of None \<Rightarrow> n = 0 | Some x \<Rightarrow> unat (srclen x) = n \<and> (n \<noteq> 0 \<longrightarrow> unat (srcbase x) = a)) \<and>
        vcdiff_window (take n (drop a file)) (sect_bytes DATA u) (sect_bytes INST u) (sect_bytes ADDR u) = Some (next_in u))"

text \<open>What is left for the next window.\<close>

definition left_over :: "uint8 list \<Rightarrow> xd3_encoder \<Rightarrow> xd3_encoder \<Rightarrow> bool" where
  "left_over file s u \<longleftrightarrow> hdr_info u = hdr_info s \<and> session_info u = session_info s \<and> sinks_ok u \<and> iopt_used u = [] \<and>
     iout u = Iout_none \<and> settled u \<and> tables_fit u \<and> src_true file u \<and> code_table u = rfc3284_code_table \<and>
     cache_ok (acache u) \<and> s_near (acache u) = 4 \<and> s_same (acache u) = 3"

lemma sections_start_frame: "search_frame s t \<Longrightarrow> sections_start t = sections_start s"
  by (simp add: sections_start_def search_frame_def sinks_ok_def free_ok_def sect_bytes_def)

lemma search_written:
  assumes s: "searching file s" "settled s" "tables_fit s" and b: "sections_start s"
    and t: "xd3_try (xd3_iopt_flush_instructions (s\<lparr>enc_state := ENC_INSTR\<rparr>) True) xd3_iopt_add_finalize = (ret, t)"
  shows "ret_ok (alloc s) ret \<and> (ret = XD3_OK \<longrightarrow> window_written file t \<and> next_in t = next_in s \<and> left_over file s t)"
proof -
  let ?s = "s\<lparr>enc_state := ENC_INSTR\<rparr>" and ?lo = "match_minaddr s" and ?hi = "match_maxaddr s"
  define n where "n = (if match_maxaddr s = 0 then 0 else unat ?hi - unat ?lo)"
  define a where "a = (if match_maxaddr s = 0 then 0 else unat ?lo)"
  define base where "base = (case src s of None \<Rightarrow> 0 | Some x \<Rightarrow> if match_maxaddr s = 0 then srcbase x else ?lo)"
  define seg where "seg = take n (drop a file)"
  have c: "found_ok file s" "?lo \<le> ?hi" "length file < 2 ^ 62" "length (next_in s) < 2 ^ 62" "\<not> srcwin_decided s"
    "src s = None \<longrightarrow> ?hi = 0" "\<forall>x. src s = Some x \<longrightarrow> srclen x = 0" "unencoded_offset s = 0"
    using s(1) by (simp_all add: searching_def src_true_def)
  have an: "a + n \<le> length file" "unat ?hi \<le> length file"
    using c(1,2) by (simp_all add: found_ok_def a_def n_def word_le_nat_alt)
  then have len: "length seg = n" by (simp add: seg_def)
  have begins: "window_begins ?s"
    using b c(7,8) by (simp add: window_begins_def sections_start_def sinks_ok_def free_ok_def sect_bytes_def)
  have win: "win_ok base seg ?s"
  proof (cases "src s")
    case None
    then show ?thesis using c(6) b by (simp add: win_ok_def seg_def n_def sections_start_def)
  next
    case (Some x)
    have "of_nat n = ?hi - ?lo" if "?hi \<noteq> 0"
      using that c(2) by (simp add: n_def unat_sub [symmetric])
    then show ?thesis using Some c(5,7) len by (auto simp: win_ok_def base_def n_def)
  qed
  have room: "length seg + length (next_in ?s) < 2 ^ 64" using len an c(3,4) by simp
  have true: "\<forall>r \<in> set (iopt_used ?s). true_inst base seg (next_in ?s) r"
  proof
    fix r assume "r \<in> set (iopt_used ?s)"
    then have m: "match_ok file (unat ?lo) (unat ?hi) (next_in s) r" using c(1) by (simp add: found_ok_def)
    show "true_inst base seg (next_in ?s) r"
    proof (cases "?hi = 0")
      case True
      then have "\<not> (ri_type r = XD3_CPY \<and> ri_xtra r \<noteq> 0)" using m by (auto simp: match_ok_def in_target_def)
      then show ?thesis using m by (auto simp: match_ok_def true_inst_def agree_def in_target_def)
    next
      case False
      then have "base = ?lo" "seg = take (unat ?hi - unat ?lo) (drop (unat ?lo) file)"
        using c(6) by (auto simp: base_def seg_def n_def a_def split: option.splits)
      then show ?thesis using match_true [OF m an(2)] by simp
    qed
  qed
  have order: "sorted_wrt starts_first (iopt_used ?s)" using c(1) by (simp add: found_ok_def)
  note w = window_encoded [OF begins win room true order, unfolded t prod.case]
  show ?thesis
  proof (intro conjI impI)
    show "ret_ok (alloc s) ret" using w by simp
    assume ok: "ret = XD3_OK"
    then have e: "encodes (kept_info ?s) base seg (next_in s) t"
      "vcdiff_window seg (sect_bytes DATA t) (sect_bytes INST t) (sect_bytes ADDR t) = Some (next_in s)"
      using w by simp_all
    then have et: "win_ok base seg t" "next_in t = next_in s" "undecided_ok t" "kept_info t = kept_info ?s" "sinks_ok t"
        "code_table t = rfc3284_code_table" "cache_ok (acache t)" "s_near (acache t) = 4" "s_same (acache t) = 3"
      by (simp_all add: encodes_def enc_fixed_def)
    have empty: "iopt_used t = []" "iout t = Iout_none" using w ok by simp_all
    show "next_in t = next_in s" by (rule et(2))
    have same: "hdr_info t = hdr_info s" "session_info t = session_info s" "match_state t = match_state s"
      "small_table t = small_table s" "small_prev t = small_prev s"
      "map_option (\<lambda>x. x\<lparr>srclen := 0, srcbase := 0\<rparr>) (src t) = map_option (\<lambda>x. x\<lparr>srclen := 0, srcbase := 0\<rparr>) (src s)"
      using et(4) by (simp_all add: info_defs sect_bytes_def)
    have "holds_file file x = holds_file file (x\<lparr>srclen := 0, srcbase := 0\<rparr>)" for x
      by (simp add: holds_file_def source_ok_def)
    then have "src_true file t"
      using s(1) same by (cases "src t"; cases "src s") (simp_all add: searching_def src_true_def session_info_def, metis+)
    moreover have "tables_fit t" using s(3) same by (simp add: tables_fit_def session_info_def hdr_info_def DO_SMALL_def)
    ultimately show "left_over file s t"
      using s(2) same et empty by (simp add: left_over_def settled_def)
    have val: "vcdiff_window (take n (drop a file)) (sect_bytes DATA t) (sect_bytes INST t) (sect_bytes ADDR t) = Some (next_in t)"
      using e(2) et(2) by (simp only: seg_def)
    show "window_written file t"
    proof (cases "src t")
      case None
      then have "n = 0" using et(1) len by (simp add: win_ok_def)
      then show ?thesis unfolding window_written_def None using an(1) val
        by (intro exI [of _ a] exI [of _ n] conjI) simp_all
    next
      case (Some x)
      show ?thesis
      proof (cases "srcwin_decided t")
        case True
        have "base = srcbase x" "of_nat (length seg) = srclen x" using et(1) Some True by (simp_all add: win_ok_def)
        moreover have "unat (of_nat n :: 64 word) = n" using an c(3) by (intro unat_of_nat_64) simp
        moreover have "base = ?lo \<and> a = unat ?lo" if "n \<noteq> 0"
          using that c(6) by (auto simp: n_def base_def a_def split: option.splits if_splits)
        ultimately have "unat (srclen x) = n" "n \<noteq> 0 \<longrightarrow> unat (srcbase x) = a" using len by auto
        then show ?thesis unfolding window_written_def Some option.case using an(1) val
          by (intro exI [of _ a] exI [of _ n] conjI) simp_all
      next
        case False
        then have z: "srclen x = 0" "sect_bytes ADDR t = []" using et(3) Some by (simp_all add: undecided_ok_def)
        have "vcdiff_window seg (sect_bytes DATA t) (sect_bytes INST t) [] = Some (next_in s)" using e(2) z(2) by simp
        then have "vcdiff_window [] (sect_bytes DATA t) (sect_bytes INST t) [] = Some (next_in s)"
          by (rule vcdiff_window_no_address)
        then show ?thesis unfolding window_written_def Some option.case using z et(2)
          by (intro exI [of _ 0] conjI) simp_all
      qed
    qed
  qed
qed

text \<open>A match under way is continued first.\<close>

lemma tables_keep:
  "tables_ok s \<Longrightarrow> search_frame s t \<Longrightarrow> small_table t = small_table s \<Longrightarrow> small_prev t = small_prev s \<Longrightarrow>
    small_reset t = small_reset s \<Longrightarrow> unat (input_position s) \<le> unat (input_position t) \<Longrightarrow> tables_ok t"
proof -
  assume s: "tables_ok s" and fr: "search_frame s t" and k: "small_table t = small_table s" "small_prev t = small_prev s"
    "small_reset t = small_reset s" "unat (input_position s) \<le> unat (input_position t)"
  have e: "DO_SMALL t = DO_SMALL s" "small_hash t = small_hash s" "sprevsz t = sprevsz s" "sprevmask t = sprevmask s"
    "smatcher t = smatcher s"
    using fr by (simp_all add: search_frame_def DO_SMALL_def)
  have "\<forall>e \<in> set z. unat e \<le> unat (input_position t)" if "\<forall>e \<in> set z. unat e \<le> unat (input_position s)" for z :: "usize_t list"
    using that k(4) by fastforce
  then show "tables_ok t" using s unfolding tables_ok_def e k(1-3) by blast
qed

lemma paused_search:
  assumes s: "window_search file s" and p: "paused file s t" and x: "src s \<noteq> None" and n: "avail_in s \<noteq> 0"
  shows "window_search file t"
proof -
  have fr: "search_frame s t" using p by (simp add: paused_def)
  moreover have "tables_ok t" by (rule tables_keep [of s]) (use s p in \<open>simp_all add: window_search_def paused_def\<close>)
  moreover have "src t \<noteq> None" using fr x by (simp add: search_frame_def)
  moreover have "avail_in t \<noteq> 0" using fr n by (simp add: search_frame_def avail_in_def)
  ultimately show ?thesis
    using s p look_frame [OF fr] by (simp add: window_search_def paused_def used_before_def)
qed

lemma continue_ok:
  assumes s: "window_search file s" and p: "match_progress file s" and x: "src s \<noteq> None" and n: "avail_in s \<noteq> 0"
    and t: "enc_continue s = (ret, t)"
  shows "(ret = XD3_OK \<longrightarrow> search_ready file t \<and> search_frame s t) \<and>
    (ret \<noteq> XD3_OK \<and> ret \<noteq> ENOMEM \<longrightarrow> window_search file t \<and> search_frame s t)"
proof -
  let ?p = "unat (input_position s)"
  have w: "searching file s" "look_ok s" "tables_ok s" "used_before s ?p (?p + unat (min_match s))"
    using s by (simp_all add: window_search_def)
  obtain x where x': "src s = Some x" using x by blast
  obtain q u where e: "xd3_source_extend_match s = (q, u)" by fastforce
  note g = extend_match_ok [OF w(1) p w(4) x' e]
  show ?thesis
  proof (cases "q = XD3_OK")
    case False
    then have "ret = q" "t = u" using t n by (simp_all add: enc_continue_def e xd3_try_fail)
    then show ?thesis using g False paused_search [OF s _ x n] by (auto simp: paused_def)
  next
    case True
    then have u: "extended file s u" using g by simp
    have r: "ret = XD3_OK" "t = u\<lparr>input_position := input_position u + match_fwd u\<rparr>"
      using t n by (simp_all add: enc_continue_def e True)
    have fr: "search_frame s u" "input_position u = input_position s" "settled u" "searching file u"
      using u by (simp_all add: extended_def)
    have nx: "next_in u = next_in s" "length (next_in s) < 2 ^ 62" using fr w(1) by (simp_all add: search_frame_def searching_def)
    have pos: "?p + unat (match_fwd u) \<le> length (next_in s)" "used_before u (?p + unat (match_fwd u)) (2 ^ 64)"
    proof -
      have m: "4 \<le> unat (min_match s)" using w(1) by (simp add: searching_def)
      have b: "?p \<le> length (next_in s)" using searching_position [OF w(1)] by simp
      show "?p + unat (match_fwd u) \<le> length (next_in s)" using u b by (auto simp: extended_def)
      have "unat (min_match s) < 2 ^ 63" using w(1) by (simp add: searching_def)
      then show "used_before u (?p + unat (match_fwd u)) (2 ^ 64)"
        using u m b nx by (auto simp: extended_def used_before_def)
    qed
    have p1: "unat (input_position t) = ?p + unat (match_fwd u)"
      using pos(1) nx fr(2) by (simp add: r(2) unat_plus_64)
    have "searching file t"
      using fr(3,4) p1 pos(1) nx unfolding searching_def r(2)
      by (auto simp: settled_def found_ok_def src_true_def avail_in_def word_le_nat_alt unat_of_nat_64)
    moreover have "look_ok t" using w(2) look_frame [OF fr(1)] by (simp add: r(2) look_ok_def)
    moreover have "tables_ok t"
      by (rule tables_keep [OF w(3)]) (use u p1 in \<open>simp_all add: r(2) extended_def\<close>)
    moreover have "settled t" using fr(3) by (simp add: r(2) settled_def)
    moreover have "used_before t (unat (input_position t)) (2 ^ 64)" using pos(2) p1 by (simp add: r(2) used_before_def)
    ultimately show ?thesis using fr(1) r by (simp add: search_ready_def)
  qed
qed

lemma rematch_ok:
  assumes s: "window_search file s" and t: "enc_rematch s = (ret, t)"
  shows "(ret = XD3_OK \<longrightarrow> search_ready file t \<and> search_frame s t) \<and>
    (ret \<noteq> XD3_OK \<and> ret \<noteq> ENOMEM \<longrightarrow> window_search file t \<and> search_frame s t) \<and> (src s = None \<longrightarrow> ret = XD3_OK)"
proof -
  have w: "searching file s" "look_ok s" "tables_ok s" "used_before s (unat (input_position s)) (unat (input_position s) + unat (min_match s))"
    using s by (simp_all add: window_search_def)
  have l: "length (next_in s) < 2 ^ 62" "unat (min_match s) < 2 ^ 63" "unat (input_position s) \<le> length (next_in s)"
    using w(1) searching_position [OF w(1)] by (simp_all add: searching_def)
  have ready: "settled s \<Longrightarrow> search_ready file s"
    using w l by (auto simp: search_ready_def used_before_def)
  show ?thesis
  proof (cases "src s")
    case None
    then show ?thesis using t s ready by (simp add: enc_rematch_def window_search_def)
  next
    case (Some x)
    have xs: "src s \<noteq> None" using Some by simp
    have empty: "search_ready file (u\<lparr>match_state := MATCH_SEARCHING, match_fwd := 0\<rparr>)" if "u = s" for u
      using w l that by (auto simp: search_ready_def used_before_def searching_def found_ok_def src_true_def avail_in_def
          settled_def look_ok_def tables_ok_def DO_SMALL_def)
    show ?thesis
    proof (cases "match_state s")
      case MATCH_SEARCHING
      then show ?thesis using t Some ready by (simp add: enc_rematch_def settled_def)
    next
      case MATCH_TARGET
      show ?thesis
      proof (cases "avail_in s > 0")
        case True
        obtain good u where su: "xd3_source_match_setup s x (match_srcpos s) = (good, u)" by fastforce
        note g = match_setup_ok [OF w(1) su]
        define v where "v = u\<lparr>match_state := MATCH_FORWARD\<rparr>"
        have "match_progress file v = match_progress file u" by (simp add: v_def match_progress_def)
        moreover have "searching file v" unfolding v_def by (rule searching_matched) (use g in \<open>simp_all add: paused_def\<close>)
        ultimately have v: "paused file s v" "match_progress file v" using g by (simp_all add: v_def paused_def)
        have fr: "search_frame s v" using v(1) by (simp add: paused_def)
        have n0: "avail_in s \<noteq> 0" using True by auto
        have "avail_in v = avail_in s" using fr by (simp add: search_frame_def avail_in_def)
        then have n: "avail_in v \<noteq> 0" using True by auto
        have xv: "src v \<noteq> None" using fr xs by (simp add: search_frame_def)
        have e: "enc_continue v = (ret, t)" using t Some MATCH_TARGET True su by (simp add: enc_rematch_def v_def)
        show ?thesis
          using continue_ok [OF paused_search [OF s v(1) xs n0] v(2) xv n e] search_frame_trans [OF fr] xs by blast
      next
        case False
        then have "avail_in s = 0" by (simp add: word_gt_0)
        then have "ret = XD3_OK" "t = s\<lparr>match_state := MATCH_SEARCHING, match_fwd := 0\<rparr>"
          using t Some MATCH_TARGET by (auto simp: enc_rematch_def enc_continue_def avail_in_def)
        then show ?thesis using empty by simp
      qed
    next
      case MATCH_FORWARD
      have pr: "match_progress file s" using w(1) MATCH_FORWARD by (simp add: searching_def)
      have e: "enc_continue s = (ret, t)" using t Some MATCH_FORWARD by (simp add: enc_rematch_def)
      have n: "avail_in s \<noteq> 0" using s MATCH_FORWARD by (simp add: window_search_def settled_def)
      show ?thesis using continue_ok [OF s pr xs n e] xs by blast
    next
      case MATCH_BACKWARD
      have pr: "match_progress file s" using w(1) MATCH_BACKWARD by (simp add: searching_def)
      have e: "enc_continue s = (ret, t)" using t Some MATCH_BACKWARD by (simp add: enc_rematch_def)
      have n: "avail_in s \<noteq> 0" using s MATCH_BACKWARD by (simp add: window_search_def settled_def)
      show ?thesis using continue_ok [OF s pr xs n e] xs by blast
    qed
  qed
qed

lemma search_writes:
  assumes "window_search file s" and "sections_start s" and "enc_search s = (ret, t)"
  shows "(\<exists>u. enc_emit u = (ret, t) \<and> window_written file u \<and> next_in u = next_in s \<and>
      left_over file s u) \<or>
    ret = ENOMEM \<and> (src s = None \<longrightarrow> (\<exists>n. \<not> alloc s n)) \<or>
    ret \<noteq> XD3_OK \<and> src s \<noteq> None \<and> window_search file t \<and> sections_start t \<and>
      next_in t = next_in s \<and> enc_state t = enc_state s \<and> hdr_info t = hdr_info s \<and>
      session_info t = session_info s"
proof -
  obtain r1 s1 where m: "enc_rematch s = (r1, s1)" by fastforce
  note g1 = rematch_ok [OF assms(1) m]
  show ?thesis
  proof (cases "r1 = XD3_OK")
    case False
    then have "ret = r1" "t = s1" using assms(3) by (simp_all add: enc_search_def m xd3_try_fail)
    then show ?thesis using False g1 assms(2) sections_start_frame [of s s1] by (auto simp: search_frame_def session_info_def hdr_info_def sect_bytes_def)
  next
    case True
    then have s1: "search_ready file s1" "search_frame s s1" using g1 by simp_all
    define r where "r = (if avail_in s1 \<noteq> 0 then xd3_string_match s1 else (XD3_OK, s1))"
    obtain r2 s2 where r2: "r = (r2, s2)" by (cases r)
    have ret2: "returned file s1 r2 s2"
    proof (cases "avail_in s1 = 0")
      case True
      then show ?thesis using r2 s1(1) by (simp add: r_def returned_def search_ready_def tables_ok_fit)
    next
      case False
      then have "xd3_string_match s1 = (r2, s2)" using r2 by (simp add: r_def)
      then show ?thesis by (rule string_match_ok [OF s1(1)])
    qed
    have fr: "alloc s1 = alloc s" "enc_state s1 = enc_state s" "next_in s1 = next_in s" "(src s1 = None) = (src s = None)"
      "sections_start s1 = sections_start s" "hdr_info s1 = hdr_info s" "session_info s1 = session_info s"
      using s1(2) sections_start_frame [OF s1(2)] by (simp_all add: search_frame_def session_info_def hdr_info_def sect_bytes_def)
    show ?thesis
    proof (cases "r2 = XD3_OK")
      case no: False
      then have e: "ret = r2" "t = s2"
        using assms(3) by (simp_all add: enc_search_def m True r_def [symmetric] r2 xd3_try_fail)
      show ?thesis
      proof (cases "r2 = ENOMEM")
        case True
        then show ?thesis using ret2 e fr by (auto simp: returned_def ret_ok_def)
      next
        case False
        then have p: "searching file s2" "search_frame s1 s2" "look_ok s2" "tables_ok s2"
          "used_before s2 (unat (input_position s2)) (unat (input_position s2) + unat (min_match s2))" "src s1 \<noteq> None"
          using ret2 no small_tables by (auto simp: returned_def ret_ok_def)
        have ne: "avail_in s1 \<noteq> 0" using no r2 by (auto simp: r_def)
        have f2: "next_in s2 = next_in s1" "enc_state s2 = enc_state s1" "sections_start s2 = sections_start s1" "src s2 \<noteq> None" "avail_in s2 = avail_in s1" "hdr_info s2 = hdr_info s1" "session_info s2 = session_info s1"
          using p(2,6) sections_start_frame [OF p(2)]
          by (auto simp: search_frame_def avail_in_def session_info_def hdr_info_def sect_bytes_def)
        have "window_search file s2" using p f2 ne by (simp add: window_search_def)
        then show ?thesis using e fr f2 no assms(2) p(6) by auto
      qed
    next
      case ok: True
      then have p: "searching file s2" "search_frame s1 s2" "settled s2" "tables_fit s2" using ret2 by (simp_all add: returned_def)
      have f2: "next_in s2 = next_in s" "alloc s2 = alloc s" "sections_start s2" "hdr_info s2 = hdr_info s1" "session_info s2 = session_info s1"
        using p(2) sections_start_frame [OF p(2)] fr assms(2) by (simp_all add: search_frame_def session_info_def hdr_info_def sect_bytes_def)
      obtain r3 s3 where w: "xd3_try (xd3_iopt_flush_instructions (s2\<lparr>enc_state := ENC_INSTR\<rparr>) True) xd3_iopt_add_finalize = (r3, s3)"
        by fastforce
      note g3 = search_written [OF p(1,3,4) f2(3) w]
      have eq: "(ret, t) = xd3_try (r3, s3) (\<lambda>s. enc_emit (s\<lparr>enc_state := ENC_FLUSH\<rparr>))"
        using assms(3) by (simp add: enc_search_def m True r_def [symmetric] r2 ok enc_instr_def w)
      show ?thesis
      proof (cases "r3 = XD3_OK")
        case False
        then show ?thesis using eq g3 f2 by (auto simp: ret_ok_def xd3_try_fail)
      next
        case True
        define u where "u = s3\<lparr>enc_state := ENC_FLUSH\<rparr>"
        have "window_written file u = window_written file s3" by (simp add: u_def window_written_def sect_bytes_def)
        moreover have "left_over file s u"
        proof -
          have u: "hdr_info u = hdr_info s3" "session_info u = session_info s3" "sinks_ok u = sinks_ok s3"
            "settled u = settled s3" "tables_fit u = tables_fit s3" "src_true file u = src_true file s3"
            "iopt_used u = iopt_used s3" "iout u = iout s3" "code_table u = code_table s3" "acache u = acache s3"
            by (simp_all add: u_def info_defs sect_bytes_def sinks_ok_def free_ok_def settled_def tables_fit_def
                DO_SMALL_def src_true_def)
          have "left_over file s2 s3" using g3 True by simp
          then show ?thesis using f2 fr by (simp add: left_over_def u)
        qed
        ultimately have "window_written file u" "next_in u = next_in s" "enc_emit u = (ret, t)" "left_over file s u"
          using g3 f2 True eq by (simp_all add: u_def)
        then show ?thesis by blast
      qed
    qed
  qed
qed

section \<open>Properties\<close>


text \<open>A target that a byte and a part of the source make up, with the source and without.\<close>

definition search_example :: "xd3_source option \<Rightarrow> xd3_encoder" where
  "search_example source = encoder_zero
     \<lparr>next_in := [9, 1, 2, 3, 4, 1, 2, 3, 4, 9, 9, 9, 9, 9, 9, 9, 9], src := source,
      code_table := rfc3284_code_table, acache := cache0, iopt_unlimited := True, min_match := 4,
      sprevsz := 4, sprevmask := 3, enc_state := ENC_SEARCH,
      smatcher := \<lparr>sm_name = [], large_look = 4, large_step = 1, small_look = 4, small_chain = 1, small_lchain = 1,
        max_lazy = 0, long_enough = 4\<rparr>,
      small_hash := \<lparr>hc_size = 4, hc_shift = 62, hc_mask = 3, hc_look = 4, hc_multiplier = xd3_hash_multiplier64 ^ 4,
        hc_powers = [xd3_hash_multiplier64 ^ 3, xd3_hash_multiplier64 ^ 2, xd3_hash_multiplier64, 1]\<rparr>,
      large_hash := \<lparr>hc_size = 4, hc_shift = 62, hc_mask = 3, hc_look = 4, hc_multiplier = xd3_hash_multiplier64 ^ 4,
        hc_powers = [xd3_hash_multiplier64 ^ 3, xd3_hash_multiplier64 ^ 2, xd3_hash_multiplier64, 1]\<rparr>,
      enc_chain := (\<lambda>_. [\<lparr>out_base = [], out_avail = 64\<rparr>])\<rparr>"

definition source_1234 :: xd3_source where
  "source_1234 = \<lparr>blksize = 4, max_winsize = 4, curblkno = 0, onblk = 4, curblk = Some [1, 2, 3, 4],
     srclen = 0, srcbase = 0, shiftby = 2, maskby = 3, cpyoff_blocks = 0, cpyoff_blkoff = 0, getblkno = 0,
     max_blkno = 1, onlastblk = 0, eof_known = True\<rparr>"

lemma search_example_eval:
  "iopt_used (search_example x) = []" "match_state (search_example x) = MATCH_TARGET" "getblk (search_example x) = None"
  "input_position (search_example x) = 0" "small_table (search_example x) = None" "small_prev (search_example x) = None"
  "small_look (smatcher (search_example x)) = 4" "length (next_in (search_example x)) = 17" "src (search_example x) = x"
  "unencoded_offset (search_example x) = 0" "iopt_unlimited (search_example x)" "flags (search_example x) = 0"
  "min_match (search_example x) = 4" "match_maxaddr (search_example x) = 0" "match_minaddr (search_example x) = 0"
  "\<not> srcwin_decided (search_example x)" "sprevsz (search_example x) = 4" "sprevmask (search_example x) = 3"
  "small_chain (smatcher (search_example x)) = 1" "small_lchain (smatcher (search_example x)) = 1" "alloc (search_example x) n"
  by (simp_all add: search_example_def window_example_eval)

lemma search_example_hash: "hash_ok (small_hash (search_example x))"
  unfolding hash_ok_def
proof (intro conjI allI impI exI [of _ 2])
  fix i assume "i < unat (hc_look (small_hash (search_example x)))"
  then have "i < 4" by (simp add: search_example_def window_example_eval)
  then have "i = 0 \<or> i = 1 \<or> i = 2 \<or> i = 3" by arith
  then show "hc_powers (small_hash (search_example x)) ! i =
      xd3_hash_multiplier64 ^ (unat (hc_look (small_hash (search_example x))) - 1 - i)"
    by (elim disjE) (simp_all add: search_example_def window_example_eval)
qed (simp_all add: search_example_def window_example_eval)

lemma search_example_search:
  assumes "src_true f (search_example x)" and "\<forall>y. x = Some y \<longrightarrow> srclen y = 0"
  shows "window_search f (search_example x)"
  using assms search_example_hash
  by (simp add: window_search_def searching_def found_ok_def avail_in_def search_example_eval tables_ok_def look_ok_def
      used_before_def settled_def)

lemma search_example_sections: "sections_start (search_example x)"
  by (simp add: sections_start_def search_example_def window_example_eval sinks_ok_def free_ok_def chain_ok_def
      sect_bytes_def chain_bytes_def)


end
