(* ===== verification/Xd3_Decode_Exec.thy ===== *)
theory Xd3_Decode_Exec
  imports Xd3_Decode_Run Xd3_Vcdiff
begin

text \<open>
  Half instructions: executing one, block by block where it copies from the source, and parsing one, against
  the specification of a window.  A step keeps the value that the half has on the output so far, and it
  refuses only a half without a value, or with one longer than the window announced.
\<close>

section \<open>Half instructions\<close>

text \<open>A parsed half instruction, on the output so far and the data section.\<close>

definition exec_half :: "uint8 list \<Rightarrow> xd3_hinst \<Rightarrow> uint8 list \<times> uint8 list \<Rightarrow> (uint8 list \<times> uint8 list) option" where
  "exec_half seg h p =
     (case p of (out, data) \<Rightarrow>
        if hi_type h = XD3_NOOP then Some (out, data)
        else if hi_type h = XD3_ADD then
          (if unat (hi_size h) \<le> length data
           then Some (out @ take (unat (hi_size h)) data, drop (unat (hi_size h)) data) else None)
        else if hi_type h = XD3_RUN then
          (case data of [] \<Rightarrow> None | b # data \<Rightarrow> Some (out @ replicate (unat (hi_size h)) b, data))
        else if unat (hi_addr h) < length seg + length out \<and>
           (unat (hi_addr h) < length seg \<longrightarrow> unat (hi_addr h) + unat (hi_size h) \<le> length seg)
        then Some (vcopy seg (unat (hi_addr h)) (unat (hi_size h)) out, data) else None)"

lemma exec_half_noop [simp]: "hi_type h = XD3_NOOP \<Longrightarrow> exec_half seg h p = Some p"
  by (cases p) (simp add: exec_half_def)

lemma length_vcopy [simp]: "length (vcopy seg a n out) = length out + n"
  by (induction n arbitrary: a out) simp_all

lemma exec_half_length:
  "exec_half seg h (out, data) = Some (out', data') \<Longrightarrow> length out' = length out + unat (pend h)"
  by (auto simp: exec_half_def pend_def split: if_splits list.splits)

text \<open>A step of the specification is the decoding of an address and the execution of a half.\<close>

lemma vstep_exec:
  assumes "t \<noteq> XD3_NOOP"
  shows "vstep seg (t, n) (out, c, data, addr) =
    (if XD3_CPY \<le> t then
       case address_dec c (of_nat (length seg + length out)) (ucast (t - XD3_CPY)) addr of
         None \<Rightarrow> None
       | Some (a, addr') \<Rightarrow>
           map_option (\<lambda>(out', data'). (out', xd3_update_cache c a, data', addr'))
             (exec_half seg \<lparr>hi_type = t, hi_size = n, hi_addr = a\<rparr> (out, data))
     else map_option (\<lambda>(out', data'). (out', c, data', addr))
            (exec_half seg \<lparr>hi_type = t, hi_size = n, hi_addr = a0\<rparr> (out, data)))"
proof -
  have "\<not> (3 :: uint8) \<le> 1" by (simp add: word_le_nat_alt)
  then have "XD3_CPY \<le> t \<longleftrightarrow> t \<noteq> XD3_NOOP \<and> t \<noteq> XD3_ADD \<and> t \<noteq> XD3_RUN"
    using copy_type_cases [of t] by auto
  then show ?thesis
    using assms by (auto simp: vstep_def exec_half_def split: option.splits list.splits)
qed

lemma vcopy_from_segment: "a + n \<le> length seg \<Longrightarrow> vcopy seg a n out = out @ take n (drop a seg)"
proof (induction n arbitrary: a out)
  case (Suc n)
  then have "drop a seg = seg ! a # drop (Suc a) seg" by (simp add: Cons_nth_drop_Suc)
  then show ?case using Suc by (simp add: nth_append)
qed simp

lemma vcopy_from_target: "copy_overlap out i n = Some out' \<Longrightarrow> vcopy seg (length seg + i) n out = out'"
proof (induction out i n rule: copy_overlap.induct)
  case (2 win i n)
  then have "vcopy seg (length seg + Suc i) n (win @ [win ! i]) = out'" by (auto split: if_splits)
  then show ?case using 2(2) by (simp add: nth_append split: if_splits)
qed simp

lemma vstep_length: "vstep seg h (out, c, data, addr) = Some (out', w) \<Longrightarrow> length out \<le> length out'"
  by (cases h) (auto simp: vstep_def split: if_splits list.splits option.splits)

lemma vrun_length: "vrun seg hs (out, w) = Some (out', w') \<Longrightarrow> length out \<le> length out'"
proof (induction hs arbitrary: out w)
  case (Cons h hs)
  then obtain o1 w1 where "vstep seg h (out, w) = Some (o1, w1)" "vrun seg hs (o1, w1) = Some (out', w')"
    by (auto split: option.splits)
  then show ?case using Cons.IH vstep_length [of seg h out "fst w" "fst (snd w)" "snd (snd w)" o1 w1] by fastforce
qed simp

section \<open>Executing a half instruction\<close>

text \<open>The output so far, and the data section.\<close>

definition written :: "xd3_decoder \<Rightarrow> uint8 list \<times> uint8 list" where
  "written s = (case out_bytes s of None \<Rightarrow> [] | Some bs \<Rightarrow> bs, ds_buf (data_sect s))"

text \<open>The copy window.  The callback reports a block it cannot read by a status of its own, not as invalid input.\<close>

definition seg_of :: "uint8 list \<Rightarrow> xd3_decoder \<Rightarrow> uint8 list" where
  "seg_of file s = take (unat (dec_cpylen s)) (drop (unat (dec_cpyoff s)) file)"

text \<open>A copy that starts in the copy window was found to end in it, by a sum that may have wrapped around.\<close>

definition src_fit :: "usize_t \<Rightarrow> xd3_hinst \<Rightarrow> bool" where
  "src_fit cpylen h \<longleftrightarrow> (XD3_CPY \<le> hi_type h \<and> hi_addr h < cpylen \<longrightarrow> hi_addr h + hi_size h \<le> cpylen)"

definition window_in :: "uint8 list \<Rightarrow> xd3_decoder \<Rightarrow> bool" where
  "window_in file s \<longleftrightarrow> src_true file s \<and> dec_tgtlen s \<le> space_out s \<and>
     (\<forall>f. getblk s = Some f \<longrightarrow> (\<forall>x n. fst (f x n) \<noteq> XD3_INVALID_INPUT)) \<and>
     (dec_cpylen s \<noteq> 0 \<longrightarrow> unat (dec_cpyoff s) + unat (dec_cpylen s) \<le> length file)"

lemma seg_of_length: "window_in file s \<Longrightarrow> length (seg_of file s) = unat (dec_cpylen s)"
  by (cases "dec_cpylen s = 0") (auto simp: seg_of_def window_in_def)

lemma seg_of_bound: "window_in file s \<Longrightarrow> unat (dec_cpylen s) < 2 ^ 62"
  by (cases "dec_cpylen s = 0") (auto simp: window_in_def src_true_def)

definition too_long :: "usize_t \<Rightarrow> (uint8 list \<times> 'a) option \<Rightarrow> bool" where
  "too_long n v \<longleftrightarrow> (\<forall>out w. v = Some (out, w) \<longrightarrow> unat n < length out)"

lemma too_long_None [simp]: "too_long n None"
  by (simp add: too_long_def)

text \<open>A copy from the source may have to wait for a block, or find that it cannot be read.\<close>

definition unread :: "xd3_decoder \<Rightarrow> bool" where
  "unread s \<longleftrightarrow> dec_cpylen s \<noteq> 0 \<and> (case getblk s of None \<Rightarrow> True | Some f \<Rightarrow> \<exists>x n. fst (f x n) \<noteq> XD3_OK)"

text \<open>What a step on a half instruction keeps: the value of the rest, unless it is refused.\<close>

definition half_true :: "uint8 list \<Rightarrow> xd3_decoder \<Rightarrow> xd3_hinst \<Rightarrow> xd3_rvalue \<times> xd3_decoder \<times> xd3_hinst \<Rightarrow> bool" where
  "half_true file s inst res \<longleftrightarrow>
     (case res of (ret, t, h) \<Rightarrow>
        src_true file t \<and> src_fit (dec_cpylen s) h \<and> (ret \<in> {XD3_OK, XD3_INVALID_INPUT} \<or> unread s) \<and>
        (if ret = XD3_INVALID_INPUT then too_long (dec_tgtlen s) (exec_half (seg_of file s) inst (written s))
         else exec_half (seg_of file s) h (written t) = exec_half (seg_of file s) inst (written s)))"

lemma written_bytes: "out_bytes s = Some bs \<Longrightarrow> written s = (bs, ds_buf (data_sect s))"
  by (simp add: written_def)

lemma written_cong:
  "next_out t = next_out s \<Longrightarrow> dec_heap t = dec_heap s \<Longrightarrow> avail_out t = avail_out s \<Longrightarrow>
    written t = (fst (written s), ds_buf (data_sect t))"
  using out_bytes_cong [of t s] by (simp add: written_def)

lemma written_snd [simp]: "snd (written s) = ds_buf (data_sect s)"
  by (simp add: written_def)

lemma written_upd [simp]:
  "written (s\<lparr>msg := m\<rparr>) = written s" "written (s\<lparr>dec_current1 := h\<rparr>) = written s"
  "written (s\<lparr>dec_current2 := h\<rparr>) = written s"
  "written (s\<lparr>data_sect := d\<rparr>) = (fst (written s), ds_buf d)"
  by (subst written_cong [where s = s]; simp add: prod_eq_iff)+

lemma src_true_upd [simp]:
  "src_true file (s\<lparr>msg := m\<rparr>) = src_true file s" "src_true file (s\<lparr>dec_current1 := h\<rparr>) = src_true file s"
  "src_true file (s\<lparr>dec_current2 := h\<rparr>) = src_true file s" "src_true file (s\<lparr>data_sect := d\<rparr>) = src_true file s"
  for s :: xd3_decoder
  by (simp_all add: src_true_def)

lemma half_write:
  assumes pre: "exec_pre s" and fit: "unat (avail_out s) + length bs \<le> unat (space_out s)"
    and w: "out_write bs s = (ret, t)"
  shows "ret = XD3_OK \<and> written t = (fst (written s) @ bs, ds_buf (data_sect s)) \<and>
    data_sect t = data_sect s \<and> (\<forall>file. src_true file t = src_true file s)"
proof -
  have win: "win_ok s" using pre by (simp add: exec_pre_def)
  note ok = out_write_ok [OF win fit w]
  obtain old where old: "out_bytes s = Some old" using win by (auto simp: win_ok_def)
  obtain h a where "t = s\<lparr>dec_heap := h, avail_out := a\<rparr>" using ok(5) by blast
  then show ?thesis using ok(1) ok(4) [OF old] old by (simp add: written_def src_true_def)
qed

lemma src_fit_noop [simp]: "src_fit c (h\<lparr>hi_type := 0\<rparr>)"
  by (simp add: src_fit_def)

lemma exec_half_too_long:
  assumes "unat n < length (fst p) + unat (pend h)"
  shows "too_long n (exec_half seg h p)"
  using assms by (cases p) (auto simp: too_long_def dest: exec_half_length)

lemma output_run_true:
  assumes "exec_pre s" and "src_true file s" and "hi_type inst = XD3_RUN"
    and "unat (avail_out s) + unat (hi_size inst) \<le> unat (space_out s)"
  shows "half_true file s inst (output_run s inst)"
proof (cases "ds_buf (data_sect s)")
  case Nil
  then show ?thesis using assms by (simp add: output_run_def half_true_def exec_half_def written_def src_fit_def)
next
  case (Cons b rest)
  obtain r t where w: "out_write (replicate (unat (hi_size inst)) b) s = (r, t)" by fastforce
  note k = half_write [OF assms(1) _ w]
  have f: "src_true file t" "r = XD3_OK" "data_sect t = data_sect s"
    "written t = (fst (written s) @ replicate (unat (hi_size inst)) b, ds_buf (data_sect s))" using k assms by simp_all
  have "written s = (fst (written s), b # rest)" by (simp add: written_def Cons)
  then have "exec_half (seg_of file s) inst (written s) =
      Some (fst (written s) @ replicate (unat (hi_size inst)) b, rest)"
    by (cases "written s") (simp add: exec_half_def assms(3))
  then show ?thesis using f Cons w by (simp add: output_run_def half_true_def)
qed

lemma output_add_true:
  assumes "exec_pre s" and "src_true file s" and "hi_type inst = XD3_ADD"
    and "unat (avail_out s) + unat (hi_size inst) \<le> unat (space_out s)"
  shows "half_true file s inst (output_add s inst)"
proof -
  let ?d = "ds_buf (data_sect s)" and ?n = "unat (hi_size inst)"
  have e: "exec_half (seg_of file s) inst (written s) =
      (if ?n \<le> length ?d then Some (fst (written s) @ take ?n ?d, drop ?n ?d) else None)"
    using assms(3) written_snd [of s] by (cases "written s") (simp add: exec_half_def)
  consider (zero) "hi_size inst = 0" | (short) "hi_size inst \<noteq> 0" "?d = [] \<or> ?n > length ?d"
    | (go) "hi_size inst \<noteq> 0" "\<not> (?d = [] \<or> ?n > length ?d)" by blast
  then show ?thesis
  proof cases
    case zero
    then show ?thesis using assms(2) e by (simp add: output_add_def half_true_def prod_eq_iff)
  next
    case short
    then have "0 < ?n" by (simp add: word_gt_0 unat_gt_0)
    then have "\<not> ?n \<le> length ?d" using short by auto
    then show ?thesis using short assms(2,3) e by (auto simp: output_add_def Let_def half_true_def src_fit_def word_le_nat_alt)
  next
    case go
    obtain r t where w: "out_write (take ?n ?d) s = (r, t)" by fastforce
    have "length (take ?n ?d) = ?n" using go by simp
    with half_write [OF assms(1) _ w] assms(2,4) go w e show ?thesis
      by (simp add: output_add_def Let_def half_true_def)
  qed
qed

lemma output_target_copy_true:
  assumes pre: "exec_pre s" and win: "window_in file s" and "copy_ok (dec_cpylen s) (avail_out s) inst" and "XD3_CPY \<le> hi_type inst"
    and "unat (avail_out s) + unat (hi_size inst) \<le> unat (space_out s)"
    and "\<not> hi_addr inst < dec_cpylen s"
  shows "half_true file s inst (output_target_copy s inst)"
proof -
  obtain out where out: "out_bytes s = Some out" "length out = unat (avail_out s)"
    using exec_pre_win [OF pre] by blast
  let ?st = "hi_addr inst - dec_cpylen s" and ?seg = "seg_of file s"
  have lt: "unat ?st < length out" using assms(3,4,6) by (simp add: copy_ok_def out word_less_nat_alt)
  then have "unat ?st < length out \<or> unat (hi_size inst) = 0" by simp
  from copy_overlap_length [OF this] obtain bs where
    bs: "copy_overlap out (unat ?st) (unat (hi_size inst)) = Some (out @ bs)" "length bs = unat (hi_size inst)"
    by blast
  obtain r t where w: "out_write bs s = (r, t)" by fastforce
  have base: "dec_tgtaddrbase s = (next_out s, dec_cpylen s)" using pre by (simp add: exec_pre_def)
  have len: "length ?seg = unat (dec_cpylen s)" using win by (rule seg_of_length)
  have addr: "unat (hi_addr inst) = length ?seg + unat ?st"
    using assms(6) len by (simp add: unat_sub word_le_nat_alt not_less)
  have nn: "hi_type inst \<noteq> XD3_NOOP" "hi_type inst \<noteq> XD3_ADD" "hi_type inst \<noteq> XD3_RUN"
    using assms(4) by (auto simp: word_le_nat_alt)
  have e: "exec_half ?seg inst (written s) = Some (out @ bs, ds_buf (data_sect s))"
    using nn lt addr vcopy_from_target [OF bs(1), of ?seg] by (simp add: written_bytes [OF out(1)] exec_half_def)
  have "src_true file s" using win by (simp add: window_in_def)
  then show ?thesis
    using half_write [OF pre _ w] assms(5) out bs w base e
    by (simp add: output_target_copy_def Let_def half_true_def written_bytes [OF out(1)] src_fit_def)
qed

text \<open>The bytes of the block are bytes of the copy window.\<close>

lemma block_part_bytes:
  assumes "unat b * B + r = off + a" and "r + n \<le> length (block_of file B (unat b))" and "a + n \<le> len"
  shows "take n (drop r (block_of file B (unat b))) = take n (drop a (take len (drop off file)))"
proof -
  have "r + n \<le> B" using assms(2) by (simp add: block_of_def)
  then have "take n (drop r (block_of file B (unat b))) = take n (drop (unat b * B + r) file)"
    by (simp add: block_of_def drop_take add.commute)
  also have "\<dots> = take n (drop a (take len (drop off file)))"
    using assms(1,3) by (simp add: drop_take add.commute)
  finally show ?thesis .
qed

lemma exec_half_source_part:
  assumes ty: "XD3_CPY \<le> hi_type inst" and fits: "unat (hi_addr inst) + unat (hi_size inst) \<le> length seg"
    and lt: "unat (hi_addr inst) < length seg" and small: "length seg < 2 ^ 62" and part: "block_part bsize blkoff inst = (n, h)" "blkoff < bsize"
  shows "unat n \<le> unat (hi_size inst) \<and>
    exec_half seg h (out @ take (unat n) (drop (unat (hi_addr inst)) seg), data) = exec_half seg inst (out, data)"
proof -
  let ?a = "unat (hi_addr inst)" and ?z = "unat (hi_size inst)"
  have nn: "hi_type inst \<noteq> XD3_NOOP" "hi_type inst \<noteq> XD3_ADD" "hi_type inst \<noteq> XD3_RUN"
    using ty by (auto simp: word_le_nat_alt)
  have whole: "exec_half seg inst (out, data) = Some (out @ take ?z (drop ?a seg), data)"
    using nn fits lt by (simp add: exec_half_def vcopy_from_segment)
  from block_part_cases [OF part] show ?thesis
  proof (elim disjE conjE)
    assume "n = hi_size inst" "h = inst\<lparr>hi_type := XD3_NOOP, hi_size := 0\<rparr>"
    then show ?thesis using whole by simp
  next
    assume n: "unat n \<le> ?z" "0 < unat n" and h: "h = inst\<lparr>hi_size := hi_size inst - n, hi_addr := hi_addr inst + n\<rparr>"
    have z: "unat (hi_size h) = ?z - unat n" using n by (simp add: h unat_sub word_le_nat_alt)
    have a: "unat (hi_addr h) = ?a + unat n" using small n fits by (simp add: h unat_plus_64)
    have "?a + unat n + (?z - unat n) \<le> length seg" using fits n by simp
    then have "exec_half seg h (out @ take (unat n) (drop ?a seg), data) =
        Some ((out @ take (unat n) (drop ?a seg)) @ take (?z - unat n) (drop (?a + unat n) seg), data)"
      using nn n fits by (simp add: exec_half_def h [THEN arg_cong, of hi_type, simplified] a z vcopy_from_segment del: append_assoc)
    also have "\<dots> = Some (out @ take ?z (drop ?a seg), data)"
      using take_add [of "unat n" "?z - unat n" "drop ?a seg"] n by (simp add: add.commute)
    finally show ?thesis using whole n by simp
  qed
qed

lemma output_source_copy_true:
  assumes pre: "exec_pre s" and win: "window_in file s" and ty: "XD3_CPY \<le> hi_type inst"
    and cp: "copy_ok (dec_cpylen s) (avail_out s) inst" and sf: "src_fit (dec_cpylen s) inst"
    and fit: "unat (avail_out s) + unat (hi_size inst) \<le> unat (space_out s)"
    and addr: "hi_addr inst < dec_cpylen s"
  shows "half_true file s inst (output_source_copy s inst)"
proof -
  let ?seg = "seg_of file s" and ?a = "unat (hi_addr inst)" and ?z = "unat (hi_size inst)"
  have cl: "dec_cpylen s \<noteq> 0" using addr by auto
  then obtain x where x: "src s = Some x" "xd3_blksize_div (dec_cpyoff s) x = (cpyoff_blocks x, cpyoff_blkoff x)"
    using pre by (auto simp: exec_pre_def src_ready_def split: option.splits)
  have so: "source_ok x" using pre x(1) by (simp add: exec_pre_def src_ok_def)
  have cw: "unat (dec_cpyoff s) + unat (dec_cpylen s) \<le> length file" "length file < 2 ^ 62" "src_true file s"
    using win cl by (simp_all add: window_in_def src_true_def)
  have len: "length ?seg = unat (dec_cpylen s)" "length ?seg < 2 ^ 62" using seg_of_length [OF win] seg_of_bound [OF win] by simp_all
  have a: "?a < length ?seg" using addr len by (simp add: word_less_nat_alt)
  have z: "?z \<le> 2 ^ 26"
  proof -
    have "unat (space_out s) \<le> 0x4000000" using pre by (simp add: exec_pre_def win_ok_def word_le_nat_alt)
    then show ?thesis using fit by simp
  qed
  have fits: "?a + ?z \<le> length ?seg"
  proof -
    have "hi_addr inst + hi_size inst \<le> dec_cpylen s" using sf ty addr by (simp add: src_fit_def)
    moreover have "unat (hi_addr inst + hi_size inst) = ?a + ?z" using a z len(2) by (intro unat_plus_64) simp
    ultimately show ?thesis using len by (simp add: word_le_nat_alt)
  qed
  obtain b r where add: "xd3_blksize_add (cpyoff_blocks x) (cpyoff_blkoff x) x (hi_addr inst) = (b, r)" by fastforce
  have "unat (dec_cpyoff s) + ?a < 2 ^ 64" using pre addr by (simp add: exec_pre_def word_less_nat_alt)
  note br = blksize_div_add [OF so x(2) add this]
  have r: "r < blksize x" using br(2) by (simp add: word_less_nat_alt)
  obtain ret u where g: "xd3_getblk s b = (ret, u)" by fastforce
  obtain y m where y: "u = s\<lparr>src := Some y, msg := m\<rparr>" "src_true file u" "same_source x y"
    "ret = XD3_OK \<longrightarrow> curblk y = Some (block_of file (unat (blksize x)) (unat b)) \<and>
      unat (onblk y) = length (block_of file (unat (blksize x)) (unat b))"
    by (rule getblk_true [OF cw(3) x(1) g]) (rule that)
  have pu: "exec_pre u" by (rule exec_pre_getblk [OF pre x(1) g])
  have inv: "ret \<notin> {C_UNDEFINED, C_DIVERGES, XD3_OUTPUT}" by (rule exec_pre_getblk [OF pre x(1) g])
  have wu: "written u = written s" by (subst written_cong [where s = s]) (simp_all add: y(1) prod_eq_iff)
  have fu: "src u = Some y" "space_out u = space_out s" "avail_out u = avail_out s" "data_sect u = data_sect s" by (simp_all add: y(1))
  have whole: "exec_half ?seg inst (written s) = Some (fst (written s) @ take ?z (drop ?a ?seg), ds_buf (data_sect s))"
  proof -
    have "hi_type inst \<noteq> XD3_NOOP" "hi_type inst \<noteq> XD3_ADD" "hi_type inst \<noteq> XD3_RUN"
      using ty by (auto simp: word_le_nat_alt)
    then show ?thesis using a fits written_snd [of s]
      by (cases "written s") (simp add: exec_half_def vcopy_from_segment)
  qed
  show ?thesis
  proof (cases "ret = XD3_OK")
    case False
    then have "output_source_copy s inst =
        (if ret = XD3_TOOFARBACK then (XD3_INTERNAL, u\<lparr>msg := Some ''non-seekable source in decode''\<rparr>, inst)
         else (ret, u, inst))"
      using x(1) add r g by (simp add: output_source_copy_def Let_def not_le [symmetric])
    moreover have "unread s"
      using g x(1) cl False by (auto simp: unread_def xd3_getblk_def Let_def split: if_splits option.splits prod.splits) (metis fst_conv)+
    moreover have "ret \<noteq> XD3_INVALID_INPUT"
      using g x(1) win by (auto simp: xd3_getblk_def window_in_def Let_def split: if_splits option.splits prod.splits) (metis fst_conv)+
    ultimately show ?thesis using y(2) wu sf by (simp add: half_true_def)
  next
    case True
    let ?blk = "block_of file (unat (blksize x)) (unat b)"
    have blk: "curblk y = Some ?blk" "unat (onblk y) = length ?blk" using y(4) True by simp_all
    have enough: "\<not> (onblk y \<noteq> blksize x \<and> r + hi_size inst > onblk y)"
    proof
      assume n: "onblk y \<noteq> blksize x \<and> r + hi_size inst > onblk y"
      then have "length ?blk \<noteq> unat (blksize x)" using blk(2) by (metis word_unat_eq_iff)
      then have "length ?blk = length file - unat b * unat (blksize x)" by (auto simp: block_of_def)
      moreover have "unat (r + hi_size inst) \<le> unat r + ?z" by (simp add: unat_word_ariths)
      moreover have "unat (onblk y) < unat (r + hi_size inst)" using n by (simp add: word_less_nat_alt)
      moreover have "unat b * unat (blksize x) + unat r + ?z \<le> length file" using br(1) fits cw(1) len(1) by linarith
      ultimately show False using blk(2) by linarith
    qed
    obtain n h where part: "block_part (blksize x) r inst = (n, h)" by fastforce
    have onb: "length ?blk = unat (onblk y)" "onblk y \<le> blksize x"
      using blk(2) by (simp_all add: word_le_nat_alt) (simp add: block_of_def)
    have z62: "unat (hi_size inst) \<le> 2 ^ 62" using z by simp
    note bl = block_part_fits [OF part r onb source_ok_blksize_le [OF so] z62 enough]
    obtain ret2 t where w: "out_write (take (unat n) (drop (unat r) ?blk)) u = (ret2, t)" by fastforce
    have eq: "output_source_copy s inst = (ret2, t, h)"
      using x(1) add r g True blk(1) fu(1) enough part bl w
      by (simp add: output_source_copy_def Let_def not_less not_le [symmetric] del: de_Morgan_conj)
    have n: "unat n \<le> ?z" and ex: "exec_half ?seg h (fst (written s) @ take (unat n) (drop ?a ?seg), ds_buf (data_sect s)) =
        exec_half ?seg inst (fst (written s), ds_buf (data_sect s))"
      using exec_half_source_part [OF ty fits a len(2) part r] by blast+
    have bytes: "take (unat n) (drop (unat r) ?blk) = take (unat n) (drop ?a ?seg)"
      unfolding seg_of_def using br(1) bl n fits len(1) by (intro block_part_bytes) simp_all
    have "length (take (unat n) (drop (unat r) ?blk)) = unat n" using bl by simp
    with half_write [OF pu _ w] n fit fu wu y(2) bytes have k: "ret2 = XD3_OK" "src_true file t"
      "written t = (fst (written s) @ take (unat n) (drop ?a ?seg), ds_buf (data_sect s))" by simp_all
    have "src_fit (dec_cpylen s) h"
      using block_part_cases [OF part r] sf addr by (auto simp: src_fit_def)
    then show ?thesis using k ex eq written_snd [of s] by (cases "written s") (simp add: half_true_def)
  qed
qed

lemma output_halfinst_true:
  assumes "exec_pre s" and "window_in file s" and "copy_ok (dec_cpylen s) (avail_out s) inst"
    and "src_fit (dec_cpylen s) inst" and "hi_type inst \<noteq> XD3_NOOP"
  shows "half_true file s inst (xd3_decode_output_halfinst s inst)"
proof (cases "USIZE_T_OVERFLOW (avail_out s) (hi_size inst) \<or> avail_out s + hi_size inst > space_out s")
  case True
  have "unat (space_out s) < unat (avail_out s) + unat (hi_size inst)"
  proof (rule ccontr)
    assume le: "\<not> ?thesis"
    then have b: "unat (avail_out s) + unat (hi_size inst) < 2 ^ 64" using unat_bound_64 [of "space_out s"] by linarith
    then show False using True le unat_plus_64 [OF b] by (auto simp: USIZE_T_OVERFLOW_iff word_less_nat_alt)
  qed
  moreover have "unat (dec_tgtlen s) \<le> unat (space_out s)" using assms(2) by (simp add: window_in_def word_le_nat_alt)
  moreover have "length (fst (written s)) = unat (avail_out s)"
    using exec_pre_win [OF assms(1)] by (auto simp: written_def)
  ultimately have "too_long (dec_tgtlen s) (exec_half (seg_of file s) inst (written s))"
    using assms(5) by (intro exec_half_too_long) (simp add: pend_def)
  then show ?thesis
    using True assms(2,4) by (simp add: xd3_decode_output_halfinst_def half_true_def window_in_def)
next
  case False
  note fit = space_check [OF False]
  have win: "\<not> dec_win_ind s AND VCD_TARGET \<noteq> 0" "src_true file s" using assms(1,2) by (simp_all add: exec_pre_def window_in_def)
  consider "hi_type inst = XD3_RUN" | "hi_type inst = XD3_ADD" | (cpy) "XD3_CPY \<le> hi_type inst"
    "hi_type inst \<noteq> XD3_RUN" "hi_type inst \<noteq> XD3_ADD"
    using assms(5) copy_type_cases [of "hi_type inst"] by blast
  then show ?thesis
  proof cases
    case cpy
    then show ?thesis
      using False win output_source_copy_true [OF assms(1,2) cpy(1) assms(3,4) fit] output_target_copy_true [OF assms(1-3) cpy(1) fit]
      by (cases "hi_addr inst < dec_cpylen s") (simp_all add: xd3_decode_output_halfinst_def)
  qed (use False output_run_true [OF assms(1) win(2) _ fit] output_add_true [OF assms(1) win(2) _ fit] in
      \<open>simp_all add: xd3_decode_output_halfinst_def\<close>)
qed

lemma window_in_frame: "exec_frame s t \<Longrightarrow> src_true file t \<Longrightarrow> window_in file s \<Longrightarrow> window_in file t"
  by (frule exec_frame_fields) (auto simp: window_in_def exec_frame_fields)

lemma output_loop_true:
  "exec_pre s \<Longrightarrow> window_in file s \<Longrightarrow> copy_ok (dec_cpylen s) (avail_out s) inst \<Longrightarrow> src_fit (dec_cpylen s) inst \<Longrightarrow>
    half_true file s inst (output_halfinst_loop s inst)"
proof (induction s inst rule: output_halfinst_loop.induct)
  case (1 s inst)
  show ?case
  proof (cases "hi_type inst = XD3_NOOP")
    case True
    then show ?thesis using 1(3,5) by (simp add: output_halfinst_loop.simps half_true_def window_in_def)
  next
    case False
    obtain r u h where o: "xd3_decode_output_halfinst s inst = (r, u, h)" by (metis prod_cases3)
    have tr: "half_true file s inst (r, u, h)" using output_halfinst_true [OF 1(2-5) False] o by simp
    note fr = exec_frame_fields [OF output_halfinst_frame [OF o]]
    show ?thesis
    proof (cases "r = XD3_OK")
      case True
      have "half_ok s inst (r, u, h)" using output_halfinst_ok [OF 1(2,4) False] o by simp
      then have "exec_pre u" "copy_ok (dec_cpylen u) (avail_out u) h" using fr by (simp_all add: half_ok_def)
      moreover have "window_in file u" "src_fit (dec_cpylen u) h"
        using tr fr window_in_frame [OF output_halfinst_frame [OF o]] 1(3) by (simp_all add: half_true_def)
      ultimately have ih: "half_true file u h (output_halfinst_loop u h)"
        using 1(1) [OF False, of "(u, h)" u h] o True by simp
      have "seg_of file u = seg_of file s" "unread u = unread s" by (simp_all add: seg_of_def unread_def fr)
      then have "half_true file s inst (output_halfinst_loop u h)"
        using ih tr True fr by (auto simp: half_true_def split: prod.splits)
      then show ?thesis using o True False by (subst output_halfinst_loop.simps) simp
    next
      case fail: False
      then show ?thesis using o False tr by (subst output_halfinst_loop.simps) (simp add: xd3_try_def)
    qed
  qed
qed

section \<open>Parsing\<close>

lemma decode_address_dec:
  assumes "xd3_decode_address s here mode inp v = (ret, t, rest, a)"
  shows "if ret = XD3_OK then address_dec (acache s) here mode inp = Some (a, rest) \<and>
      t = s\<lparr>acache := xd3_update_cache (acache s) a\<rparr>
    else address_dec (acache s) here mode inp = None"
proof -
  obtain r m i x where d: "decode_address_value (acache s) here mode inp v = (r, m, i, x)" by (metis prod_cases4)
  obtain r' m' i' x' where d': "decode_address_value (acache s) here mode inp 0 = (r', m', i', x')" by (metis prod_cases4)
  have "r' = r \<and> (r = XD3_OK \<longrightarrow> i' = i \<and> x' = x)"
    using d d' by (auto simp: decode_address_value_def Let_def split: if_splits sum.splits list.splits)
  then show ?thesis using assms d d' by (auto simp: xd3_decode_address_def address_dec_def split: if_splits)
qed

text \<open>Parsing a half and executing it later is what the specification does at once; the parser refuses what
  would fail, or would make the window longer than announced.\<close>

lemma parse_half_true:
  fixes s :: xd3_decoder
  assumes tab: "table_ok s" and win: "window_in file s" and ty: "hi_type inst \<noteq> XD3_NOOP" "hi_type inst < 12"
    and sz: "hi_size inst = ucast sz" and maxpos: "dec_maxpos s = dec_cpylen s + dec_tgtlen s" and tgt: "unat (dec_tgtlen s) \<le> 2 ^ 26"
    and here: "dec_position s = of_nat (length (seg_of file s) + length out)"
    and p: "xd3_decode_parse_halfinst s inst = (ret, t, h)"
  shows "case read_half (hi_type inst) sz (ds_buf (inst_sect s)) of
      None \<Rightarrow> ret \<noteq> XD3_OK
    | Some (hs, rest) \<Rightarrow> \<exists>n. hs = [(hi_type inst, n)] \<and>
        (if ret = XD3_OK then ds_buf (inst_sect t) = rest \<and> src_fit (dec_cpylen s) h \<and>
           vstep (seg_of file s) (hi_type inst, n) (out, acache s, data, ds_buf (addr_sect s)) =
             map_option (\<lambda>(out', data'). (out', acache t, data', ds_buf (addr_sect t))) (exec_half (seg_of file s) h (out, data))
         else too_long (dec_tgtlen s) (vstep (seg_of file s) (hi_type inst, n) (out, acache s, data, ds_buf (addr_sect s))))"
proof (cases "read_half (hi_type inst) sz (ds_buf (inst_sect s))")
  case None
  then have "xd3_read_size (ds_buf (inst_sect s)) = Inl m \<Longrightarrow> hi_size inst = 0" for m
    using sz by (auto simp: read_half_def split: if_splits)
  then show ?thesis
    using None p ty(1) sz by (auto simp: read_half_def xd3_decode_parse_halfinst_def halfinst_size_def xd3_try_def split: if_splits sum.splits)
next
  case (Some q)
  let ?seg = "seg_of file s" and ?ty = "hi_type inst"
  have len: "length ?seg = unat (dec_cpylen s)" "unat (dec_cpylen s) < 2 ^ 62"
    using seg_of_length [OF win] seg_of_bound [OF win] by simp_all
  obtain n rest where q: "q = ([(?ty, n)], rest)"
    using Some ty(1) by (auto simp: read_half_def split: if_splits sum.splits)
  obtain s1 where 1: "halfinst_size s inst = (XD3_OK, s1, inst\<lparr>hi_size := n\<rparr>)"
    and s1: "s1 = s\<lparr>inst_sect := (inst_sect s)\<lparr>ds_buf := rest\<rparr>\<rparr>"
  proof (cases "sz = 0")
    case True
    then show ?thesis using that Some q sz ty(1) by (auto simp: read_half_def halfinst_size_def split: if_splits sum.splits)
  next
    case False
    have "unat (ucast sz :: usize_t) = unat sz" using unat_bound_8 [of sz]
      by (simp add: unsigned_ucast_eq unsigned_take_bit_eq take_bit_nat_eq_self)
    then have "(ucast sz :: usize_t) \<noteq> 0" using False by (metis unat_eq_0)
    then have "halfinst_size s inst = (XD3_OK, s, inst)" "n = ucast sz" "rest = ds_buf (inst_sect s)"
      using False Some q sz ty(1) by (simp_all add: read_half_def halfinst_size_def)
    then show ?thesis using that sz by simp
  qed
  have nh: "length ?seg + length out < 2 ^ 64 \<Longrightarrow> unat (dec_position s) = length ?seg + length out"
    using here by (simp add: unat_of_nat_64 del: of_nat_add)
  text \<open>The check of the position.\<close>
  have adv: "too_long (dec_tgtlen s) (exec_half ?seg g (out, data))"
    if "hi_size g = n" "hi_type g = ?ty" "dec_position s + n > dec_maxpos s" for g
  proof (rule exec_half_too_long, rule ccontr)
    assume "\<not> unat (dec_tgtlen s) < length (fst (out, data)) + unat (pend g)"
    then have le: "length out + unat n \<le> unat (dec_tgtlen s)" using that(1,2) ty(1) by (simp add: pend_def)
    then have "length ?seg + length out < 2 ^ 64" using len tgt by simp
    then have "unat (dec_position s) + unat n \<le> unat (dec_cpylen s) + unat (dec_tgtlen s)" using nh len le by simp
    moreover have "unat (dec_maxpos s) = unat (dec_cpylen s) + unat (dec_tgtlen s)"
      unfolding maxpos using len(2) tgt by (intro unat_plus_64) simp
    moreover have "unat (dec_position s + n) \<le> unat (dec_position s) + unat n" by (simp add: unat_word_ariths)
    ultimately show False using that(3) by (simp add: word_less_nat_alt)
  qed
  have s1f: "dec_position s1 = dec_position s" "addr_sect s1 = addr_sect s" "acache s1 = acache s"
    "dec_cpylen s1 = dec_cpylen s" "ds_buf (inst_sect s1) = rest" "dec_maxpos s1 = dec_maxpos s" by (simp_all add: s1)
  have pa: "(ret, t, h) = xd3_try (halfinst_address s1 (inst\<lparr>hi_size := n\<rparr>)) (\<lambda>(s, inst). halfinst_advance s inst)"
    using p 1 by (simp add: xd3_decode_parse_halfinst_def)
  show ?thesis
  proof (cases "XD3_CPY \<le> ?ty")
    case cpy: True
    obtain r u addr' a where d: "xd3_decode_address s1 (dec_position s) (ucast (?ty - XD3_CPY)) (ds_buf (addr_sect s)) (hi_addr inst) =
      (r, u, addr', a)" by (metis prod_cases4)
    let ?g = "inst\<lparr>hi_size := n, hi_addr := a\<rparr>" and ?dec = "address_dec (acache s) (dec_position s) (ucast (?ty - XD3_CPY)) (ds_buf (addr_sect s))"
    have v: "vstep ?seg (?ty, n) (out, acache s, data, ds_buf (addr_sect s)) =
        (case ?dec of None \<Rightarrow> None | Some (a, addr') \<Rightarrow>
           map_option (\<lambda>(out', data'). (out', xd3_update_cache (acache s) a, data', addr'))
             (exec_half ?seg \<lparr>hi_type = ?ty, hi_size = n, hi_addr = a\<rparr> (out, data)))"
      using vstep_exec [OF ty(1), of ?seg n out "acache s" data "ds_buf (addr_sect s)"] cpy here by (simp del: of_nat_add)
    have g: "\<lparr>hi_type = ?ty, hi_size = n, hi_addr = a\<rparr> = ?g" by simp
    note dd = decode_address_dec [OF d]
    show ?thesis
    proof (cases "r = XD3_OK")
      case False
      then have "halfinst_address s1 (inst\<lparr>hi_size := n\<rparr>) = (r, u\<lparr>addr_sect := (addr_sect u)\<lparr>ds_buf := addr'\<rparr>\<rparr>, ?g)"
        using cpy d by (simp add: halfinst_address_def s1f Let_def)
      then have "ret = r" using False pa by (simp add: xd3_try_fail)
      moreover have "?dec = None" using dd False by (simp add: s1f)
      moreover note False
      ultimately have "ret \<noteq> XD3_OK" "?dec = None" by simp_all
      then show ?thesis using Some q v by simp
    next
      case True
      then have dec: "?dec = Some (a, addr')" and u: "u = s1\<lparr>acache := xd3_update_cache (acache s) a\<rparr>" using dd by (simp_all add: s1f)
      define u' where "u' = u\<lparr>addr_sect := (addr_sect s)\<lparr>ds_buf := addr'\<rparr>\<rparr>"
      have pe: "(ret, t, h) = (if a \<ge> dec_position s then (XD3_INVALID_INPUT, u'\<lparr>msg := Some ''address too large''\<rparr>, ?g)
          else if a < dec_cpylen s \<and> a + n > dec_cpylen s then (XD3_INVALID_INPUT, u'\<lparr>msg := Some ''size too large''\<rparr>, ?g)
          else halfinst_advance u' ?g)"
      proof -
        have "halfinst_address s1 (inst\<lparr>hi_size := n\<rparr>) =
           (if a \<ge> dec_position s then (XD3_INVALID_INPUT, u'\<lparr>msg := Some ''address too large''\<rparr>, ?g)
            else if a < dec_cpylen s \<and> a + n > dec_cpylen s then (XD3_INVALID_INPUT, u'\<lparr>msg := Some ''size too large''\<rparr>, ?g)
            else (XD3_OK, u', ?g))"
          using cpy d True by (simp add: halfinst_address_def s1f Let_def u u'_def)
        then show ?thesis using pa by (simp add: xd3_try_fail split: if_splits)
      qed
      have u'f: "dec_position u' = dec_position s" "dec_maxpos u' = dec_maxpos s" "ds_buf (inst_sect u') = rest"
          "acache u' = xd3_update_cache (acache s) a" "ds_buf (addr_sect u') = addr'" by (simp_all add: u'_def u s1)
      have v': "vstep ?seg (?ty, n) (out, acache s, data, ds_buf (addr_sect s)) =
          map_option (\<lambda>(out', data'). (out', xd3_update_cache (acache s) a, data', addr')) (exec_half ?seg ?g (out, data))"
        using v dec g by simp
      have map_long: "too_long (dec_tgtlen s) (exec_half ?seg ?g (out, data)) \<Longrightarrow>
          too_long (dec_tgtlen s) (vstep ?seg (?ty, n) (out, acache s, data, ds_buf (addr_sect s)))"
        unfolding v' by (auto simp: too_long_def)
      have nn: "?ty \<noteq> XD3_NOOP" "?ty \<noteq> XD3_ADD" "?ty \<noteq> XD3_RUN" using cpy by (auto simp: word_le_nat_alt)
      consider (far) "a \<ge> dec_position s" | (cut) "\<not> a \<ge> dec_position s" "a < dec_cpylen s \<and> a + n > dec_cpylen s"
        | (pos) "\<not> a \<ge> dec_position s" "\<not> (a < dec_cpylen s \<and> a + n > dec_cpylen s)" "dec_position s + n > dec_maxpos s"
        | (ok) "\<not> a \<ge> dec_position s" "\<not> (a < dec_cpylen s \<and> a + n > dec_cpylen s)" "\<not> dec_position s + n > dec_maxpos s"
        by blast
      then show ?thesis
      proof cases
        case far
        have "too_long (dec_tgtlen s) (exec_half ?seg ?g (out, data))"
        proof (cases "length ?seg + length out < 2 ^ 64")
          case True
          then show ?thesis using nh far nn by (simp add: exec_half_def word_le_nat_alt)
        next
          case False
          then have "unat (dec_tgtlen s) < length out" using len tgt by simp
          then show ?thesis by (intro exec_half_too_long) simp
        qed
        then show ?thesis using far pe Some q map_long by simp
      next
        case cut
        have "unat (a + n) \<le> unat a + unat n" by (simp add: unat_word_ariths)
        then have "exec_half ?seg ?g (out, data) = None" using cut nn len by (simp add: exec_half_def word_less_nat_alt)
        then show ?thesis using cut pe Some q v' by simp
      next
        case pos
        then have "ret = XD3_INVALID_INPUT" using pe by (auto simp: halfinst_advance_def u'f)
        moreover have "too_long (dec_tgtlen s) (exec_half ?seg ?g (out, data))" using adv [of ?g] pos(3) by simp
        ultimately show ?thesis using Some q map_long by simp
      next
        case ok
        then have t: "ret = XD3_OK" "h = ?g" "t = u'\<lparr>dec_position := dec_position s + n\<rparr>"
          using pe by (auto simp: halfinst_advance_def u'f)
        have "src_fit (dec_cpylen s) ?g" using ok(2) by (auto simp: src_fit_def)
        then show ?thesis using t Some q v' by (simp add: u'f)
      qed
    qed
  next
    case False
    let ?g = "inst\<lparr>hi_size := n\<rparr>"
    have "\<lparr>hi_type = ?ty, hi_size = n, hi_addr = hi_addr inst\<rparr> = ?g" by simp
    have v: "vstep ?seg (?ty, n) (out, acache s, data, ds_buf (addr_sect s)) =
        map_option (\<lambda>(out', data'). (out', acache s, data', ds_buf (addr_sect s))) (exec_half ?seg ?g (out, data))"
      using vstep_exec [OF ty(1), of ?seg n out "acache s" data "ds_buf (addr_sect s)" "hi_addr inst"] False
      by (simp add: \<open>\<lparr>hi_type = ?ty, hi_size = n, hi_addr = hi_addr inst\<rparr> = ?g\<close>)
    have pe: "(ret, t, h) = halfinst_advance s1 ?g"
      using pa False by (simp add: halfinst_address_def)
    show ?thesis
    proof (cases "dec_position s + n > dec_maxpos s")
      case True
      then have "too_long (dec_tgtlen s) (vstep ?seg (?ty, n) (out, acache s, data, ds_buf (addr_sect s)))"
        using adv [of ?g] unfolding v by (auto simp: too_long_def)
      then show ?thesis using True pe Some q by (simp add: halfinst_advance_def s1f)
    next
      case ok: False
      have "src_fit (dec_cpylen s) ?g" using False by (simp add: src_fit_def)
      then show ?thesis using ok pe Some q v by (simp add: halfinst_advance_def s1f)
    qed
  qed
qed

end
