(* ===== verification/Xd3_Decode_Window.thy ===== *)
theory Xd3_Decode_Window
  imports Xd3_Decode_Exec
begin

text \<open>
  The decoder computes what the sections of a window denote.  The invariant is that the instructions
  pending in the stream and those still in the section, executed from the output so far, have the same
  value before and after each step; a step fails only if that value is no window of the announced length.
\<close>

section \<open>The window\<close>

text \<open>What is still to come: the instructions pending, then those in the section, from the output so far.\<close>

definition future :: "uint8 list \<Rightarrow> xd3_decoder \<Rightarrow> vstate option" where
  "future file s =
     Option.bind (exec_half (seg_of file s) (dec_current1 s) (written s)) (\<lambda>p.
     Option.bind (exec_half (seg_of file s) (dec_current2 s) p) (\<lambda>(out, data).
     Option.bind (halves (ds_buf (inst_sect s))) (\<lambda>hs.
       vrun (seg_of file s) hs (out, acache s, data, ds_buf (addr_sect s)))))"

definition executing :: "uint8 list \<Rightarrow> xd3_decoder \<Rightarrow> bool" where
  "executing file s \<longleftrightarrow> emit_inv s \<and> window_in file s \<and> code_table s = rfc3284_code_table \<and>
     dec_maxpos s = dec_cpylen s + dec_tgtlen s \<and>
     src_fit (dec_cpylen s) (dec_current1 s) \<and> src_fit (dec_cpylen s) (dec_current2 s)"

definition step_true :: "uint8 list \<Rightarrow> xd3_decoder \<Rightarrow> xd3_rvalue \<times> xd3_decoder \<Rightarrow> bool" where
  "step_true file s res \<longleftrightarrow>
     (case res of (ret, t) \<Rightarrow>
        dec_tgtlen t = dec_tgtlen s \<and> unread t = unread s \<and> (ret \<in> {XD3_OK, XD3_INVALID_INPUT} \<or> unread s) \<and>
        (if ret = XD3_INVALID_INPUT then too_long (dec_tgtlen s) (future file s)
         else executing file t \<and> future file t = future file s))"

lemma too_long_bind:
  assumes "too_long n v" and "\<And>out w out' w'. f (out, w) = Some (out', w') \<Longrightarrow> length out \<le> length out'"
  shows "too_long n (Option.bind v f)"
  using assms by (cases v) (fastforce simp: too_long_def)+

lemma too_long_run: "too_long n v \<Longrightarrow> too_long n (Option.bind v (\<lambda>(out, data). Option.bind x (\<lambda>hs. vrun seg hs (out, c, data, addr))))"
  by (rule too_long_bind) (auto dest: vrun_length split: Option.bind_splits)

lemma too_long_half: "too_long n v \<Longrightarrow> too_long n (Option.bind v (exec_half seg h))"
  by (rule too_long_bind) (auto dest: exec_half_length)

lemma bind_assoc2: "Option.bind x (\<lambda>p. Option.bind (f p) g) = Option.bind (Option.bind x f) g"
  by (cases x) simp_all

lemma executing_exec: "executing file s \<Longrightarrow> exec_pre s \<and> table_ok s \<and> window_in file s"
  by (simp add: executing_def emit_inv_def)

lemma output_current1_true:
  assumes ex: "executing file s" and o: "output_current1 s = (ret, t)"
  shows "step_true file s (ret, t)"
proof -
  obtain u h where u: "output_halfinst_loop s (dec_current1 s) = (ret, u, h)" "t = u\<lparr>dec_current1 := h\<rparr>"
    using o by (auto simp: output_current1_def split: prod.splits)
  have i: "emit_inv s" "window_in file s" "src_fit (dec_cpylen s) (dec_current1 s)" using ex by (simp_all add: executing_def)
  then have tr: "half_true file s (dec_current1 s) (ret, u, h)"
    using output_loop_true [where s = s and inst = "dec_current1 s"] u(1) by (simp add: emit_inv_def)
  note f = exec_frame_fields [OF output_halfinst_loop_frame [OF u(1)]]
  have fr: "exec_frame s u" by (rule output_halfinst_loop_frame [OF u(1)])
  then have mp: "dec_maxpos u = dec_maxpos s" by (auto simp: exec_frame_def)
  have inv: "emit_inv t" using output_current1_ok [OF i(1) o] by simp
  have win: "window_in file u" using tr i(2) window_in_frame [OF fr] by (simp add: half_true_def)
  have seg: "seg_of file u = seg_of file s" "seg_of file t = seg_of file s" by (simp_all add: seg_of_def f u(2))
  have "unread t = unread s" by (simp add: unread_def u(2) f)
  moreover have "executing file t"
    using inv win ex tr by (simp add: executing_def window_in_def u(2) f mp half_true_def)
  moreover have "too_long (dec_tgtlen s) (future file s)" if "ret = XD3_INVALID_INPUT"
    using tr that unfolding future_def bind_assoc2 by (intro too_long_run too_long_half) (simp add: half_true_def)
  moreover have "future file t = future file s" if "ret \<noteq> XD3_INVALID_INPUT"
    using tr that unfolding future_def seg by (simp add: half_true_def u(2) f)
  ultimately show ?thesis using tr by (simp add: step_true_def half_true_def u(2) f)
qed

lemma output_current2_true:
  assumes ex: "executing file s" and noop: "hi_type (dec_current1 s) = XD3_NOOP" and o: "output_current2 s = (ret, t)"
  shows "step_true file s (ret, t)"
proof -
  obtain u h where u: "output_halfinst_loop s (dec_current2 s) = (ret, u, h)" "t = u\<lparr>dec_current2 := h\<rparr>"
    using o by (auto simp: output_current2_def split: prod.splits)
  have i: "emit_inv s" "window_in file s" "src_fit (dec_cpylen s) (dec_current2 s)" using ex by (simp_all add: executing_def)
  have "pend (dec_current1 s) = 0" using noop by (simp add: pend_def)
  then have tr: "half_true file s (dec_current2 s) (ret, u, h)"
    using output_loop_true [where s = s and inst = "dec_current2 s"] u(1) i by (simp add: emit_inv_def)
  note f = exec_frame_fields [OF output_halfinst_loop_frame [OF u(1)]]
  have fr: "exec_frame s u" by (rule output_halfinst_loop_frame [OF u(1)])
  then have mp: "dec_maxpos u = dec_maxpos s" by (auto simp: exec_frame_def)
  have inv: "emit_inv t" using output_current2_ok [OF i(1) noop o] by simp
  have win: "window_in file u" using tr i(2) window_in_frame [OF fr] by (simp add: half_true_def)
  have seg: "seg_of file u = seg_of file s" "seg_of file t = seg_of file s" by (simp_all add: seg_of_def f u(2))
  have "unread t = unread s" by (simp add: unread_def u(2) f)
  moreover have "executing file t"
    using inv win ex tr by (simp add: executing_def window_in_def u(2) f mp half_true_def)
  moreover have "too_long (dec_tgtlen s) (future file s)" if "ret = XD3_INVALID_INPUT"
    using tr that noop unfolding future_def by (simp, intro too_long_run) (simp add: half_true_def)
  moreover have "future file t = future file s" if "ret \<noteq> XD3_INVALID_INPUT"
    using tr that noop unfolding future_def seg by (simp add: half_true_def u(2) f)
  ultimately show ?thesis using tr by (simp add: step_true_def half_true_def u(2) f)
qed

lemma parse_frame_window:
  assumes "parse_frame s t"
  shows "written t = written s" "window_in file t = window_in file s" "seg_of file t = seg_of file s"
    "dec_maxpos t = dec_maxpos s" "dec_tgtlen t = dec_tgtlen s" "unread t = unread s"
proof -
  obtain m c i a p where t: "t = s\<lparr>msg := m, acache := c, inst_sect := (inst_sect s)\<lparr>ds_buf := i\<rparr>,
      addr_sect := (addr_sect s)\<lparr>ds_buf := a\<rparr>, dec_position := p\<rparr>"
    using assms by (auto simp: parse_frame_def)
  show "written t = written s" by (subst written_cong [where s = s]) (simp_all add: t prod_eq_iff)
  show "window_in file t = window_in file s" "seg_of file t = seg_of file s"
    "dec_maxpos t = dec_maxpos s" "dec_tgtlen t = dec_tgtlen s" "unread t = unread s"
    by (simp_all add: t window_in_def src_true_def seg_of_def unread_def)
qed

lemma window_in_cong: "src t = src s \<Longrightarrow> getblk t = getblk s \<Longrightarrow> dec_tgtlen t = dec_tgtlen s \<Longrightarrow> space_out t = space_out s \<Longrightarrow>
    dec_cpylen t = dec_cpylen s \<Longrightarrow> dec_cpyoff t = dec_cpyoff s \<Longrightarrow> window_in file t = window_in file s"
  by (simp add: window_in_def src_true_def)

text \<open>The value of a window that begins with a given instruction.\<close>

lemma future_code:
  assumes "ds_buf (inst_sect s) = b # rest" and "\<not> insts_pending s"
  shows "future file s = Option.bind (read_code b rest) (\<lambda>(hs, rest').
      Option.bind (halves rest') (\<lambda>hs'. vrun (seg_of file s) (hs @ hs') (fst (written s), acache s, ds_buf (data_sect s), ds_buf (addr_sect s))))"
proof -
  have "hi_type (dec_current1 s) = XD3_NOOP" "hi_type (dec_current2 s) = XD3_NOOP" using assms(2) by (simp_all add: insts_pending_def)
  then have "future file s = Option.bind (halves (b # rest)) (\<lambda>hs.
      vrun (seg_of file s) hs (fst (written s), acache s, ds_buf (data_sect s), ds_buf (addr_sect s)))"
    using assms(1) by (simp add: future_def split: prod.splits) (metis fst_conv snd_conv written_snd)
  also have "\<dots> = Option.bind (read_code b rest) (\<lambda>(hs, rest').
      Option.bind (halves rest') (\<lambda>hs'. vrun (seg_of file s) (hs @ hs') (fst (written s), acache s, ds_buf (data_sect s), ds_buf (addr_sect s))))"
    by (cases "read_code b rest") (auto simp: split: option.splits prod.splits Option.bind_splits)
  finally show ?thesis .
qed

lemma bind_vrun_Cons: "Option.bind x (\<lambda>hs. vrun seg (h # f hs) v) = Option.bind (vstep seg h v) (\<lambda>v. Option.bind x (\<lambda>hs. vrun seg (f hs) v))"
  by (cases x; cases "vstep seg h v") simp_all

lemma too_long_Cons:
  assumes "too_long n (vstep seg h v)"
  shows "too_long n (Option.bind x (\<lambda>hs. vrun seg (h # f hs) v))"
  unfolding bind_vrun_Cons using assms by (rule too_long_bind) (auto dest: vrun_length split: Option.bind_splits)

lemma decode_instruction_true:
  assumes ex: "executing file s" and np: "\<not> insts_pending s" and Cons: "ds_buf (inst_sect s) = b # rest"
    and d: "xd3_decode_instruction s = (ret, t)"
  shows "step_true file s (ret, t)"
proof -
  have inv: "emit_inv s" and win: "window_in file s" and tab: "table_ok s" and pre: "exec_pre s"
    and code: "code_table s = rfc3284_code_table" and maxpos: "dec_maxpos s = dec_cpylen s + dec_tgtlen s"
    using ex by (simp_all add: executing_def emit_inv_def)
  have tgt: "unat (dec_tgtlen s) \<le> 2 ^ 26"
  proof -
    have "unat (dec_tgtlen s) \<le> unat (space_out s)" "unat (space_out s) \<le> 0x4000000"
      using win pre by (simp_all add: window_in_def exec_pre_def win_ok_def word_le_nat_alt)
    then show ?thesis by simp
  qed
  have inv': "ret \<in> {XD3_OK, XD3_INVALID_INPUT} \<and> (ret = XD3_OK \<longrightarrow> emit_inv t)"
    by (rule decode_instruction_ok [OF inv np d])
  let ?i = "rfc3284_code_table ! unat b" and ?seg = "seg_of file s"
  define out where "out = fst (written s)"
  define data where "data = ds_buf (data_sect s)"
  have wr: "written s = (out, data)" by (simp add: out_def data_def prod_eq_iff)
  have len: "length ?seg = unat (dec_cpylen s)" "length out = unat (avail_out s)"
    using seg_of_length [OF win] exec_pre_win [OF pre] by (auto simp: written_def out_def)
  have pos: "dec_position s = dec_cpylen s + avail_out s"
    using inv np by (simp add: emit_inv_def insts_pending_def pend_def)
  have bl: "unat b < length rfc3284_code_table" using tab code unat_bound_8 [of b] by (simp add: table_ok_def)
  then have "dinst_ok ?i" using table_entries_ok by (simp add: list_all_length)
  then have ty: "type1 ?i < 12" "type2 ?i < 12" "type1 ?i \<noteq> XD3_NOOP" by (simp_all add: dinst_ok_def)
  define h1 where "h1 = (dec_current1 s)\<lparr>hi_type := type1 ?i, hi_size := ucast (size1 ?i)\<rparr>"
  define h2 where "h2 = (dec_current2 s)\<lparr>hi_type := type2 ?i, hi_size := ucast (size2 ?i)\<rparr>"
  define s1 where "s1 = s\<lparr>inst_sect := (inst_sect s)\<lparr>ds_buf := rest\<rparr>, dec_current1 := h1, dec_current2 := h2\<rparr>"
  have s1: "table_ok s1" "window_in file s1" "seg_of file s1 = ?seg" "written s1 = written s" "acache s1 = acache s"
    "addr_sect s1 = addr_sect s" "dec_maxpos s1 = dec_cpylen s1 + dec_tgtlen s1" "dec_tgtlen s1 = dec_tgtlen s"
    "ds_buf (inst_sect s1) = rest" "dec_position s1 = of_nat (length ?seg + length out)" "dec_cpylen s1 = dec_cpylen s"
    "data_sect s1 = data_sect s" "unread s1 = unread s" "dec_current1 s1 = h1" "dec_current2 s1 = h2" "code_table s1 = code_table s"
    using tab win window_in_cong [of s1 s] pos len maxpos written_cong [of s1 s]
    by (simp_all add: s1_def table_ok_def seg_of_def unread_def prod_eq_iff)
  obtain r2 u2 g1 where p1: "xd3_decode_parse_halfinst s1 h1 = (r2, u2, g1)" by (metis prod_cases3)
  have k1: "parse_ok s1 h1 (r2, u2, g1)"
    using parse_halfinst_ok [OF s1(1), of h1] ty p1 by (simp add: h1_def)
  have hf: "hi_type h1 = type1 ?i" "hi_size h1 = ucast (size1 ?i)" "hi_type h2 = type2 ?i" "hi_size h2 = ucast (size2 ?i)"
    by (simp_all add: h1_def h2_def)
  have t1: "case read_half (type1 ?i) (size1 ?i) rest of
      None \<Rightarrow> r2 \<noteq> XD3_OK
    | Some (hs, rest) \<Rightarrow> \<exists>n. hs = [(type1 ?i, n)] \<and>
        (if r2 = XD3_OK then ds_buf (inst_sect u2) = rest \<and> src_fit (dec_cpylen s) g1 \<and>
           vstep ?seg (type1 ?i, n) (out, acache s, data, ds_buf (addr_sect s)) =
             map_option (\<lambda>(out', data'). (out', acache u2, data', ds_buf (addr_sect u2))) (exec_half ?seg g1 (out, data))
         else too_long (dec_tgtlen s) (vstep ?seg (type1 ?i, n) (out, acache s, data, ds_buf (addr_sect s))))"
  proof -
    have n: "hi_type h1 \<noteq> XD3_NOOP" "hi_type h1 < 12" "unat (dec_tgtlen s1) \<le> 2 ^ 26"
      "dec_position s1 = of_nat (length (seg_of file s1) + length out)" using ty hf tgt s1 by simp_all
    show ?thesis
      using parse_half_true [OF s1(1,2) n(1,2) hf(2) s1(7) n(3,4) p1, of data] unfolding hf s1(3,5,6,8,9,11) .
  qed
  define s2 where "s2 = u2\<lparr>dec_current1 := g1\<rparr>"
  have go: "(ret, t) = xd3_try (r2, s2)
      (\<lambda>s. if type2 ?i \<noteq> XD3_NOOP then parse_current2 s else (XD3_OK, s))"
    using d Cons bl ty(3) p1
    by (simp add: xd3_decode_instruction_def Let_def parse_current1_def code s1_def s2_def h1_def h2_def)
  have f1: "parse_frame s1 u2" using k1 by (simp add: parse_ok_def)
  note u2f = parse_frame_fields [OF f1] parse_frame_window [OF f1]
  have fut: "future file s = Option.bind (read_code b rest) (\<lambda>(hs, rest').
      Option.bind (halves rest') (\<lambda>hs'. vrun ?seg (hs @ hs') (out, acache s, data, ds_buf (addr_sect s))))"
    using future_code [OF Cons np] wr by (simp add: data_def)
  have un: "unread s2 = unread s" using u2f s1 by (simp add: s2_def unread_def)
  show ?thesis
  proof (cases "r2 = XD3_OK")
    case False
    have "too_long (dec_tgtlen s) (future file s)"
    proof (cases "read_half (type1 ?i) (size1 ?i) rest")
      case None
      then show ?thesis by (simp add: fut read_code_def)
    next
      case (Some q)
      then obtain n r where q: "q = ([(type1 ?i, n)], r)"
        and l: "too_long (dec_tgtlen s) (vstep ?seg (type1 ?i, n) (out, acache s, data, ds_buf (addr_sect s)))"
        using t1 False by (auto split: prod.splits)
      show ?thesis
      proof (cases "read_half (type2 ?i) (size2 ?i) r")
        case None
        then show ?thesis using Some q by (simp add: fut read_code_def)
      next
        case two: (Some p)
        then show ?thesis using Some q too_long_Cons [OF l, of "halves (snd p)" "(@) (fst p)"]
          by (cases p) (simp add: fut read_code_def)
      qed
    qed
    moreover have "ret = XD3_INVALID_INPUT" "t = s2" using False go inv' by (auto simp: xd3_try_fail)
    ultimately show ?thesis using un by (simp add: step_true_def s2_def u2f s1)
  next
    case True
    then obtain n r where one: "read_half (type1 ?i) (size1 ?i) rest = Some ([(type1 ?i, n)], r)"
      and inst2: "ds_buf (inst_sect u2) = r" and sf1: "src_fit (dec_cpylen s) g1"
      and v1: "vstep ?seg (type1 ?i, n) (out, acache s, data, ds_buf (addr_sect s)) =
             map_option (\<lambda>(out', data'). (out', acache u2, data', ds_buf (addr_sect u2))) (exec_half ?seg g1 (out, data))"
      using t1 by (auto split: option.splits prod.splits)
    have g1: "hi_type g1 = type1 ?i" "dec_position u2 = dec_position s1 + hi_size g1" "table_ok u2"
      using k1 True hf by (simp_all add: parse_ok_def)
    have s2: "dec_current1 s2 = g1" "dec_current2 s2 = h2" "written s2 = (out, data)" "seg_of file s2 = ?seg"
      "window_in file s2" "dec_maxpos s2 = dec_cpylen s2 + dec_tgtlen s2" "dec_cpylen s2 = dec_cpylen s" "dec_tgtlen s2 = dec_tgtlen s"
      "code_table s2 = rfc3284_code_table" "table_ok s2" "acache s2 = acache u2" "ds_buf (addr_sect s2) = ds_buf (addr_sect u2)"
      "ds_buf (inst_sect s2) = r" "dec_position s2 = of_nat (length ?seg + length out) + hi_size g1"
      using u2f s1 wr inst2 g1 window_in_cong [of s2 u2] code by (simp_all add: s2_def seg_of_def table_ok_def)
    show ?thesis
    proof (cases "type2 ?i = XD3_NOOP")
      case noop: True
      then have rc: "read_code b rest = Some ([(type1 ?i, n)], r)" using one by (simp add: read_code_def read_half_def)
      have t: "ret = XD3_OK" "t = s2" using go True noop by simp_all
      have h2n: "hi_type h2 = XD3_NOOP" using noop hf by simp
      have "future file s = Option.bind (vstep ?seg (type1 ?i, n) (out, acache s, data, ds_buf (addr_sect s)))
          (\<lambda>v. Option.bind (halves r) (\<lambda>hs. vrun ?seg hs v))"
        using bind_vrun_Cons [of "halves r" ?seg "(type1 ?i, n)" "\<lambda>hs. hs"] by (simp add: fut rc)
      then have "future file t = future file s"
        unfolding v1 t(2) future_def s2 by (cases "exec_half ?seg g1 (out, data)") (auto simp: h2n)
      moreover have "executing file t" using inv' t s2 sf1 h2n by (simp add: executing_def src_fit_def)
      ultimately show ?thesis using t s2 un by (simp add: step_true_def)
    next
      case False
      obtain r3 u3 g2 where p2: "xd3_decode_parse_halfinst s2 h2 = (r3, u3, g2)" by (metis prod_cases3)
      have k2: "parse_ok s2 h2 (r3, u3, g2)"
        using parse_halfinst_ok [OF s2(10), of h2] ty p2 hf by simp
      have t: "ret = r3" "t = u3\<lparr>dec_current2 := g2\<rparr>"
        using go True False p2 s2(2) by (simp_all add: parse_current2_def)
      have f2: "parse_frame s2 u3" using k2 by (simp add: parse_ok_def)
      note u3f = parse_frame_fields [OF f2] parse_frame_window [OF f2]
      have tf: "dec_current1 t = g1" "dec_current2 t = g2" "written t = (out, data)" "seg_of file t = ?seg" "window_in file t"
        "dec_maxpos t = dec_cpylen t + dec_tgtlen t" "dec_cpylen t = dec_cpylen s" "dec_tgtlen t = dec_tgtlen s"
        "code_table t = rfc3284_code_table" "acache t = acache u3" "ds_buf (addr_sect t) = ds_buf (addr_sect u3)"
        "ds_buf (inst_sect t) = ds_buf (inst_sect u3)"
        using u3f s2 window_in_cong [of t u3] by (simp_all add: t(2) seg_of_def)
      have unt: "unread t = unread s" using u3f un by (simp add: t(2) unread_def)
      have whole: "future file s = Option.bind (read_half (type2 ?i) (size2 ?i) r) (\<lambda>(h2, r2).
          Option.bind (Option.bind (exec_half ?seg g1 (out, data)) (\<lambda>(o1, d1). Some (o1, acache u2, d1, ds_buf (addr_sect u2))))
            (\<lambda>v. Option.bind (halves r2) (\<lambda>hs. vrun ?seg (h2 @ hs) v)))"
      proof (cases "read_half (type2 ?i) (size2 ?i) r")
        case None
        then show ?thesis using one by (simp add: fut read_code_def)
      next
        case (Some p)
        then show ?thesis using one bind_vrun_Cons [of "halves (snd p)" ?seg "(type1 ?i, n)" "(@) (fst p)"] v1
          by (cases p; cases "exec_half ?seg g1 (out, data)") (simp_all add: fut read_code_def split: prod.splits)
      qed
      have t2: "case read_half (type2 ?i) (size2 ?i) r of
          None \<Rightarrow> r3 \<noteq> XD3_OK
        | Some (hs, rest) \<Rightarrow> \<exists>n. hs = [(type2 ?i, n)] \<and>
            (if r3 = XD3_OK then ds_buf (inst_sect u3) = rest \<and> src_fit (dec_cpylen s) g2 \<and>
               vstep ?seg (type2 ?i, n) (o1, acache u2, d1, ds_buf (addr_sect u2)) =
                 map_option (\<lambda>(out', data'). (out', acache u3, data', ds_buf (addr_sect u3))) (exec_half ?seg g2 (o1, d1))
             else too_long (dec_tgtlen s) (vstep ?seg (type2 ?i, n) (o1, acache u2, d1, ds_buf (addr_sect u2))))"
        if "dec_position s2 = of_nat (length ?seg + length o1)" for o1 d1
      proof -
        have n: "hi_type h2 \<noteq> XD3_NOOP" "hi_type h2 < 12" "unat (dec_tgtlen s2) \<le> 2 ^ 26"
          "dec_position s2 = of_nat (length (seg_of file s2) + length o1)" using False ty hf tgt that s2(4,8) by simp_all
        show ?thesis
          using parse_half_true [OF s2(10,5) n(1,2) hf(4) s2(6) n(3,4) p2, of d1] unfolding hf s2(4,7,8,11,12,13) .
      qed
      have ok2: "src_fit (dec_cpylen s) g2 \<and> (\<exists>n. read_half (type2 ?i) (size2 ?i) r = Some ([(type2 ?i, n)], ds_buf (inst_sect u3)))" if "r3 = XD3_OK"
      proof -
        let ?o = "replicate (unat (of_nat (length out) + hi_size g1)) 0"
        have "dec_position s2 = of_nat (length ?seg + length ?o)" using s2(14) by simp
        from t2 [OF this, of "[]"] that show ?thesis
          by (cases "read_half (type2 ?i) (size2 ?i) r") auto
      qed
      have exec: "executing file t" if "ret = XD3_OK"
        using ok2 inv' that t(1) tf sf1 by (simp add: executing_def)
      have fin: "future file t = Option.bind (exec_half ?seg g1 (out, data)) (\<lambda>p. Option.bind (exec_half ?seg g2 p) (\<lambda>(o2, d2).
          Option.bind (halves (ds_buf (inst_sect u3))) (\<lambda>hs. vrun ?seg hs (o2, acache u3, d2, ds_buf (addr_sect u3)))))"
        by (simp add: future_def tf)
      show ?thesis
      proof (cases "exec_half ?seg g1 (out, data)")
        case None
        then have "future file s = None" unfolding whole by (cases "read_half (type2 ?i) (size2 ?i) r") auto
        moreover have "future file t = None" using None by (simp add: fin)
        ultimately show ?thesis using exec inv' tf unt by (auto simp: step_true_def)
      next
        case (Some q)
        obtain o1 d1 where q: "q = (o1, d1)" by fastforce
        have "length o1 = length out + unat (hi_size g1)"
          using exec_half_length [OF Some [unfolded q]] g1(1) ty(3) by (simp add: pend_def)
        then have here: "dec_position s2 = of_nat (length ?seg + length o1)" using s2(14) by simp
        show ?thesis
        proof (cases "r3 = XD3_OK")
          case True
          then obtain n where two: "read_half (type2 ?i) (size2 ?i) r = Some ([(type2 ?i, n)], ds_buf (inst_sect u3))" using ok2 by blast
          have v2: "vstep ?seg (type2 ?i, n) (o1, acache u2, d1, ds_buf (addr_sect u2)) =
              map_option (\<lambda>(out', data'). (out', acache u3, data', ds_buf (addr_sect u3))) (exec_half ?seg g2 (o1, d1))"
            using t2 [OF here, of d1] two True by simp
          have "future file s = Option.bind (vstep ?seg (type2 ?i, n) (o1, acache u2, d1, ds_buf (addr_sect u2)))
              (\<lambda>v. Option.bind (halves (ds_buf (inst_sect u3))) (\<lambda>hs. vrun ?seg hs v))"
            using bind_vrun_Cons [of "halves (ds_buf (inst_sect u3))" ?seg "(type2 ?i, n)" "\<lambda>hs. hs"]
            by (simp add: whole two Some q)
          then have "future file t = future file s"
            unfolding v2 fin Some q by (cases "exec_half ?seg g2 (o1, d1)") auto
          then show ?thesis using exec t True tf unt by (simp add: step_true_def)
        next
          case bad: False
          have "too_long (dec_tgtlen s) (future file s)"
          proof (cases "read_half (type2 ?i) (size2 ?i) r")
            case None
            then show ?thesis by (simp add: whole)
          next
            case two: (Some p)
            then obtain n r2' where p: "p = ([(type2 ?i, n)], r2')"
              and l: "too_long (dec_tgtlen s) (vstep ?seg (type2 ?i, n) (o1, acache u2, d1, ds_buf (addr_sect u2)))"
              using t2 [OF here, of d1] bad by (auto split: prod.splits)
            then show ?thesis using two Some q too_long_Cons [OF l, of "halves r2'" "\<lambda>hs. hs"] by (simp add: whole)
          qed
          moreover have "ret = XD3_INVALID_INPUT" using inv' bad t(1) by auto
          ultimately show ?thesis using tf unt by (simp add: step_true_def)
        qed
      qed
    qed
  qed
qed

lemma step_true_trans: "step_true file s (XD3_OK, t) \<Longrightarrow> step_true file t res \<Longrightarrow> step_true file s res"
  by (auto simp: step_true_def)

lemma decode_emit_loop_true:
  "executing file s \<Longrightarrow> decode_emit_loop s = (ret, t) \<Longrightarrow> step_true file s (ret, t)"
proof (induction s rule: decode_emit_loop.induct)
  case (1 s)
  show ?case
  proof (cases "ds_buf (inst_sect s) \<noteq> [] \<or> insts_pending s")
    case False
    then show ?thesis using 1(2,3) by (simp add: decode_emit_loop.simps step_true_def)
  next
    case True
    obtain r1 s1 where d: "(if \<not> insts_pending s then xd3_decode_instruction s else (XD3_OK, s)) = (r1, s1)"
      by fastforce
    have k1: "step_true file s (r1, s1)"
    proof (cases "insts_pending s")
      case True
      then show ?thesis using d 1(2) by (simp add: step_true_def)
    next
      case False
      then obtain b rest where "ds_buf (inst_sect s) = b # rest" using True by (auto simp: neq_Nil_conv)
      then show ?thesis using decode_instruction_true [OF 1(2) False] d False by simp
    qed
    obtain r2 s2 where o1: "output_current1 s1 = (r2, s2)" by fastforce
    obtain r3 s3 where o2: "output_current2 s2 = (r3, s3)" by fastforce
    have eq: "decode_emit_loop s = xd3_try (r1, s1) (\<lambda>s. xd3_try (output_current1 s)
        (\<lambda>s. xd3_try (output_current2 s) decode_emit_loop))"
      using True d by (subst decode_emit_loop.simps) simp
    show ?thesis
    proof (cases "r1 = XD3_OK")
      case False
      then show ?thesis using k1 eq 1(3) by (simp add: xd3_try_fail)
    next
      case ok1: True
      then have e1: "executing file s1" and k1': "step_true file s (XD3_OK, s1)" using k1 by (simp_all add: step_true_def)
      have k2: "step_true file s (r2, s2)"
        by (rule step_true_trans [OF k1' output_current1_true [OF e1 o1]])
      show ?thesis
      proof (cases "r2 = XD3_OK")
        case False
        then show ?thesis using k2 ok1 eq o1 1(3) by (simp add: xd3_try_fail)
      next
        case ok2: True
        then have e2: "executing file s2" and k2': "step_true file s (XD3_OK, s2)" using k2 by (simp_all add: step_true_def)
        have noop: "hi_type (dec_current1 s2) = XD3_NOOP" using o1 ok2 output_current_noop(1) by blast
        have k3: "step_true file s (r3, s3)"
          by (rule step_true_trans [OF k2' output_current2_true [OF e2 noop o2]])
        show ?thesis
        proof (cases "r3 = XD3_OK")
          case False
          then show ?thesis using k3 ok1 ok2 eq o1 o2 1(3) by (simp add: xd3_try_fail)
        next
          case ok3: True
          then have "executing file s3" and k3': "step_true file s (XD3_OK, s3)" using k3 by (simp_all add: step_true_def)
          moreover have "decode_emit_loop s3 = (ret, t)" using eq 1(3) ok1 ok2 ok3 o1 o2 by simp
          ultimately have "step_true file s3 (ret, t)" using 1(1) [OF True, of s1 s2 s3] d ok1 ok2 ok3 o1 o2 by simp
          then show ?thesis by (rule step_true_trans [OF k3'])
        qed
      qed
    qed
  qed
qed

lemma decode_emit_loop_end: "decode_emit_loop s = (XD3_OK, t) \<Longrightarrow> ds_buf (inst_sect t) = [] \<and> \<not> insts_pending t"
proof (induction s rule: decode_emit_loop.induct)
  case (1 s)
  note s = 1(2) [unfolded decode_emit_loop.simps [of s]]
  show ?case
  proof (cases "ds_buf (inst_sect s) \<noteq> [] \<or> insts_pending s")
    case True
    with s obtain s1 s2 s3 where "(if \<not> insts_pending s then xd3_decode_instruction s else (XD3_OK, s)) = (XD3_OK, s1)"
      "output_current1 s1 = (XD3_OK, s2)" "output_current2 s2 = (XD3_OK, s3)" "decode_emit_loop s3 = (XD3_OK, t)"
      by (auto simp: xd3_try_OK_iff split: if_splits)
    then show ?thesis using 1(1) [OF True] by blast
  qed (use s in auto)
qed

text \<open>The bytes of the window, if the sections are used up.\<close>

definition window_value :: "uint8 list \<Rightarrow> xd3_decoder \<Rightarrow> uint8 list option" where
  "window_value file s = (case future file s of Some (out, c, [], []) \<Rightarrow> Some out | _ \<Rightarrow> None)"

text \<open>The window that is announced: of its length, and with its checksum when that is checked.\<close>

definition announced :: "xd3_decoder \<Rightarrow> uint8 list \<Rightarrow> bool" where
  "announced s bs \<longleftrightarrow> length bs = unat (dec_tgtlen s) \<and>
     (dec_win_ind s AND VCD_ADLER32 \<noteq> 0 \<and> flags s AND XD3_ADLER32_NOVER = 0 \<longrightarrow> adler32 1 bs = dec_adler32 s)"

text \<open>What an application may see of \<open>xd3_decode_emit\<close>: the window, a refusal of sections that are no such
  window, or a stop at a source block, after which the rest has the same value.\<close>

definition emit_true :: "uint8 list \<Rightarrow> xd3_decoder \<Rightarrow> xd3_rvalue \<times> xd3_decoder \<Rightarrow> bool" where
  "emit_true file s res \<longleftrightarrow>
     (case res of (ret, t) \<Rightarrow>
        ret = XD3_OUTPUT \<and> (\<exists>bs. window_value file s = Some bs \<and> announced s bs \<and> out_bytes t = Some bs \<and>
          unat (avail_out t) = length bs) \<or>
        ret = XD3_INVALID_INPUT \<and> \<not> (\<exists>bs. window_value file s = Some bs \<and> announced s bs) \<or>
        ret \<notin> {XD3_OK, XD3_OUTPUT, XD3_INVALID_INPUT, C_UNDEFINED, C_DIVERGES} \<and> unread s \<and>
          executing file t \<and> window_value file t = window_value file s \<and> announced t = announced s)"

lemma exec_frame_emit_loop:
  "decode_emit_loop s = (ret, t) \<Longrightarrow> dec_win_ind t = dec_win_ind s \<and> flags t = flags s \<and>
    dec_adler32 t = dec_adler32 s \<and> dec_tgtlen t = dec_tgtlen s"
proof (induction s rule: decode_emit_loop.induct)
  case (1 s)
  let ?P = "\<lambda>s t :: xd3_decoder. dec_win_ind t = dec_win_ind s \<and> flags t = flags s \<and> dec_adler32 t = dec_adler32 s \<and> dec_tgtlen t = dec_tgtlen s"
  have par: "?P u v" if "parse_frame u v" for u v using that by (auto simp: parse_frame_def)
  have ins: "?P u v" if "xd3_decode_instruction u = (r, v)" for u v r
    using that by (auto simp: xd3_decode_instruction_def Let_def xd3_try_def parse_current1_def parse_current2_def
        split: list.splits if_splits prod.splits dest!: parse_halfinst_frame par)
  have out: "?P u v" if "output_current1 u = (r, v) \<or> output_current2 u = (r, v)" for u v r
    using that by (auto simp: output_current1_def output_current2_def exec_frame_fields split: prod.splits dest!: output_halfinst_loop_frame)
  note s = 1(2) [unfolded decode_emit_loop.simps [of s]]
  show ?case
  proof (cases "ds_buf (inst_sect s) \<noteq> [] \<or> insts_pending s")
    case True
    obtain r1 s1 where d: "(if \<not> insts_pending s then xd3_decode_instruction s else (XD3_OK, s)) = (r1, s1)" by fastforce
    obtain r2 s2 where o1: "output_current1 s1 = (r2, s2)" by fastforce
    obtain r3 s3 where o2: "output_current2 s2 = (r3, s3)" by fastforce
    have p1: "?P s s1" using ins [of s r1 s1] d by (auto split: if_splits)
    have p2: "?P s1 s2" using out [of s1 r2 s2] o1 by simp
    have p3: "?P s2 s3" using out [of s2 r3 s3] o2 by simp
    have eq: "(ret, t) = xd3_try (r1, s1) (\<lambda>s. xd3_try (output_current1 s) (\<lambda>s. xd3_try (output_current2 s) decode_emit_loop))"
      using s True d by simp
    consider (a) "r1 \<noteq> XD3_OK" | (b) "r1 = XD3_OK" "r2 \<noteq> XD3_OK" | (c) "r1 = XD3_OK" "r2 = XD3_OK" "r3 \<noteq> XD3_OK"
      | (go) "r1 = XD3_OK" "r2 = XD3_OK" "r3 = XD3_OK" by blast
    then show ?thesis
    proof cases
      case go
      then have "?P s3 t" using 1(1) [OF True, of s1 s2 s3] d eq o1 o2 by simp
      then show ?thesis using p1 p2 p3 by simp
    qed (use eq o1 o2 p1 p2 p3 in \<open>simp_all add: xd3_try_fail\<close>)
  qed (use s in simp)
qed

lemma decode_emit_true:
  assumes ex: "executing file s" and d: "xd3_decode_emit s = (ret, t)"
  shows "emit_true file s (ret, t)"
proof -
  obtain r u where l: "decode_emit_loop s = (r, u)" by fastforce
  have tr: "step_true file s (r, u)" by (rule decode_emit_loop_true [OF ex l])
  note fr = exec_frame_emit_loop [OF l]
  have inv: "r \<notin> {C_UNDEFINED, C_DIVERGES, XD3_OUTPUT}" using decode_emit_loop_ok [OF _ l] ex by (simp add: executing_def)
  have same: "announced u = announced s" by (rule ext) (simp add: announced_def fr)
  show ?thesis
  proof (cases "r = XD3_OK")
    case False
    then have rt: "ret = r" "t = u" using d l by (simp_all add: xd3_decode_emit_def xd3_try_fail)
    show ?thesis
    proof (cases "r = XD3_INVALID_INPUT")
      case True
      then have "too_long (dec_tgtlen s) (future file s)" using tr by (simp add: step_true_def)
      then have "\<not> (\<exists>bs. window_value file s = Some bs \<and> announced s bs)"
        by (auto simp: too_long_def window_value_def announced_def split: option.splits list.splits)
      then show ?thesis using rt True by (simp add: emit_true_def)
    next
      case ni: False
      then show ?thesis using rt False tr inv same by (simp add: emit_true_def step_true_def window_value_def)
    qed
  next
    case True
    then have e: "executing file u" "future file u = future file s" using tr by (simp_all add: step_true_def)
    have n: "ds_buf (inst_sect u) = []" "hi_type (dec_current1 u) = XD3_NOOP" "hi_type (dec_current2 u) = XD3_NOOP"
      using decode_emit_loop_end [of s u] l True by (simp_all add: insts_pending_def)
    have "exec_pre u" using e(1) by (simp add: executing_def emit_inv_def)
    then obtain out where out: "out_bytes u = Some out" "length out = unat (avail_out u)" using exec_pre_win by blast
    then have "future file u = Some (out, acache u, ds_buf (data_sect u), ds_buf (addr_sect u))"
      using n by (simp add: future_def written_bytes)
    then have "future file s = Some (out, acache u, ds_buf (data_sect u), ds_buf (addr_sect u))"
      by (simp only: e(2))
    then have v: "window_value file s = (if ds_buf (data_sect u) = [] \<and> ds_buf (addr_sect u) = [] then Some out else None)"
      by (simp add: window_value_def split: list.splits)
    have len: "avail_out u = dec_tgtlen s \<longleftrightarrow> length out = unat (dec_tgtlen s)" using out(2) by (metis word_unat_eq_iff)
    define ok where "ok \<longleftrightarrow> ds_buf (data_sect u) = [] \<and> ds_buf (addr_sect u) = [] \<and> announced s out"
    have c: "fst (emit_checks u) = (if ok then XD3_OK else XD3_INVALID_INPUT)"
      using out len by (auto simp: emit_checks_def announced_def fr ok_def split: if_splits)
    have c': "ok \<Longrightarrow> emit_checks u = (XD3_OK, u)"
      using out len by (auto simp: emit_checks_def announced_def fr ok_def split: if_splits)
    show ?thesis
    proof (cases ok)
      case yes: True
      then have t: "ret = XD3_OUTPUT" "out_bytes t = out_bytes u" "avail_out t = avail_out u"
        using d l True c' out_bytes_cong [of t u] by (auto simp: xd3_decode_emit_def xd3_decode_finish_window_def)
      then show ?thesis using yes v out by (simp add: emit_true_def ok_def)
    next
      case no: False
      then have "ret = XD3_INVALID_INPUT" using d l True c by (cases "emit_checks u") (auto simp: xd3_decode_emit_def xd3_try_def split: if_splits)
      moreover have "\<not> (\<exists>bs. window_value file s = Some bs \<and> announced s bs)" using v no by (auto simp: ok_def)
      ultimately show ?thesis by (simp add: emit_true_def)
    qed
  qed
qed

section \<open>Calls\<close>

text \<open>The window as it begins: nothing pending, nothing written and a fresh cache.\<close>

definition window_start :: "uint8 list \<Rightarrow> xd3_decoder \<Rightarrow> bool" where
  "window_start file s \<longleftrightarrow> executing file s \<and> \<not> insts_pending s \<and> avail_out s = 0 \<and>
     acache s = xd3_init_cache (acache_zero\<lparr>s_near := 4, s_same := 3\<rparr>)"

lemma window_start_value:
  assumes "window_start file s"
  shows "window_value file s =
    vcdiff_window (seg_of file s) (ds_buf (data_sect s)) (ds_buf (inst_sect s)) (ds_buf (addr_sect s))"
proof -
  have n: "hi_type (dec_current1 s) = XD3_NOOP" "hi_type (dec_current2 s) = XD3_NOOP" "written s = ([], ds_buf (data_sect s))"
    using assms by (simp_all add: window_start_def insts_pending_def written_def out_bytes_def)
  show ?thesis
    using assms by (simp add: window_value_def future_def n vcdiff_window_def window_start_def split: option.splits)
qed

text \<open>The application answers a request with a block of the file.\<close>

definition supplied :: "uint8 list \<Rightarrow> xd3_decoder \<Rightarrow> xd3_decoder \<Rightarrow> bool" where
  "supplied file t u \<longleftrightarrow>
     (\<exists>x y. src t = Some x \<and> u = t\<lparr>src := Some y\<rparr> \<and> same_source x y \<and> holds_file file y \<and>
        cpyoff_blocks y = cpyoff_blocks x \<and> cpyoff_blkoff y = cpyoff_blkoff x)"

inductive emit_calls :: "uint8 list \<Rightarrow> xd3_decoder \<Rightarrow> xd3_rvalue \<Rightarrow> xd3_decoder \<Rightarrow> bool" for content s where
  emit_first: "xd3_decode_emit s = (ret, t) \<Longrightarrow> emit_calls content s ret t"
| emit_again: "emit_calls content s ret t \<Longrightarrow> ret \<notin> {XD3_OUTPUT, XD3_INVALID_INPUT} \<Longrightarrow>
    supplied content t u \<or> u = t \<Longrightarrow> xd3_decode_emit u = (ret', v) \<Longrightarrow> emit_calls content s ret' v"

lemma supplied_executing:
  assumes "executing file t" and "supplied file t u"
  shows "executing file u \<and> window_value file u = window_value file t \<and> announced u = announced t \<and> unread u = unread t"
proof -
  obtain x y where x: "src t = Some x" and u: "u = t\<lparr>src := Some y\<rparr>" and y: "same_source x y" "holds_file file y"
    "cpyoff_blocks y = cpyoff_blocks x" "cpyoff_blkoff y = cpyoff_blkoff x" using assms(2) by (auto simp: supplied_def)
  have inv: "emit_inv t" "window_in file t" using assms(1) by (simp_all add: executing_def)
  then have pre: "exec_pre t" by (simp add: emit_inv_def)
  have y': "source_ok y" "block_ok y"
    using y(2) by (auto simp: holds_file_def block_ok_def word_le_nat_alt block_of_def split: option.splits)
  have "win_ok u = win_ok t" by (rule win_ok_cong) (simp_all add: u)
  then have "exec_pre u" using pre y y' x
    by (auto simp: exec_pre_def u src_ok_def src_ready_def same_source_def xd3_blksize_div_def)
  then have e: "emit_inv u" using inv(1) by (simp add: emit_inv_def u table_ok_def)
  have w: "window_in file u" using inv(2) y(2) by (simp add: window_in_def u src_true_def)
  have wr: "written u = written t" by (subst written_cong [where s = t]) (simp_all add: u prod_eq_iff)
  have "future file u = future file t" unfolding future_def wr by (simp add: u seg_of_def)
  moreover have "executing file u" using e w assms(1) by (simp add: executing_def u)
  moreover have "announced u = announced t" by (rule ext) (simp add: announced_def u)
  moreover have "unread u = unread t" by (simp add: unread_def u)
  ultimately show ?thesis by (simp add: window_value_def)
qed

lemma emit_true_trans:
  assumes "emit_true file s (ret, t)" and "ret \<notin> {XD3_OUTPUT, XD3_INVALID_INPUT}"
    and "window_value file u = window_value file t" and "announced u = announced t" and "emit_true file u (ret', v)"
  shows "emit_true file s (ret', v)"
  using assms by (auto simp: emit_true_def)

lemma emit_calls_true:
  assumes "emit_calls file s ret t" and "executing file s"
  shows "emit_true file s (ret, t)"
  using assms
proof (induction rule: emit_calls.induct)
  case (emit_first ret t)
  then show ?case by (intro decode_emit_true)
next
  case (emit_again ret t u ret' v)
  then have tr: "emit_true file s (ret, t)" by blast
  then have "executing file t" using emit_again(2) by (auto simp: emit_true_def)
  then have u: "executing file u" "window_value file u = window_value file t" "announced u = announced t"
    using emit_again(3) supplied_executing by auto
  have "emit_true file u (ret', v)" by (rule decode_emit_true [OF u(1) emit_again(4)])
  then show ?case by (rule emit_true_trans [OF tr emit_again(2) u(2,3)])
qed

section \<open>Properties\<close>

text \<open>C6: the decoder computes the meaning of a window.  Called at the beginning of a window, and again
  with the block it asked for as often as it stops for one, \<open>xd3_decode_emit\<close> hands out exactly the bytes that
  the three sections denote according to RFC 3284 over the part of the source the header names, provided they
  have the announced length and checksum; it reports invalid input only if they have not, or if the
  sections denote nothing; and it stops otherwise only when the window has a source and a block cannot be read.\<close>

theorem decoder_refines_window:
  assumes "window_start file s" and "emit_calls file s ret t"
    and "value = vcdiff_window (seg_of file s) (ds_buf (data_sect s)) (ds_buf (inst_sect s)) (ds_buf (addr_sect s))"
  shows "(ret = XD3_OUTPUT \<longrightarrow> (\<exists>bs. value = Some bs \<and> announced s bs \<and> out_bytes t = Some bs)) \<and>
    (ret = XD3_INVALID_INPUT \<longrightarrow> \<not> (\<exists>bs. value = Some bs \<and> announced s bs)) \<and>
    (ret \<notin> {XD3_OUTPUT, XD3_INVALID_INPUT} \<longrightarrow> unread s) \<and> ret \<notin> {XD3_OK, C_UNDEFINED, C_DIVERGES}"
proof -
  have "executing file s" using assms(1) by (simp add: window_start_def)
  then have "emit_true file s (ret, t)" by (rule emit_calls_true [OF assms(2)])
  then show ?thesis using window_start_value [OF assms(1)] assms(3) by (auto simp: emit_true_def)
qed

text \<open>A window that adds a byte and copies the source, with a source that is served block by block.\<close>

definition serve :: "uint8 list \<Rightarrow> xd3_source \<Rightarrow> xoff_t \<Rightarrow> xd3_rvalue \<times> xd3_source" where
  "serve content x n =
     (XD3_OK, x\<lparr>curblkno := n, curblk := Some (block_of content (unat (blksize x)) (unat n)),
        onblk := of_nat (length (block_of content (unat (blksize x)) (unat n)))\<rparr>)"

lemma serve_ok: "serves content (serve content) \<and> getblk_ok (serve content)"
proof -
  have l: "length (block_of content (unat b) n) \<le> unat b" for b :: usize_t and n by (simp add: block_of_def)
  have "unat (of_nat (length (block_of content (unat b) n)) :: usize_t) = length (block_of content (unat b) n)"
    for b :: usize_t and n using l [of b n] unat_bound_64 [of b] by (intro unat_of_nat_64) linarith
  then show ?thesis using l
    by (auto simp: serves_def getblk_ok_def serve_def same_source_def holds_file_def source_ok_def block_ok_def word_le_nat_alt)
qed

definition emit_example :: xd3_decoder where
  "emit_example = decoder_zero
     \<lparr>src := Some \<lparr>blksize = 4, max_winsize = 16384, curblkno = 0, onblk = 0, curblk = None, srclen = 0, srcbase = 0,
        shiftby = 2, maskby = 3, cpyoff_blocks = 0, cpyoff_blkoff = 0, getblkno = 0, max_blkno = 0, onlastblk = 0,
        eof_known = False\<rparr>,
      getblk := Some (serve [1, 2, 3, 4]), space_out := 16384, dec_heap := [0 \<mapsto> \<lparr>wb_size = 16384, wb_bytes = []\<rparr>],
      next_out := Some 0, dec_buffer := Some 0, dec_tgtaddrbase := (Some 0, 4), dec_cpylen := 4, dec_tgtlen := 5,
      dec_position := 4, dec_maxpos := 9, dec_win_ind := VCD_SOURCE, code_table := rfc3284_code_table,
      acache := xd3_init_cache (acache_zero\<lparr>s_near := 4, s_same := 3\<rparr>),
      data_sect := desect_zero\<lparr>ds_buf := [9]\<rparr>, inst_sect := desect_zero\<lparr>ds_buf := [2, 20]\<rparr>,
      addr_sect := desect_zero\<lparr>ds_buf := [0]\<rparr>\<rparr>"

lemma emit_example_start: "window_start [1, 2, 3, 4] emit_example"
proof -
  have f: "acache emit_example = xd3_init_cache (acache_zero\<lparr>s_near := 4, s_same := 3\<rparr>)" "dec_heap emit_example = [0 \<mapsto> \<lparr>wb_size = 16384, wb_bytes = []\<rparr>]"
    "next_out emit_example = Some 0" "avail_out emit_example = 0" "space_out emit_example = 16384" "dec_cpylen emit_example = 4"
    "dec_cpyoff emit_example = 0" "dec_tgtlen emit_example = 5" "dec_position emit_example = 4" "dec_maxpos emit_example = 9"
    "dec_win_ind emit_example = VCD_SOURCE" "code_table emit_example = rfc3284_code_table" "getblk emit_example = Some (serve [1, 2, 3, 4])"
    "dec_current1 emit_example = hinst_zero" "dec_current2 emit_example = hinst_zero" "dec_tgtaddrbase emit_example = (Some 0, 4)"
    by (simp_all add: emit_example_def decoder_zero_def stream_zero_def xd3_stream.defs)
  obtain x where x: "src emit_example = Some x" "blksize x = 4" "shiftby x = 2" "maskby x = 3" "curblk x = None"
    "cpyoff_blocks x = 0" "cpyoff_blkoff x = 0" by (simp add: emit_example_def)
  have t: "table_ok emit_example"
    using table_entries_ok length_code_table by (simp add: table_ok_def f xd3_init_cache_def cache_ok_def acache_zero_def Let_def)
  have "exec_pre emit_example" using serve_ok [of "[1, 2, 3, 4]"]
    by (simp add: exec_pre_def src_ok_def x f source_ok_def block_ok_def win_ok_def out_bytes_def src_ready_def xd3_blksize_div_def)
  then have "executing [1, 2, 3, 4] emit_example" using t serve_ok [of "[1, 2, 3, 4]"]
    by (simp add: executing_def emit_inv_def f hinst_zero_def pend_def copy_ok_def src_fit_def window_in_def src_true_def x
        holds_file_def source_ok_def) (simp add: serve_def)
  then show ?thesis by (simp add: window_start_def insts_pending_def f hinst_zero_def)
qed

theorem decoder_refines_window_witness:
  "emit_calls [1, 2, 3, 4] emit_example (fst (xd3_decode_emit emit_example)) (snd (xd3_decode_emit emit_example)) \<and>
   fst (xd3_decode_emit emit_example) = XD3_OUTPUT \<and>
   out_bytes (snd (xd3_decode_emit emit_example)) = Some [9, 1, 2, 3, 4]"
proof -
  have c: "emit_calls [1, 2, 3, 4] emit_example (fst (xd3_decode_emit emit_example)) (snd (xd3_decode_emit emit_example))"
    by (rule emit_first) simp
  have f: "getblk emit_example = Some (serve [1, 2, 3, 4])" "dec_cpylen emit_example = 4" "dec_cpyoff emit_example = 0"
    "ds_buf (data_sect emit_example) = [9]" "ds_buf (inst_sect emit_example) = [2, 20]" "ds_buf (addr_sect emit_example) = [0]"
    "dec_tgtlen emit_example = 5" "dec_win_ind emit_example = VCD_SOURCE"
    by (simp_all add: emit_example_def decoder_zero_def stream_zero_def xd3_stream.defs)
  have "vcdiff_window [1, 2, 3, 4] [9] [2, 20] [0] = Some [9, 1, 2, 3, 4]" by code_simp
  then have v: "Some [9, 1, 2, 3, 4] = vcdiff_window (seg_of [1, 2, 3, 4] emit_example) (ds_buf (data_sect emit_example))
      (ds_buf (inst_sect emit_example)) (ds_buf (addr_sect emit_example))" by (simp add: f seg_of_def)
  have "announced emit_example [9, 1, 2, 3, 4]" "\<not> unread emit_example" by (simp_all add: announced_def unread_def f serve_def)
  then show ?thesis using decoder_refines_window [OF emit_example_start c v] c by auto
qed

end
