(* ===== verification/Xd3_Decode_Header.thy ===== *)
theory Xd3_Decode_Header
  imports Xd3_Decode_Window
begin

text \<open>
  Receiving a window: the layout of a window in a VCDIFF file (RFC 3284, section 4), and the decoder that
  reads the header and the three sections of one and comes to execute it.
\<close>

section \<open>The layout of a window\<close>

text \<open>
  The part that the field "length of the delta encoding" counts, and the whole window.  The checksum is an
  extension of xdelta3; the sections are not compressed.
\<close>

definition be32 :: "uint32 \<Rightarrow> uint8 list" where
  "be32 c = [ucast (drop_bit 24 c), ucast (drop_bit 16 c), ucast (drop_bit 8 c), ucast (c AND 0xff)]"

definition delta_encoding :: "usize_t \<Rightarrow> uint32 option \<Rightarrow> uint8 list \<Rightarrow> uint8 list \<Rightarrow> uint8 list \<Rightarrow> uint8 list" where
  "delta_encoding n cks data inst addr =
     xd3_emit_size_bytes n @ [0] @
     xd3_emit_size_bytes (of_nat (length data)) @ xd3_emit_size_bytes (of_nat (length inst)) @
     xd3_emit_size_bytes (of_nat (length addr)) @ (case cks of None \<Rightarrow> [] | Some c \<Rightarrow> be32 c) @ data @ inst @ addr"

definition window_ind :: "(usize_t \<times> xoff_t) option \<Rightarrow> uint32 option \<Rightarrow> uint8" where
  "window_ind source cks = (case source of None \<Rightarrow> 0 | Some _ \<Rightarrow> 1) OR (case cks of None \<Rightarrow> 0 | Some _ \<Rightarrow> 4)"

definition window_layout :: "(usize_t \<times> xoff_t) option \<Rightarrow> usize_t \<Rightarrow> uint32 option \<Rightarrow>
    uint8 list \<Rightarrow> uint8 list \<Rightarrow> uint8 list \<Rightarrow> uint8 list" where
  "window_layout source n cks data inst addr =
     window_ind source cks #
     (case source of None \<Rightarrow> [] | Some (len, off) \<Rightarrow> xd3_emit_size_bytes len @ xd3_emit_size_bytes off) @
     xd3_emit_size_bytes (of_nat (length (delta_encoding n cks data inst addr))) @ delta_encoding n cks data inst addr"

lemma be32_read: "foldl (\<lambda>a b. push_bit 8 a OR ucast b) (x :: uint32) (be32 c) = c"
proof (rule bit_word_eqI)
  fix n assume n: "n < LENGTH(32)"
  have ff: "(0xff :: uint32) = mask 8" by (simp add: mask_eq_exp_minus_1)
  show "bit (foldl (\<lambda>a b. push_bit 8 a OR ucast b) x (be32 c)) n = bit c n"
    using n unfolding be32_def ff by (cases "n < 8"; cases "n < 16"; cases "n < 24") (auto simp: bit_simps)
qed

lemma length_be32 [simp]: "length (be32 c) = 4"
  by (simp add: be32_def)

section \<open>Integers\<close>

lemma decode_emitted: "decode_integer UINT64_OFLOW_MASK 0 (xd3_emit_uint64_t n @ rest) = (XD3_OK, None, Some n, 0, rest)"
  unfolding OFLOW_MASK_eq xd3_emit_uint64_t_def by (rule decode_emit_integer) simp

lemma decode_size_emitted:
  assumes "next_in s = xd3_emit_size_bytes v @ rest" and "dec_64part s = 0"
  shows "xd3_decode_size store s =
      (XD3_OK, store v (s\<lparr>total_in := total_in s + of_nat (length (xd3_emit_size_bytes v)), next_in := rest\<rparr>))"
    and "xd3_decode_offset store s =
      (XD3_OK, store v (s\<lparr>total_in := total_in s + of_nat (length (xd3_emit_size_bytes v)), next_in := rest\<rparr>))"
proof -
  let ?r = "(XD3_OK, store v (s\<lparr>total_in := total_in s + of_nat (length (xd3_emit_size_bytes v)), next_in := rest\<rparr>))"
  have e: "s\<lparr>total_in := n, next_in := m, dec_64part := 0\<rparr> = s\<lparr>total_in := n, next_in := m\<rparr>" for n m
    using assms(2) by (cases s) simp
  have "xd3_decode_uint64_t store s = ?r"
    using assms decode_emitted [of v rest]
    by (simp add: xd3_decode_uint64_t_def xd3_emit_size_bytes_def DECODE_INPUT_def e)
  then show "xd3_decode_size store s = ?r" "xd3_decode_offset store s = ?r"
    by (simp_all add: xd3_decode_size_def xd3_decode_offset_def)
qed

lemma size_case_emitted:
  assumes "next_in s = xd3_emit_size_bytes v @ rest" and "dec_64part s = 0"
  shows "SIZE_CASE True store st s = (XD3_OK,
      (store v (s\<lparr>total_in := total_in s + of_nat (length (xd3_emit_size_bytes v)), next_in := rest\<rparr>))\<lparr>dec_state := st\<rparr>)"
    and "OFFSET_CASE True store st s = (XD3_OK,
      (store v (s\<lparr>total_in := total_in s + of_nat (length (xd3_emit_size_bytes v)), next_in := rest\<rparr>))\<lparr>dec_state := st\<rparr>)"
  by (simp_all add: SIZE_CASE_def OFFSET_CASE_def decode_size_emitted [OF assms])

section \<open>The window header\<close>

lemma case_datalen_reads:
  assumes "next_in s = xd3_emit_size_bytes dl @ xd3_emit_size_bytes il @ xd3_emit_size_bytes al @ rest" and "dec_64part s = 0"
  shows "\<exists>n. case_datalen s = case_cksum (s\<lparr>total_in := n, next_in := rest, dec_state := DEC_CKSUM,
      data_sect := (data_sect s)\<lparr>ds_size := dl\<rparr>, inst_sect := (inst_sect s)\<lparr>ds_size := il\<rparr>,
      addr_sect := (addr_sect s)\<lparr>ds_size := al\<rparr>\<rparr>)"
  using assms by (simp add: case_datalen_def case_instlen_def case_addrlen_def size_case_emitted)
    (rule exI [of _ "total_in s + of_nat (length (xd3_emit_size_bytes dl)) + of_nat (length (xd3_emit_size_bytes il)) + of_nat (length (xd3_emit_size_bytes al))"],
      rule arg_cong [where f = case_cksum], simp)

lemma case_delind_reads:
  assumes "next_in s = 0 # xs"
  shows "\<exists>n. case_delind s = case_datalen (s\<lparr>total_in := n, next_in := xs, dec_del_ind := 0, dec_state := DEC_DATALEN\<rparr>)"
  using assms by (simp add: case_delind_def BYTE_CASE_def xd3_decode_byte_def DECODE_INPUT_def)
    (rule exI [of _ "total_in s + 1"], rule arg_cong [where f = case_datalen], simp)

lemma case_enclen_reads:
  assumes "next_in s = xd3_emit_size_bytes el @ xd3_emit_size_bytes tgt @ xs" and "dec_64part s = 0"
    and "tgt \<le> XD3_HARDMAXWINSIZE" and "unat (dec_cpylen s) + unat tgt < 2 ^ 64"
  shows "\<exists>n. case_enclen s = case_delind (s\<lparr>total_in := n, next_in := xs, dec_enclen := el, dec_tgtlen := tgt,
      dec_maxpos := dec_cpylen s + tgt, dec_state := DEC_DELIND\<rparr>)"
  using assms by (simp add: case_enclen_def case_tgtlen_def size_case_emitted USIZE_T_OVERFLOW_iff not_less [symmetric])
    (rule exI [of _ "total_in s + of_nat (length (xd3_emit_size_bytes el)) + of_nat (length (xd3_emit_size_bytes tgt))"],
      rule arg_cong [where f = case_delind], simp)

lemma case_cpylen_reads:
  assumes "next_in s = xd3_emit_size_bytes l @ xd3_emit_size_bytes off @ xs" and "dec_64part s = 0"
    and "dec_win_ind s AND 3 = VCD_SOURCE" and "unat off + unat l < 2 ^ 64"
  shows "\<exists>n. case_cpylen s = case_enclen (s\<lparr>total_in := n, next_in := xs, dec_cpylen := l, dec_cpyoff := off,
      dec_position := l, dec_state := DEC_ENCLEN\<rparr>)"
proof -
  have "SRCORTGT (dec_win_ind s)" using assms(3) by (simp add: SRCORTGT_def)
  moreover have "dec_win_ind s AND VCD_TARGET = (dec_win_ind s AND 3) AND VCD_TARGET" by (simp add: and.assoc)
  ultimately show ?thesis using assms
    by (simp add: case_cpylen_def case_cpyoff_def size_case_emitted XOFF_T_OVERFLOW_iff)
      (rule exI [of _ "total_in s + of_nat (length (xd3_emit_size_bytes l)) + of_nat (length (xd3_emit_size_bytes off))"],
        rule arg_cong [where f = case_enclen], simp)
qed

lemma case_cpylen_skips:
  assumes "dec_win_ind s AND 3 = 0" and "dec_cpylen s = 0" and "dec_win_ind s AND VCD_TARGET = 0"
  shows "case_cpylen s = case_enclen (s\<lparr>dec_position := 0, dec_state := DEC_ENCLEN\<rparr>)"
  using assms unat_bound_64 [of "dec_cpyoff s"]
  by (simp add: case_cpylen_def case_cpyoff_def SIZE_CASE_def OFFSET_CASE_def SRCORTGT_def XOFF_T_OVERFLOW_iff)


lemma decode_bytes_loop_all: "decode_bytes_loop (length b + length bs) b (bs @ rest) = (XD3_OK, b @ bs, rest)"
  by (cases "bs = []") (simp_all add: decode_bytes_loop.simps)

lemma length_emit_small: "length (xd3_emit_size_bytes v) < 16"
proof -
  have "unat v < 2 ^ (7 * Suc 9)" using unat_bound_64 [of v] by simp
  then have "length (emit_integer v) \<le> Suc 9" by (simp only: length_emit_integer_le)
  then show ?thesis by (simp add: xd3_emit_size_bytes_def xd3_emit_uint64_t_def)
qed

lemma enclen_value:
  "(of_nat (length (delta_encoding n cks data inst addr)) :: usize_t) =
     1 + ucast (xd3_sizeof_size n + xd3_sizeof_size (of_nat (length data)) + xd3_sizeof_size (of_nat (length inst)) +
        xd3_sizeof_size (of_nat (length addr))) +
     of_nat (length data) + of_nat (length inst) + of_nat (length addr) +
     (case cks of None \<Rightarrow> 0 | Some _ \<Rightarrow> 4)"
proof -
  have s: "unat (xd3_sizeof_size v) = length (xd3_emit_size_bytes v)" "unat (xd3_sizeof_size v) < 16" for v
    using length_emit_small [of v] by (simp_all add: size_codec.length_emit)
  define a b c d where "a = xd3_sizeof_size n" "b = xd3_sizeof_size (of_nat (length data))"
    "c = xd3_sizeof_size (of_nat (length inst))" "d = xd3_sizeof_size (of_nat (length addr))"
  have l: "unat a < 16" "unat b < 16" "unat c < 16" "unat d < 16" using s(2) by (simp_all add: a_b_c_d_def)
  have "unat (a + b + c + d) = unat a + unat b + unat c + unat d"
    using l by (simp add: unat_word_ariths)
  then have "ucast (a + b + c + d) = (of_nat (unat a + unat b + unat c + unat d) :: usize_t)"
    by (metis of_nat_unat)
  then show ?thesis
    by (simp add: delta_encoding_def a_b_c_d_def s(1) split: option.splits)
qed


lemma decode_cksum_reads:
  assumes "next_in s = be32 c @ rest" and "dec_cksum s = []"
  shows "xd3_decode_bytes dec_cksum (\<lambda>b s. s\<lparr>dec_cksum := b\<rparr>) 4 s =
    (XD3_OK, s\<lparr>total_in := total_in s + 4, next_in := rest, dec_cksum := be32 c\<rparr>)"
proof -
  have "decode_bytes_loop 4 [] (be32 c @ rest) = (XD3_OK, be32 c, rest)"
    using decode_bytes_loop_all [of "[]" "be32 c" rest] by simp
  then show ?thesis using assms by (simp add: xd3_decode_bytes_def DECODE_INPUT_def Let_def)
qed

text \<open>The fields of a window whose header has been read.\<close>

definition has_header :: "(usize_t \<times> xoff_t) option \<Rightarrow> usize_t \<Rightarrow> uint32 option \<Rightarrow> xd3_decoder \<Rightarrow> bool" where
  "has_header source n cks s \<longleftrightarrow>
     dec_win_ind s = ucast (window_ind source cks) \<and> dec_tgtlen s = n \<and> dec_del_ind s = 0 \<and>
     (dec_cpylen s, dec_cpyoff s) = (case source of None \<Rightarrow> (0, 0) | Some p \<Rightarrow> p) \<and>
     dec_maxpos s = dec_cpylen s + n \<and> (case cks of None \<Rightarrow> True | Some c \<Rightarrow> dec_adler32 s = c)"

definition has_sizes :: "uint8 list \<Rightarrow> uint8 list \<Rightarrow> uint8 list \<Rightarrow> xd3_decoder \<Rightarrow> bool" where
  "has_sizes data inst addr s \<longleftrightarrow> ds_size (data_sect s) = of_nat (length data) \<and>
     ds_size (inst_sect s) = of_nat (length inst) \<and> ds_size (addr_sect s) = of_nat (length addr)"

definition header_frame :: "xd3_decoder \<Rightarrow> xd3_decoder \<Rightarrow> bool" where
  "header_frame s t \<longleftrightarrow> src t = src s \<and> getblk t = getblk s \<and> code_table t = code_table s \<and>
     flags t = flags s \<and> dec_64part t = dec_64part s \<and> enc_state t = enc_state s \<and> dec_winbytes t = dec_winbytes s \<and>
     alloc t = alloc s"

text \<open>From the delta indicator on.\<close>

lemma checksum_bit: "(ucast (window_ind source cks) :: usize_t) AND 4 \<noteq> 0 \<longleftrightarrow> cks \<noteq> None"
  "(ucast (window_ind source cks) :: usize_t) AND 1 \<noteq> 0 \<longleftrightarrow> source \<noteq> None"
  "(ucast (window_ind source cks) :: usize_t) AND 2 = 0"
  "(ucast (window_ind source cks) :: usize_t) AND 3 = (if source = None then 0 else 1)"
  "(ucast (window_ind source cks) :: usize_t) AND 0xfffffff8 = 0"
  by (cases source; cases cks; simp add: window_ind_def)+

lemma case_cksum_reads:
  assumes "next_in s = (case cks of None \<Rightarrow> [] | Some c \<Rightarrow> be32 c) @ data @ inst @ addr @ rest"
    and "has_header source n (map_option (\<lambda>_. dec_adler32 s) cks) s" and "has_sizes data inst addr s"
    and "dec_enclen s = of_nat (length (delta_encoding n cks data inst addr))" and "dec_cksum s = []"
  shows "\<exists>t. case_cksum s = (if current_window s = 0 then XD3_GOTHEADER else XD3_WINSTART, t) \<and>
    has_header source n cks t \<and> has_sizes data inst addr t \<and> header_frame s t \<and>
    next_in t = data @ inst @ addr @ rest \<and> dec_state t = DEC_DATA \<and> acache t = acache s"
proof (cases cks)
  case None
  then have b: "dec_win_ind s AND VCD_ADLER32 = 0"
    using assms(2) checksum_bit(1) [of source cks] by (simp add: has_header_def)
  show ?thesis
    using assms None b enclen_value [of n cks data inst addr]
    by (simp add: case_cksum_def has_header_def has_sizes_def header_frame_def Let_def)
next
  case (Some c)
  have "window_ind source (map_option (\<lambda>_. dec_adler32 s) cks) = window_ind source cks" using Some by (simp add: window_ind_def)
  then have b: "dec_win_ind s = ucast (window_ind source cks)" "dec_win_ind s AND VCD_ADLER32 \<noteq> 0"
    using assms(2) checksum_bit(1) [of source cks] Some by (simp_all add: has_header_def)
  have t: "take 4 (be32 c) = be32 c" by simp
  show ?thesis
    using assms Some b(2) enclen_value [of n cks data inst addr]
    by (simp add: case_cksum_def decode_cksum_reads t be32_read has_header_def has_sizes_def header_frame_def Let_def
        window_ind_def)
qed


text \<open>A decoder at the beginning of a window, with a source that is served from a file.\<close>

definition ready :: "uint8 list \<Rightarrow> xd3_decoder \<Rightarrow> bool" where
  "ready content s \<longleftrightarrow> dec_inv s \<and> dec_state s = DEC_WININD \<and> dec_64part s = 0 \<and> src_true content s \<and>
     code_table s = rfc3284_code_table \<and> (\<forall>f. getblk s = Some f \<longrightarrow> (\<forall>x n. fst (f x n) \<noteq> XD3_INVALID_INPUT)) \<and>
     unat (dec_winstart s) + unat (dec_tgtlen s) < 2 ^ 64"

lemma header_frame_trans: "header_frame s t \<Longrightarrow> header_frame t u \<Longrightarrow> header_frame s u"
  by (simp add: header_frame_def)

text \<open>From the length of the delta encoding on.\<close>

lemma case_enclen_header:
  assumes "next_in s = xd3_emit_size_bytes (of_nat (length (delta_encoding n cks data inst addr))) @
      delta_encoding n cks data inst addr @ rest" and "dec_64part s = 0"
    and "n \<le> XD3_HARDMAXWINSIZE" and "unat (dec_cpylen s) + unat n < 2 ^ 64" and "dec_cksum s = []"
    and "dec_win_ind s = ucast (window_ind source cks)"
    and "(dec_cpylen s, dec_cpyoff s) = (case source of None \<Rightarrow> (0, 0) | Some p \<Rightarrow> p)"
  shows "\<exists>t. case_enclen s = (if current_window s = 0 then XD3_GOTHEADER else XD3_WINSTART, t) \<and>
    has_header source n cks t \<and> has_sizes data inst addr t \<and> header_frame s t \<and>
    next_in t = data @ inst @ addr @ rest \<and> dec_state t = DEC_DATA \<and> acache t = acache s"
proof -
  let ?c = "case cks of None \<Rightarrow> [] | Some c \<Rightarrow> be32 c"
  let ?l = "xd3_emit_size_bytes (of_nat (length data)) @ xd3_emit_size_bytes (of_nat (length inst)) @
      xd3_emit_size_bytes (of_nat (length addr)) @ ?c @ data @ inst @ addr @ rest"
  have i: "next_in s = xd3_emit_size_bytes (of_nat (length (delta_encoding n cks data inst addr))) @
      xd3_emit_size_bytes n @ 0 # ?l" using assms(1) by (simp add: delta_encoding_def)
  obtain s1 where s1: "case_enclen s = case_delind s1" "next_in s1 = 0 # ?l" "dec_64part s1 = 0" "dec_tgtlen s1 = n"
    "dec_enclen s1 = of_nat (length (delta_encoding n cks data inst addr))" "dec_maxpos s1 = dec_cpylen s1 + n"
    "header_frame s s1" "dec_cksum s1 = []" "dec_win_ind s1 = dec_win_ind s" "acache s1 = acache s"
    "dec_cpylen s1 = dec_cpylen s" "dec_cpyoff s1 = dec_cpyoff s" "current_window s1 = current_window s"
    using case_enclen_reads [OF i assms(2,3,4)] assms(5) by (auto simp: header_frame_def assms(2))
  obtain s2 where s2: "case_delind s1 = case_datalen s2" "next_in s2 = ?l" "header_frame s1 s2" "dec_tgtlen s2 = n"
    "dec_enclen s2 = dec_enclen s1" "dec_maxpos s2 = dec_maxpos s1" "dec_cksum s2 = []" "dec_win_ind s2 = dec_win_ind s"
    "acache s2 = acache s1" "dec_cpylen s2 = dec_cpylen s1" "dec_cpyoff s2 = dec_cpyoff s1" "dec_del_ind s2 = 0"
    "current_window s2 = current_window s" "dec_64part s2 = 0"
    using case_delind_reads [OF s1(2)] s1 by (auto simp: header_frame_def)
  obtain s3 where s3: "case_datalen s2 = case_cksum s3" "next_in s3 = ?c @ data @ inst @ addr @ rest"
    "header_frame s2 s3" "has_sizes data inst addr s3" "dec_tgtlen s3 = n" "dec_enclen s3 = dec_enclen s2"
    "dec_maxpos s3 = dec_maxpos s2" "dec_cksum s3 = []" "dec_win_ind s3 = dec_win_ind s" "acache s3 = acache s2"
    "dec_cpylen s3 = dec_cpylen s2" "dec_cpyoff s3 = dec_cpyoff s2" "dec_del_ind s3 = 0" "current_window s3 = current_window s"
    using case_datalen_reads [OF s2(2,14)] s2 by (auto simp: header_frame_def has_sizes_def)
  have w: "window_ind source (map_option (\<lambda>_. dec_adler32 s3) cks) = window_ind source cks"
    by (cases cks) (simp_all add: window_ind_def)
  have "has_header source n (map_option (\<lambda>_. dec_adler32 s3) cks) s3"
    using s1 s2 s3 assms(6,7) by (simp add: has_header_def w split: option.splits)
  moreover have "dec_enclen s3 = of_nat (length (delta_encoding n cks data inst addr))" using s1 s2 s3 by simp
  ultimately obtain t where t: "case_cksum s3 = (if current_window s3 = 0 then XD3_GOTHEADER else XD3_WINSTART, t)"
    "has_header source n cks t" "has_sizes data inst addr t" "header_frame s3 t"
    "next_in t = data @ inst @ addr @ rest" "dec_state t = DEC_DATA" "acache t = acache s3"
    using case_cksum_reads [OF s3(2) _ s3(4) _ s3(8)] by blast
  have "header_frame s t" using s1(7) s2(3) s3(3) t(4) header_frame_trans by blast
  then show ?thesis using s1 s2 s3 t by simp
qed


lemma case_winind_header:
  assumes "next_in s = window_layout source n cks data inst addr @ rest" and "ready content s"
    and "n \<le> XD3_HARDMAXWINSIZE" and "\<And>l off. source = Some (l, off) \<Longrightarrow> unat off + unat l < 2 ^ 62"
  shows "\<exists>t ret. case_winind s = (ret, t) \<and> ret \<in> {XD3_GOTHEADER, XD3_WINSTART} \<and>
    has_header source n cks t \<and> has_sizes data inst addr t \<and> header_frame s t \<and>
    next_in t = data @ inst @ addr @ rest \<and> dec_state t = DEC_DATA \<and> acache t = xd3_init_cache (acache s)"
proof -
  let ?e = "xd3_emit_size_bytes (of_nat (length (delta_encoding n cks data inst addr))) @
      delta_encoding n cks data inst addr @ rest"
  let ?f = "case source of None \<Rightarrow> [] | Some (len, off) \<Rightarrow> xd3_emit_size_bytes len @ xd3_emit_size_bytes off"
  define s1 where "s1 = s\<lparr>dec_win_ind := ucast (window_ind source cks), total_in := total_in s + 1, next_in := ?f @ ?e,
      current_window := dec_window_count s, dec_winstart := dec_winstart s + dec_tgtlen s, dec_cpylen := 0,
      dec_cpyoff := 0, dec_cksum := [], acache := xd3_init_cache (acache s), dec_state := DEC_CPYLEN\<rparr>"
  have "case_winind s = case_cpylen s1"
    using assms(1,2) by (simp add: case_winind_def xd3_decode_byte_def DECODE_INPUT_def window_layout_def ready_def
        XOFF_T_OVERFLOW_iff checksum_bit xd3_decode_init_window_def s1_def Let_def)
  moreover have "\<exists>s2. case_cpylen s1 = case_enclen s2 \<and> next_in s2 = ?e \<and> header_frame s s2 \<and> dec_cksum s2 = [] \<and>
    dec_win_ind s2 = dec_win_ind s1 \<and> (dec_cpylen s2, dec_cpyoff s2) = (case source of None \<Rightarrow> (0, 0) | Some p \<Rightarrow> p) \<and>
    acache s2 = acache s1"
  proof (cases source)
    case None
    have "case_cpylen s1 = case_enclen (s1\<lparr>dec_position := 0, dec_state := DEC_ENCLEN\<rparr>)"
      by (rule case_cpylen_skips) (simp_all add: s1_def None checksum_bit)
    then show ?thesis
      by (intro exI [of _ "s1\<lparr>dec_position := 0, dec_state := DEC_ENCLEN\<rparr>"] conjI)
        (assumption | simp add: s1_def None header_frame_def)+
  next
    case (Some p)
    obtain l off where p: "p = (l, off)" by fastforce
    have "next_in s1 = xd3_emit_size_bytes l @ xd3_emit_size_bytes off @ ?e" "dec_64part s1 = 0"
      "dec_win_ind s1 AND 3 = VCD_SOURCE" "unat off + unat l < 2 ^ 64"
      using Some p assms(2,4) checksum_bit(4) [of source cks] by (simp_all add: s1_def ready_def)
    from case_cpylen_reads [OF this] obtain m where "case_cpylen s1 = case_enclen (s1\<lparr>total_in := m, next_in := ?e,
      dec_cpylen := l, dec_cpyoff := off, dec_position := l, dec_state := DEC_ENCLEN\<rparr>)" ..
    then show ?thesis
      by (intro exI [of _ "s1\<lparr>total_in := m, next_in := ?e, dec_cpylen := l, dec_cpyoff := off, dec_position := l,
            dec_state := DEC_ENCLEN\<rparr>"] conjI) (assumption | simp add: s1_def Some p header_frame_def)+
  qed
  ultimately obtain s2 where s2: "case_winind s = case_enclen s2" "next_in s2 = ?e" "header_frame s s2"
    "dec_cksum s2 = []" "dec_win_ind s2 = ucast (window_ind source cks)"
    "(dec_cpylen s2, dec_cpyoff s2) = (case source of None \<Rightarrow> (0, 0) | Some p \<Rightarrow> p)"
    "acache s2 = xd3_init_cache (acache s)" by (auto simp: s1_def)
  have z: "dec_64part s2 = 0" using s2(3) assms(2) by (simp add: header_frame_def ready_def)
  have "unat (dec_cpylen s2) < 2 ^ 62"
    using s2(6) assms(4) by (cases source) (auto intro: order_le_less_trans [rotated])
  moreover have "unat n \<le> 2 ^ 26" using assms(3) by (simp add: word_le_nat_alt)
  ultimately have b: "unat (dec_cpylen s2) + unat n < 2 ^ 64" by simp
  from case_enclen_header [OF s2(2) z assms(3) b s2(4,5,6)] obtain t where
    t: "case_enclen s2 = (if current_window s2 = 0 then XD3_GOTHEADER else XD3_WINSTART, t)"
    "has_header source n cks t" "has_sizes data inst addr t" "header_frame s2 t"
    "next_in t = data @ inst @ addr @ rest" "dec_state t = DEC_DATA" "acache t = acache s2" by blast
  then show ?thesis using s2 header_frame_trans [OF s2(3) t(4)] by auto
qed


section \<open>The sections\<close>

text \<open>With all of a section at hand nothing is copied.\<close>

lemma decode_section_whole:
  assumes "next_in s = bs @ rest" and "ds_size (sect_of k s) = of_nat (length bs)" and "length bs < 2 ^ 64"
    and "ds_pos (sect_of k s) = 0"
  shows "\<exists>m w. xd3_decode_section k st False s = (XD3_OK, set_sect k ((sect_of k s)\<lparr>ds_buf := bs, ds_pos := 0\<rparr>)
      (s\<lparr>total_in := m, next_in := rest, dec_winbytes := w, dec_state := st\<rparr>))"
proof (cases "bs = []")
  case True
  have "xd3_decode_section k st False s = (XD3_OK, set_sect k ((sect_of k s)\<lparr>ds_buf := bs, ds_pos := 0\<rparr>)
      (s\<lparr>total_in := total_in s, next_in := rest, dec_winbytes := dec_winbytes s, dec_state := st\<rparr>))"
    using True assms by (cases k; simp add: xd3_decode_section_def section_done_def Let_def)
  then show ?thesis by blast
next
  case False
  have u: "unat (ds_size (sect_of k s)) = length bs" using assms(2,3) by (simp add: unat_of_nat_64)
  then have p: "0 < ds_size (sect_of k s)" using False by (simp add: word_less_nat_alt)
  have z: "ds_size (sect_of k s) \<noteq> 0" using p by auto
  have "xd3_decode_section k st False s = section_done k st (section_take k (length bs) s)"
    using False assms(1,4) p by (simp add: xd3_decode_section_def Let_def u)
  moreover have "section_done k st (section_take k (length bs) s) = (XD3_OK, set_sect k ((sect_of k s)\<lparr>ds_buf := bs, ds_pos := 0\<rparr>)
      (s\<lparr>total_in := total_in s + of_nat (length bs), next_in := rest, dec_winbytes := dec_winbytes s + of_nat (length bs), dec_state := st\<rparr>))"
    using assms(1,2,4) p z by (cases k; simp add: section_done_def section_take_def DECODE_INPUT_def Let_def)
  ultimately show ?thesis by auto
qed

definition has_sections :: "uint8 list \<Rightarrow> uint8 list \<Rightarrow> uint8 list \<Rightarrow> xd3_decoder \<Rightarrow> bool" where
  "has_sections data inst addr s \<longleftrightarrow>
     ds_buf (data_sect s) = data \<and> ds_buf (inst_sect s) = inst \<and> ds_buf (addr_sect s) = addr"

definition sections_frame :: "xd3_decoder \<Rightarrow> xd3_decoder \<Rightarrow> bool" where
  "sections_frame s t \<longleftrightarrow> src t = src s \<and> getblk t = getblk s \<and> code_table t = code_table s \<and>
     flags t = flags s \<and> acache t = acache s \<and> dec_win_ind t = dec_win_ind s \<and> dec_tgtlen t = dec_tgtlen s \<and>
     dec_cpylen t = dec_cpylen s \<and> dec_cpyoff t = dec_cpyoff s \<and> dec_maxpos t = dec_maxpos s \<and>
     dec_adler32 t = dec_adler32 s \<and> dec_del_ind t = dec_del_ind s \<and> dec_current1 t = dec_current1 s \<and>
     dec_current2 t = dec_current2 s \<and> avail_out t = avail_out s \<and> alloc t = alloc s"

lemma sections_data_whole:
  assumes "next_in s = data @ inst @ addr @ rest" and "has_sizes data inst addr s"
    and "length data + length inst + length addr < 2 ^ 64"
    and "ds_pos (data_sect s) = 0" "ds_pos (inst_sect s) = 0" "ds_pos (addr_sect s) = 0"
  shows "\<exists>t. sections_data False s = (XD3_OK, t) \<and> sections_frame s t \<and> has_sections data inst addr t \<and> next_in t = rest"
proof -
  obtain m w where d: "xd3_decode_section DATA_SECTION DEC_INST False s = (XD3_OK, set_sect DATA_SECTION
      ((data_sect s)\<lparr>ds_buf := data, ds_pos := 0\<rparr>) (s\<lparr>total_in := m, next_in := inst @ addr @ rest, dec_winbytes := w, dec_state := DEC_INST\<rparr>))"
    using decode_section_whole [of s data "inst @ addr @ rest" DATA_SECTION DEC_INST] assms by (auto simp: has_sizes_def)
  define s1 where "s1 = set_sect DATA_SECTION
      ((data_sect s)\<lparr>ds_buf := data, ds_pos := 0\<rparr>) (s\<lparr>total_in := m, next_in := inst @ addr @ rest, dec_winbytes := w, dec_state := DEC_INST\<rparr>)"
  obtain m2 w2 where i: "xd3_decode_section INST_SECTION DEC_ADDR False s1 = (XD3_OK, set_sect INST_SECTION
      ((inst_sect s1)\<lparr>ds_buf := inst, ds_pos := 0\<rparr>) (s1\<lparr>total_in := m2, next_in := addr @ rest, dec_winbytes := w2, dec_state := DEC_ADDR\<rparr>))"
    using decode_section_whole [of s1 inst "addr @ rest" INST_SECTION DEC_ADDR] assms by (auto simp: has_sizes_def s1_def)
  define s2 where "s2 = set_sect INST_SECTION
      ((inst_sect s1)\<lparr>ds_buf := inst, ds_pos := 0\<rparr>) (s1\<lparr>total_in := m2, next_in := addr @ rest, dec_winbytes := w2, dec_state := DEC_ADDR\<rparr>)"
  obtain m3 w3 where a: "xd3_decode_section ADDR_SECTION DEC_EMIT False s2 = (XD3_OK, set_sect ADDR_SECTION
      ((addr_sect s2)\<lparr>ds_buf := addr, ds_pos := 0\<rparr>) (s2\<lparr>total_in := m3, next_in := rest, dec_winbytes := w3, dec_state := DEC_EMIT\<rparr>))"
    using decode_section_whole [of s2 addr rest ADDR_SECTION DEC_EMIT] assms by (auto simp: has_sizes_def s1_def s2_def)
  have "sections_data False s = (XD3_OK, set_sect ADDR_SECTION
      ((addr_sect s2)\<lparr>ds_buf := addr, ds_pos := 0\<rparr>) (s2\<lparr>total_in := m3, next_in := rest, dec_winbytes := w3, dec_state := DEC_EMIT\<rparr>))"
    unfolding sections_data_def sections_inst_def sections_addr_def d xd3_try_OK s1_def [symmetric] i s2_def [symmetric] a ..
  then show ?thesis by (simp add: sections_frame_def has_sections_def s1_def s2_def)
qed


lemma setup_buffers_frame:
  assumes "xd3_decode_setup_buffers s = (XD3_OK, t)"
  shows "sections_frame s t \<and> data_sect t = data_sect s \<and> inst_sect t = inst_sect s \<and> addr_sect t = addr_sect s \<and>
    next_in t = next_in s \<and> dec_tgtlen t \<le> space_out t"
  using assms round_alloc_ge [of "dec_tgtlen s"]
  by (auto simp: xd3_decode_setup_buffers_def xd3_alloc_def free_winbuf_def sections_frame_def Let_def xd3_try_OK_iff
      split: if_splits option.splits)

lemma sections_frame_trans: "sections_frame s t \<Longrightarrow> sections_frame t u \<Longrightarrow> sections_frame s u"
  by (simp add: sections_frame_def)

text \<open>With the whole window at hand the sections are complete, or there is no memory for the window.\<close>

lemma decode_sections_whole:
  assumes "next_in s = data @ inst @ addr @ rest" and "has_sizes data inst addr s"
    and "length data + length inst + length addr < 2 ^ 64"
    and "dec_inv s" and "dec_state s = DEC_DATA" and "dec_winbytes s = 0" and "dec_del_ind s = 0"
    and "dec_win_ind s AND VCD_TARGET = 0"
  shows "\<exists>ret t. xd3_decode_sections s = (ret, t) \<and> (ret = ENOMEM \<and> (\<exists>k. \<not> alloc s k) \<or>
    ret = XD3_OK \<and> emitting t \<and> dec_state t = DEC_EMIT \<and>
    sections_frame s t \<and> has_sections data inst addr t \<and> next_in t = rest \<and> dec_tgtlen t \<le> space_out t)"
proof -
  have f: "filling DATA_SECTION s" using assms(4,5) by (simp add: dec_inv_def)
  then have pos: "ds_pos (data_sect s) = 0" "ds_pos (inst_sect s) = 0" "ds_pos (addr_sect s) = 0"
    using assms(6) by (simp_all add: filling_def)
  have fl: "flags s AND 14 = 0" using f by (simp add: filling_def base_def)
  note fb = flags_bits [OF fl]
  obtain t where t: "sections_data False s = (XD3_OK, t)" "sections_frame s t" "has_sections data inst addr t" "next_in t = rest"
    using sections_data_whole [OF assms(1-3) pos] by blast
  let ?i = "ds_size (inst_sect s)" and ?a = "ds_size (addr_sect s)" and ?d = "ds_size (data_sect s)"
  have u: "unat ?i = length inst" "unat ?a = length addr" "unat ?d = length data"
    using assms(2,3) by (simp_all add: has_sizes_def unat_of_nat_64)
  have ia: "unat (?i + ?a) = length inst + length addr" "unat (?i + ?a + ?d) = length inst + length addr + length data"
    using assms(3) by (simp_all add: unat_word_ariths u)
  have no: "\<not> USIZE_T_OVERFLOW ?i ?a" "\<not> USIZE_T_OVERFLOW (?i + ?a) ?d"
    using assms(3) by (simp_all add: USIZE_T_OVERFLOW_iff u ia)
  have more: "min (unat (?i + ?a + ?d - dec_winbytes s)) (length (next_in s)) = unat (?i + ?a + ?d - dec_winbytes s)"
    by (simp add: assms(1,6) ia)
  have "flags t = flags s" "dec_del_ind t = 0" using t(2) assms(7) by (simp_all add: sections_frame_def)
  then have eq: "xd3_decode_sections s = xd3_decode_setup_buffers t"
    unfolding xd3_decode_sections_def Let_def more using fb no t(1) assms(5)
    by (simp add: xd3_decode_secondary_sections_def)
  have tgt: "dec_win_ind t AND VCD_TARGET = 0" using t(2) assms(8) by (simp add: sections_frame_def)
  obtain ret v where v: "xd3_decode_setup_buffers t = (ret, v)" by fastforce
  have "alloc t = alloc s" using t(2) by (simp add: sections_frame_def)
  then have m: "ret = XD3_OK \<or> ret = ENOMEM \<and> (\<exists>k. \<not> alloc s k)"
    using v tgt by (auto simp: xd3_decode_setup_buffers_def xd3_alloc_def Let_def xd3_try_fail free_winbuf_def
        split: if_splits option.splits)
  show ?thesis
  proof (cases "ret = XD3_OK")
    case True
    have "whole False s" using assms(1,3,6) by (simp add: whole_def u Let_def)
    then have "filled t" using sections_data_ok [OF f _ assms(5), of False] t(1) by simp
    then have "emitting v \<and> dec_state v = DEC_EMIT"
      using setup_buffers_ok [of t] v True by (simp add: returns_def)
    then show ?thesis
      using setup_buffers_frame [OF v [unfolded True]] t sections_frame_trans [OF t(2)] v eq True
      by (auto simp: has_sections_def)
  next
    case False
    then show ?thesis using m v eq by auto
  qed
qed


section \<open>Calls for a window\<close>

text \<open>The application calls again after a header, and after it has been asked for a block of the source.\<close>

inductive window_calls :: "uint8 list \<Rightarrow> (usize_t \<Rightarrow> xd3_sec_type option) \<Rightarrow> xd3_decoder \<Rightarrow> xd3_rvalue \<Rightarrow> xd3_decoder \<Rightarrow> bool"
  for content secs s where
  call_first: "xd3_decode_input secs s = (ret, t) \<Longrightarrow> window_calls content secs s ret t"
| call_again: "window_calls content secs s ret t \<Longrightarrow>
    ret \<in> {XD3_GOTHEADER, XD3_WINSTART} \<and> u = t \<or> ret = XD3_GETSRCBLK \<and> (u = t \<or> supplied content t u) \<Longrightarrow>
    xd3_decode_input secs u = (ret', v) \<Longrightarrow> window_calls content secs s ret' v"

text \<open>Executing, between two calls of \<open>xd3_decode_input\<close>.  \<open>case_emit\<close> computes the place of the copy window again.\<close>

definition in_window :: "uint8 list \<Rightarrow> xd3_decoder \<Rightarrow> bool" where
  "in_window content t \<longleftrightarrow> emitting t \<and> dec_state t = DEC_EMIT \<and> window_in content t \<and> code_table t = rfc3284_code_table \<and>
     dec_maxpos t = dec_cpylen t + dec_tgtlen t \<and> src_fit (dec_cpylen t) (dec_current1 t) \<and>
     src_fit (dec_cpylen t) (dec_current2 t) \<and> (dec_win_ind t AND VCD_SOURCE \<noteq> 0 \<longrightarrow> src t \<noteq> None)"

definition emit_entry :: "xd3_decoder \<Rightarrow> xd3_decoder" where
  "emit_entry s =
     (if dec_win_ind s AND VCD_SOURCE \<noteq> 0 then
        (case src s of
           None \<Rightarrow> s
         | Some x \<Rightarrow>
             (case xd3_blksize_div (dec_cpyoff s) x of
                (b, r) \<Rightarrow> s\<lparr>src := Some (x\<lparr>cpyoff_blocks := b, cpyoff_blkoff := r\<rparr>)\<rparr>))
      else s)"

text \<open>States that differ in the source only.\<close>

definition new_source :: "uint8 list \<Rightarrow> xd3_decoder \<Rightarrow> xd3_decoder \<Rightarrow> bool" where
  "new_source content t u \<longleftrightarrow> u = t \<or> (\<exists>x y. src t = Some x \<and> u = t\<lparr>src := Some y\<rparr> \<and> (holds_file content x \<longrightarrow> holds_file content y))"

lemma holds_file_ok: "holds_file content y \<Longrightarrow> source_ok y \<and> block_ok y"
  by (auto simp: holds_file_def block_ok_def word_le_nat_alt block_of_def split: option.splits)

lemma new_source_same:
  assumes "new_source content t u"
  shows "window_value content u = window_value content t" "announced u = announced t" "unread u = unread t"
    "run_frame t u"
proof -
  consider "u = t" | y where "u = t\<lparr>src := Some y\<rparr>" using assms by (auto simp: new_source_def)
  note u = this
  show "run_frame t u" using u by cases (simp_all add: run_frame_def)
  show "announced u = announced t" using u by cases (rule ext, simp add: announced_def)+
  show "unread u = unread t" using u by cases (simp_all add: unread_def)
  have wr: "written u = written t"
  proof (cases "u = t")
    case False
    then obtain y where "u = t\<lparr>src := Some y\<rparr>" using u by blast
    then show ?thesis by (subst written_cong [where s = t]) (simp_all add: prod_eq_iff)
  qed simp
  show "window_value content u = window_value content t"
    using u unfolding window_value_def future_def wr by cases (simp_all add: seg_of_def)
qed

lemma new_source_in_window:
  assumes "in_window content t" and "new_source content t u"
  shows "in_window content u"
proof (cases "u = t")
  case False
  then obtain x y where u: "src t = Some x" "u = t\<lparr>src := Some y\<rparr>" "holds_file content x \<longrightarrow> holds_file content y"
    using assms(2) by (auto simp: new_source_def)
  have y: "holds_file content y" using u assms(1) by (simp add: in_window_def window_in_def src_true_def)
  have "win_ok u = win_ok t" by (rule win_ok_cong) (simp_all add: u)
  moreover have "table_ok u = table_ok t" by (simp add: u table_ok_def)
  moreover have "src_ok u" using assms(1) holds_file_ok [OF y] by (simp add: in_window_def emitting_def src_ok_def u)
  ultimately show ?thesis
    using assms(1) y u(1) by (simp add: in_window_def emitting_def u(2) window_in_def src_true_def)
qed (use assms in simp)

lemma emit_entry_new: "new_source content t (emit_entry t)"
  by (auto simp: emit_entry_def new_source_def holds_file_def source_ok_def xd3_blksize_div_def split: option.splits prod.splits)

lemma emit_entry_executing:
  assumes "in_window content t"
  shows "executing content (emit_entry t)"
proof -
  have e: "in_window content (emit_entry t)" by (rule new_source_in_window [OF assms emit_entry_new])
  have "src_ready (emit_entry t)" if "dec_cpylen (emit_entry t) \<noteq> 0"
  proof -
    have "dec_win_ind (emit_entry t) AND VCD_SOURCE \<noteq> 0" using e that by (simp add: in_window_def emitting_def)
    moreover have "run_frame t (emit_entry t)" by (rule new_source_same(4) [OF emit_entry_new])
    ultimately obtain x where "src t = Some x" "dec_win_ind t AND VCD_SOURCE \<noteq> 0"
      using assms by (auto simp: in_window_def run_frame_def)
    then show ?thesis by (simp add: emit_entry_def src_ready_def xd3_blksize_div_def)
  qed
  then have "emit_inv (emit_entry t)" using e by (intro emitting_emit_inv) (simp_all add: in_window_def)
  then show ?thesis using e by (simp add: in_window_def executing_def)
qed


text \<open>What a call may do in the middle of a window.\<close>

definition call_true :: "uint8 list \<Rightarrow> uint8 list option \<Rightarrow> (uint8 list \<Rightarrow> bool) \<Rightarrow> bool \<Rightarrow> uint8 list \<Rightarrow> xd3_rvalue \<Rightarrow> xd3_decoder \<Rightarrow> bool" where
  "call_true content val ann un rest ret t \<longleftrightarrow>
     ret = XD3_OUTPUT \<and> (\<exists>bs. val = Some bs \<and> ann bs \<and> out_bytes t = Some bs \<and> unat (avail_out t) = length bs) \<and>
       next_in t = rest \<or>
     ret = XD3_INVALID_INPUT \<and> \<not> (\<exists>bs. val = Some bs \<and> ann bs) \<or>
     ret \<notin> {XD3_OK, XD3_OUTPUT, XD3_INVALID_INPUT, C_UNDEFINED, C_DIVERGES} \<and> un \<and> in_window content t \<and>
       window_value content t = val \<and> announced t = ann \<and> unread t = un \<and> next_in t = rest"

lemma emit_checks_run: "emit_checks u = (ret, v) \<Longrightarrow> run_frame u v \<and> ret \<in> {XD3_OK, XD3_INVALID_INPUT, C_UNDEFINED}"
  by (auto simp: emit_checks_def run_frame_def split: if_splits option.splits)

lemma decode_emit_frame:
  assumes "xd3_decode_emit s = (ret, t)" and "executing content s"
  shows "next_in t = next_in s" "ret \<noteq> XD3_OUTPUT \<Longrightarrow> run_frame s t"
proof -
  obtain r u where l: "decode_emit_loop s = (r, u)" by fastforce
  have f: "run_frame s u" by (rule decode_emit_loop_run [OF l])
  have "r \<noteq> XD3_OUTPUT" using decode_emit_loop_ok [OF _ l] assms(2) by (simp add: executing_def)
  show "next_in t = next_in s" "ret \<noteq> XD3_OUTPUT \<Longrightarrow> run_frame s t"
  proof (atomize (full), cases "r = XD3_OK")
    case False
    then show "next_in t = next_in s \<and> (ret \<noteq> XD3_OUTPUT \<longrightarrow> run_frame s t)"
      using assms(1) l f by (simp add: xd3_decode_emit_def xd3_try_fail run_frame_def)
  next
    case True
    obtain r2 v where c: "emit_checks u = (r2, v)" by fastforce
    have v: "run_frame s v" using emit_checks_run [OF c] run_frame_trans [OF f] by blast
    then show "next_in t = next_in s \<and> (ret \<noteq> XD3_OUTPUT \<longrightarrow> run_frame s t)"
      using assms(1) l True c
      by (cases "r2 = XD3_OK") (auto simp: xd3_decode_emit_def xd3_try_fail xd3_decode_finish_window_def run_frame_def)
  qed
qed

lemma decode_emit_call:
  assumes "in_window content t" and "xd3_decode_input secs t = (ret, v)"
  shows "call_true content (window_value content t) (announced t) (unread t) (next_in t) ret v"
proof -
  define e where "e = emit_entry t"
  have ex: "executing content e" unfolding e_def by (rule emit_entry_executing [OF assms(1)])
  note same = new_source_same [OF emit_entry_new [of content t], folded e_def]
  obtain w where w: "xd3_decode_emit e = (ret, w)" "v = (if ret = XD3_OUTPUT then w\<lparr>total_out := total_out w + avail_out w\<rparr> else w)"
  proof -
    have "xd3_decode_input secs t = emit_and_count e"
      using assms(1) by (auto simp: in_window_def emitting_def xd3_decode_input_def case_emit_def e_def emit_entry_def
          split: prod.splits)
    then show ?thesis using that assms(2) by (auto simp: emit_and_count_def split: prod.splits)
  qed
  have tr: "emit_true content e (ret, w)" by (rule decode_emit_true [OF ex w(1)])
  note fr = decode_emit_frame [OF w(1) ex]
  have n: "next_in w = next_in t" using fr(1) same(4) by (simp add: run_frame_def)
  consider "ret = XD3_OUTPUT" | "ret = XD3_INVALID_INPUT" | "ret \<notin> {XD3_OUTPUT, XD3_INVALID_INPUT}" by blast
  then show ?thesis
  proof cases
    case 1
    have "out_bytes v = out_bytes w" by (rule out_bytes_cong) (simp_all add: w(2))
    then show ?thesis using 1 tr n same by (simp add: call_true_def emit_true_def w(2))
  next
    case 2
    then show ?thesis using tr same by (simp add: call_true_def emit_true_def)
  next
    case 3
    then have k: "ret \<notin> {XD3_OK, XD3_OUTPUT, XD3_INVALID_INPUT, C_UNDEFINED, C_DIVERGES}" "unread e" "executing content w"
      "window_value content w = window_value content e" "announced w = announced e" "w = v"
      using tr w(2) by (auto simp: emit_true_def)
    have rf: "run_frame e w" using fr(2) 3 by simp
    have st: "in_window content e" unfolding e_def by (rule new_source_in_window [OF assms(1) emit_entry_new])
    have "emitting w" using emit_inv_emitting [OF _ rf] k(3) st by (simp add: executing_def in_window_def)
    moreover have "src w \<noteq> None"
      using k(2,3) rf by (auto simp: executing_def emit_inv_def exec_pre_def src_ready_def unread_def run_frame_def
          split: option.splits)
    moreover have "dec_state w = DEC_EMIT" using rf st by (simp add: run_frame_def in_window_def)
    ultimately have "in_window content w" using k(3) by (simp add: in_window_def executing_def)
    moreover have "unread w = unread t" using rf same(3) by (simp add: unread_def run_frame_def)
    ultimately show ?thesis using 3 k same n by (simp add: call_true_def)
  qed
qed


text \<open>The window that a layout stands for.\<close>

definition segment_of :: "uint8 list \<Rightarrow> (usize_t \<times> xoff_t) option \<Rightarrow> uint8 list" where
  "segment_of content source =
     (case source of None \<Rightarrow> [] | Some (len, off) \<Rightarrow> take (unat len) (drop (unat off) content))"

definition fits :: "uint32 \<Rightarrow> usize_t \<Rightarrow> uint32 option \<Rightarrow> uint8 list \<Rightarrow> bool" where
  "fits fl n cks bs \<longleftrightarrow> length bs = unat n \<and>
     (fl AND XD3_ADLER32_NOVER = 0 \<longrightarrow> (case cks of None \<Rightarrow> True | Some c \<Rightarrow> adler32 1 bs = c))"

text \<open>A block of the copy window may have to be waited for, or may be unreadable.\<close>

definition blocked :: "(usize_t \<times> xoff_t) option \<Rightarrow> xd3_decoder \<Rightarrow> bool" where
  "blocked source s \<longleftrightarrow> (case source of None \<Rightarrow> False | Some (len, off) \<Rightarrow> len \<noteq> 0) \<and>
     (case getblk s of None \<Rightarrow> True | Some f \<Rightarrow> \<exists>x n. fst (f x n) \<noteq> XD3_OK)"

lemma init_cache_fresh:
  "s_near c = 4 \<Longrightarrow> s_same c = 3 \<Longrightarrow> xd3_init_cache c = xd3_init_cache (acache_zero\<lparr>s_near := 4, s_same := 3\<rparr>)"
  by (cases c) (simp add: xd3_init_cache_def acache_zero_def Let_def)

definition first_call :: "uint8 list \<Rightarrow> (usize_t \<times> xoff_t) option \<Rightarrow> usize_t \<Rightarrow> uint32 option \<Rightarrow>
    uint8 list \<Rightarrow> uint8 list \<Rightarrow> uint8 list \<Rightarrow> uint8 list \<Rightarrow> xd3_decoder \<Rightarrow> xd3_decoder \<Rightarrow> bool" where
  "first_call content source n cks data inst addr rest s t \<longleftrightarrow> has_header source n cks t \<and> has_sizes data inst addr t \<and>
     header_frame s t \<and> next_in t = data @ inst @ addr @ rest \<and> dec_state t = DEC_DATA \<and>
     acache t = xd3_init_cache (acache s) \<and> dec_inv t"

lemma ready_idle: "ready content s \<Longrightarrow> idle s \<and> table_ok s \<and> base s \<and> enc_state s = ENC_INIT \<and> dec_winbytes s = 0"
  by (auto simp: ready_def dec_inv_def idle_def base_def)

lemma header_call:
  assumes "ready content s" and "next_in s = window_layout source n cks data inst addr @ rest"
    and "n \<le> XD3_HARDMAXWINSIZE" and "\<And>l off. source = Some (l, off) \<Longrightarrow> unat off + unat l \<le> length content"
    and "\<And>i. sec_ok (secs i)" and "xd3_decode_input secs s = (ret, t)"
  shows "ret \<in> {XD3_GOTHEADER, XD3_WINSTART} \<and> first_call content source n cks data inst addr rest s t"
proof -
  have inv: "dec_inv s" "dec_state s = DEC_WININD" "length content < 2 ^ 62" "enc_state s = ENC_INIT"
    using assms(1) ready_idle [OF assms(1)] by (simp_all add: ready_def src_true_def)
  then have "case_winind s = (ret, t)" using assms(6) by (simp add: xd3_decode_input_def)
  moreover have "\<exists>t ret. case_winind s = (ret, t) \<and> ret \<in> {XD3_GOTHEADER, XD3_WINSTART} \<and>
    has_header source n cks t \<and> has_sizes data inst addr t \<and> header_frame s t \<and>
    next_in t = data @ inst @ addr @ rest \<and> dec_state t = DEC_DATA \<and> acache t = xd3_init_cache (acache s)"
    by (rule case_winind_header [OF assms(2,1,3)]) (use assms(4) inv(3) in force)
  ultimately have r: "ret \<in> {XD3_GOTHEADER, XD3_WINSTART}" "has_header source n cks t" "has_sizes data inst addr t"
    "header_frame s t" "next_in t = data @ inst @ addr @ rest" "dec_state t = DEC_DATA" "acache t = xd3_init_cache (acache s)"
    by auto
  have "returns (xd3_decode_input secs s) (\<lambda>_. False) stop_ok" by (rule decode_input_ok [OF inv(1) assms(5)])
  then have "dec_inv t" using r(1) assms(6) by (auto simp: returns_def stop_ok_def)
  then show ?thesis using r by (simp add: first_call_def)
qed

lemma sections_call:
  assumes "ready content s" and t: "first_call content source n cks data inst addr rest s t"
    and "length data + length inst + length addr < 2 ^ 64"
    and "\<And>l off. source = Some (l, off) \<Longrightarrow> unat off + unat l \<le> length content \<and> src s \<noteq> None"
    and call: "xd3_decode_input secs t = (ret, v)" and nomem: "ret \<noteq> ENOMEM \<or> (\<forall>k. alloc s k)"
  obtains u where "xd3_decode_input secs u = (ret, v)" "in_window content u" "next_in u = rest"
    "window_value content u = vcdiff_window (segment_of content source) data inst addr"
    "announced u = fits (flags s) n cks" "unread u = blocked source s"
proof -
  have f: "has_header source n cks t" "has_sizes data inst addr t" "header_frame s t" "next_in t = data @ inst @ addr @ rest"
    "dec_state t = DEC_DATA" "acache t = xd3_init_cache (acache s)" "dec_inv t" using t by (simp_all add: first_call_def)
  have s: "dec_winbytes s = 0" "table_ok s" "enc_state s = ENC_INIT" "code_table s = rfc3284_code_table" "src_true content s"
    using assms(1) ready_idle [OF assms(1)] by (simp_all add: ready_def)
  have b: "base t" "avail_out t = 0" using f(5,7) by (simp_all add: dec_inv_def filling_def)
  have w: "dec_win_ind t AND VCD_TARGET = 0" using f(1) checksum_bit(3) [of source cks] by (simp add: has_header_def)
  obtain r u where r: "xd3_decode_sections t = (r, u)" "r = ENOMEM \<and> (\<exists>k. \<not> alloc t k) \<or> r = XD3_OK \<and> emitting u \<and> dec_state u = DEC_EMIT \<and>
    sections_frame t u \<and> has_sections data inst addr u \<and> next_in u = rest \<and> dec_tgtlen u \<le> space_out u"
    using decode_sections_whole [OF f(4,2) assms(3) f(7,5)] f(1,3) s(1) w by (auto simp: has_header_def header_frame_def)
  have e: "xd3_decode_input secs t = xd3_try (r, u) case_emit"
    using f(3,5) s(3) r(1) by (simp add: xd3_decode_input_def header_frame_def case_sections_def)
  have "r = XD3_OK" using r(2) e call nomem f(3) by (auto simp: xd3_try_fail header_frame_def)
  then have u: "emitting u" "dec_state u = DEC_EMIT" "sections_frame t u" "has_sections data inst addr u" "next_in u = rest"
    "dec_tgtlen u \<le> space_out u" using r(2) by simp_all
  have "xd3_decode_input secs u = case_emit u" using u(1,2) by (simp add: xd3_decode_input_def emitting_def)
  then have 1: "xd3_decode_input secs u = (ret, v)" using e call \<open>r = XD3_OK\<close> by simp
  have c: "(dec_cpylen u, dec_cpyoff u) = (case source of None \<Rightarrow> (0, 0) | Some p \<Rightarrow> p)"
    "dec_win_ind u = ucast (window_ind source cks)" "dec_tgtlen u = n" "dec_maxpos u = dec_cpylen u + n"
    "src u = src s" "getblk u = getblk s" "flags u = flags s" "code_table u = rfc3284_code_table"
    "acache u = xd3_init_cache (acache s)" "\<not> insts_pending u" "avail_out u = 0"
    "case cks of None \<Rightarrow> True | Some c \<Rightarrow> dec_adler32 u = c"
    using f(1,3,6) u(3) b s(4) by (simp_all add: has_header_def sections_frame_def header_frame_def base_def insts_pending_def
        split: option.splits)
  have noop: "hi_type (dec_current1 u) = XD3_NOOP" "hi_type (dec_current2 u) = XD3_NOOP"
    using c(10) by (simp_all add: insts_pending_def)
  have "src_true content u" using s(5) c(5,6) by (simp add: src_true_def)
  then have "window_in content u"
    using u(6) c(1,6) assms(1,4) by (cases source) (auto simp: window_in_def ready_def)
  moreover have "dec_win_ind u AND VCD_SOURCE \<noteq> 0 \<longrightarrow> src u \<noteq> None"
    using assms(4) c(2,5) checksum_bit(2) [of source cks] by (cases source) auto
  ultimately have 2: "in_window content u" using u c(3,4,8) noop by (simp add: in_window_def src_fit_def)
  define x where "x = emit_entry u"
  note new = emit_entry_new [of content u, folded x_def]
  have x: "x = u \<or> (\<exists>y. x = u\<lparr>src := Some y\<rparr>)" using new by (auto simp: new_source_def)
  have "window_start content x"
    using emit_entry_executing [OF 2] x c(9,10,11) init_cache_fresh [of "acache s"] s(2)
    by (auto simp: window_start_def x_def [symmetric] table_ok_def insts_pending_def)
  from window_start_value [OF this] have "window_value content x = vcdiff_window (seg_of content x) data inst addr"
    using x u(4) by (auto simp: has_sections_def)
  moreover have "seg_of content x = segment_of content source"
    using x c(1) by (cases source) (auto simp: seg_of_def segment_of_def)
  ultimately have 3: "window_value content u = vcdiff_window (segment_of content source) data inst addr"
    using new_source_same(1) [OF new] by simp
  have 4: "announced u = fits (flags s) n cks"
    using c(2,3,7,12) checksum_bit(1) [of source cks] by (cases cks) (auto simp: announced_def fits_def fun_eq_iff)
  have 5: "unread u = blocked source s"
    using c(1,6) by (cases source) (auto simp: unread_def blocked_def)
  show ?thesis by (rule that [OF 1 2 u(5) 3 4 5])
qed


text \<open>Any sequence of calls: the headers are read by the first call, the sections by the second.\<close>

lemma new_source_supplied: "u = t \<or> supplied content t u \<Longrightarrow> new_source content t u"
  by (auto simp: new_source_def supplied_def)

lemma window_calls_true:
  assumes "window_calls content secs s ret t"
    and "ready content s" and "next_in s = window_layout source n cks data inst addr @ rest"
    and "n \<le> XD3_HARDMAXWINSIZE" and "length data + length inst + length addr < 2 ^ 64"
    and "\<And>l off. source = Some (l, off) \<Longrightarrow> unat off + unat l \<le> length content \<and> src s \<noteq> None"
    and "\<And>i. sec_ok (secs i)"
  shows "ret \<in> {XD3_GOTHEADER, XD3_WINSTART} \<and> first_call content source n cks data inst addr rest s t \<or>
    ret = ENOMEM \<and> (\<exists>k. \<not> alloc s k) \<or>
    call_true content (vcdiff_window (segment_of content source) data inst addr) (fits (flags s) n cks)
      (blocked source s) rest ret t"
  using assms(1)
proof (induction rule: window_calls.induct)
  case (call_first ret t)
  have "ret \<in> {XD3_GOTHEADER, XD3_WINSTART} \<and> first_call content source n cks data inst addr rest s t"
    by (rule header_call [OF assms(2,3,4) _ assms(7) call_first]) (use assms(6) in blast)
  then show ?case by blast
next
  case (call_again ret t u ret' v)
  show ?case
  proof (cases "ret \<in> {XD3_GOTHEADER, XD3_WINSTART} \<and> u = t \<and> first_call content source n cks data inst addr rest s t")
    case True
    then have f: "first_call content source n cks data inst addr rest s t" and c: "xd3_decode_input secs t = (ret', v)"
      using call_again(3) by simp_all
    show ?thesis
    proof (cases "ret' \<noteq> ENOMEM \<or> (\<forall>k. alloc s k)")
      case True
      obtain w where w: "xd3_decode_input secs w = (ret', v)" "in_window content w" "next_in w = rest"
        "window_value content w = vcdiff_window (segment_of content source) data inst addr"
        "announced w = fits (flags s) n cks" "unread w = blocked source s"
        using sections_call [OF assms(2) f assms(5,6) c True] by blast
      then show ?thesis using decode_emit_call [OF w(2,1)] by simp
    qed auto
  next
    case False
    then have ct: "call_true content (vcdiff_window (segment_of content source) data inst addr) (fits (flags s) n cks)
      (blocked source s) rest ret t" and r: "ret \<notin> {XD3_OUTPUT, XD3_INVALID_INPUT}" and new: "new_source content t u"
      using call_again(2,4) by (auto intro: new_source_supplied simp: call_true_def)
    then have t: "in_window content t" "window_value content t = vcdiff_window (segment_of content source) data inst addr"
      "announced t = fits (flags s) n cks" "unread t = blocked source s" "next_in t = rest" by (simp_all add: call_true_def)
    have "in_window content u" by (rule new_source_in_window [OF t(1) new])
    from decode_emit_call [OF this call_again(3)] show ?thesis
      using t new_source_same [OF new] by (simp add: run_frame_def)
  qed
qed


section \<open>The file header\<close>

text \<open>The application header, when there is one.\<close>

definition app_bytes :: "uint8 list option \<Rightarrow> uint8 list" where
  "app_bytes app = (case app of None \<Rightarrow> [] | Some d \<Rightarrow> xd3_emit_size_bytes (of_nat (length d)) @ d)"

lemma decode_bytes_loop_exact: "length bs = n \<Longrightarrow> decode_bytes_loop n [] (bs @ rest) = (XD3_OK, bs, rest)"
  using decode_bytes_loop_all [of "[]" bs rest] by simp

definition file_header :: "uint8 list option \<Rightarrow> uint8 list" where
  "file_header app =
     [0xd6, 0xc3, 0xc4, 0, (case app of None \<Rightarrow> 0 | Some _ \<Rightarrow> 4)] @
     app_bytes app"

text \<open>A decoder before its first byte.\<close>

definition fresh :: "uint8 list \<Rightarrow> xd3_decoder \<Rightarrow> bool" where
  "fresh content s \<longleftrightarrow> dec_inv s \<and> dec_state s = DEC_VCHEAD \<and> dec_64part s = 0 \<and> src_true content s \<and>
     dec_magic s = [] \<and> dec_appheader s = None \<and>
     (\<forall>f. getblk s = Some f \<longrightarrow> (\<forall>x n. fst (f x n) \<noteq> XD3_INVALID_INPUT)) \<and>
     unat (dec_winstart s) + unat (dec_tgtlen s) < 2 ^ 64"

lemma alloc_cache_frame:
  "xd3_alloc_cache s = (ret, t) \<Longrightarrow> ret = ENOMEM \<and> (\<exists>k. \<not> alloc s k) \<or> ret = XD3_OK \<and> t = s\<lparr>acache := acache t, alloc_cnt := alloc_cnt t\<rparr>"
  for s :: xd3_decoder
  by (auto simp: xd3_alloc_cache_def xd3_alloc_def Let_def split: prod.splits if_splits)

lemma case_tablen_skips:
  assumes "dec_hdr_ind s AND VCD_CODETABLE = 0"
  shows "case_tablen s = case_tabdat (s\<lparr>dec_state := DEC_TABDAT\<rparr>)"
  using assms by (simp add: case_tablen_def case_near_def case_same_def SIZE_CASE_def BYTE_CASE_def)

lemma case_applen_reads:
  assumes "next_in s = app_bytes app @ rest" and "dec_hdr_ind s = (case app of None \<Rightarrow> 0 | Some _ \<Rightarrow> VCD_APPHEADER)"
    and "dec_appheader s = None" and "dec_64part s = 0" and "\<And>d. app = Some d \<Longrightarrow> length d < 2 ^ 63"
  shows "fst (case_applen s) = ENOMEM \<and> (\<exists>k. \<not> alloc s k) \<or> (\<exists>m n k a z. case_applen s = case_winind (s\<lparr>total_in := m, next_in := rest,
      dec_appheadsz := z, alloc_cnt := k, dec_appheader := a, dec_hdrsize := n, dec_state := DEC_WININD\<rparr>))"
proof (cases app)
  case None
  have "case_applen s = case_winind (s\<lparr>total_in := total_in s, next_in := rest, dec_appheadsz := dec_appheadsz s,
      alloc_cnt := alloc_cnt s, dec_appheader := dec_appheader s, dec_hdrsize := total_in s, dec_state := DEC_WININD\<rparr>)"
    using assms(1,2) None by (simp add: case_applen_def case_appdat_def SIZE_CASE_def app_bytes_def)
      (rule arg_cong [where f = case_winind], simp)
  then show ?thesis by blast
next
  case (Some d)
  let ?z = "of_nat (length d) :: usize_t"
  define s1 where "s1 = s\<lparr>total_in := total_in s + of_nat (length (xd3_emit_size_bytes ?z)), next_in := d @ rest,
      dec_appheadsz := ?z, dec_state := DEC_APPDAT\<rparr>"
  have n: "next_in s = xd3_emit_size_bytes ?z @ d @ rest" using assms(1) Some by (simp add: app_bytes_def)
  have 1: "case_applen s = case_appdat s1"
    using assms(2) Some
    by (simp add: case_applen_def size_case_emitted [OF n assms(4)]) (rule arg_cong [where f = case_appdat], simp add: s1_def)
  have l: "unat ?z = length d" using assms(5) [OF Some] by (simp add: unat_of_nat_64)
  have ov: "\<not> USIZE_T_OVERFLOW ?z 1" using assms(5) [OF Some] by (simp add: USIZE_T_OVERFLOW_iff l)
  show ?thesis
  proof (cases "alloc s1 (alloc_cnt s1)")
    case False
    then have "fst (case_appdat s1) = ENOMEM"
      using assms(2,3) Some ov by (simp add: case_appdat_def s1_def xd3_alloc_def xd3_try_fail)
    moreover have "\<not> alloc s (alloc_cnt s)" using False by (simp add: s1_def)
    ultimately show ?thesis using 1 by auto
  next
    case True
    have b: "decode_bytes_loop (length d) [] (d @ rest) = (XD3_OK, d, rest)"
      using decode_bytes_loop_all [of "[]" d rest] by simp
    have "case_appdat s1 = case_winind (s\<lparr>total_in := total_in s1 + of_nat (length d), next_in := rest,
      dec_appheadsz := ?z, alloc_cnt := alloc_cnt s + 1, dec_appheader := Some d,
      dec_hdrsize := total_in s1 + of_nat (length d), dec_state := DEC_WININD\<rparr>)"
      using assms(2,3) Some ov True
      by (simp add: case_appdat_def s1_def xd3_alloc_def xd3_decode_bytes_def l b DECODE_INPUT_def Let_def)
        (rule arg_cong [where f = case_winind], simp)
    then show ?thesis using 1 by metis
  qed
qed


lemma case_vchead_reads:
  assumes f: "fresh content s" and n: "next_in s = file_header app @ rest" and l: "\<And>d. app = Some d \<Longrightarrow> length d < 2 ^ 63"
  shows "fst (case_vchead secs s) = ENOMEM \<and> (\<exists>k. \<not> alloc s k) \<or> (\<exists>t. case_vchead secs s = case_winind t \<and> ready content t \<and> next_in t = rest \<and>
    src t = src s \<and> getblk t = getblk s \<and> flags t = flags s \<and> alloc t = alloc s)"
proof -
  define ind where "ind = (case app of None \<Rightarrow> 0 | Some _ \<Rightarrow> VCD_APPHEADER)"
  have ind: "ind AND VCD_CODETABLE = 0" "ind AND VCD_SECONDARY = 0" "ind AND 0xfffffff8 = 0" by (cases app; simp add: ind_def)+
  have n': "next_in s = [0xd6, 0xc3, 0xc4, 0] @ ucast ind # app_bytes app @ rest"
    using n by (cases app) (simp_all add: file_header_def ind_def)
  have "decode_bytes_loop (unat (4 :: usize_t)) [] (next_in s) = (XD3_OK, [0xd6, 0xc3, 0xc4, 0], ucast ind # app_bytes app @ rest)"
    using decode_bytes_loop_exact [of "[0xd6, 0xc3, 0xc4, 0]" 4 "ucast ind # app_bytes app @ rest"] unfolding n' by simp
  then have m: "xd3_decode_bytes dec_magic (\<lambda>b s. s\<lparr>dec_magic := b\<rparr>) 4 s = (XD3_OK, s\<lparr>total_in := total_in s + 4,
      next_in := ucast ind # app_bytes app @ rest, dec_magic := [0xd6, 0xc3, 0xc4, 0]\<rparr>)"
    using f n' by (simp add: xd3_decode_bytes_def fresh_def DECODE_INPUT_def Let_def)
  define s1 where "s1 = s\<lparr>total_in := total_in s + 5, next_in := app_bytes app @ rest, dec_magic := [0xd6, 0xc3, 0xc4, 0],
      dec_hdr_ind := ind, acache := (acache s)\<lparr>s_near := 4, s_same := 3\<rparr>, code_table := xd3_rfc3284_code_table,
      dec_state := DEC_TABDAT\<rparr>"
  have u: "ucast (ucast ind :: uint8) = ind" by (cases app) (simp_all add: ind_def)
  have t: "ucast (near_modes rfc3284_code_table_desc) = (4 :: usize_t)"
    "ucast (same_modes rfc3284_code_table_desc) = (3 :: usize_t)" by code_simp+
  have 1: "case_vchead secs s = xd3_try (xd3_alloc_cache s1) (\<lambda>s. case_applen (s\<lparr>dec_state := DEC_APPLEN\<rparr>))"
  proof -
    let ?s = "s\<lparr>total_in := total_in s + 5, next_in := app_bytes app @ rest, dec_magic := [0xd6, 0xc3, 0xc4, 0],
        dec_hdr_ind := ind, dec_state := DEC_SECONDID\<rparr>"
    have "case_vchead secs s = case_secondid secs ?s"
      by (simp add: case_vchead_def m case_hdrind_def xd3_decode_byte_def DECODE_INPUT_def u ind add.assoc)
        (rule arg_cong [where f = "case_secondid secs"], simp)
    also have "\<dots> = case_tabdat (?s\<lparr>dec_state := DEC_TABDAT\<rparr>)"
      by (simp add: case_secondid_def ind case_tablen_skips)
    also have "\<dots> = xd3_try (xd3_alloc_cache s1) (\<lambda>s. case_applen (s\<lparr>dec_state := DEC_APPLEN\<rparr>))"
      by (simp add: case_tabdat_def ind t Let_def)
        (rule arg_cong [where f = "\<lambda>s. xd3_try (xd3_alloc_cache s) (\<lambda>s. case_applen (s\<lparr>dec_state := DEC_APPLEN\<rparr>))"], simp add: s1_def)
    finally show ?thesis .
  qed
  obtain r s2 where a: "xd3_alloc_cache s1 = (r, s2)" by fastforce
  show ?thesis
  proof (cases "r = XD3_OK")
    case False
    then show ?thesis using alloc_cache_frame [OF a] 1 a by (auto simp: xd3_try_fail s1_def)
  next
    case True
    have s2: "s2 = s1\<lparr>acache := acache s2, alloc_cnt := alloc_cnt s2\<rparr>" using alloc_cache_frame [OF a] True by simp
    have "hdr s" using f by (auto simp: fresh_def dec_inv_def)
    then have "idle s1" "next_slot (acache s1) = 0" by (simp_all add: s1_def hdr_def idle_def base_def insts_pending_def)
    then have ok: "idle s2" "table_ok s2"
      using alloc_cache_returns [of s1] a True by (simp_all add: s1_def)
    define s3 where "s3 = s2\<lparr>dec_state := DEC_APPLEN\<rparr>"
    have f3: "next_in s3 = app_bytes app @ rest" "dec_hdr_ind s3 = (case app of None \<Rightarrow> 0 | Some _ \<Rightarrow> VCD_APPHEADER)"
      "dec_appheader s3 = None" "dec_64part s3 = 0"
      using f by (subst s3_def, subst s2, simp add: s1_def ind_def fresh_def)+
    have f3': "src s3 = src s" "getblk s3 = getblk s" "flags s3 = flags s" "code_table s3 = xd3_rfc3284_code_table"
      "dec_winstart s3 = dec_winstart s" "dec_tgtlen s3 = dec_tgtlen s" "alloc s3 = alloc s"
      by (subst s3_def, subst s2, simp add: s1_def)+
    have eq: "case_vchead secs s = case_applen s3" by (simp add: 1 a True s3_def)
    show ?thesis
    proof (cases "fst (case_applen s3) = ENOMEM \<and> (\<exists>k. \<not> alloc s3 k)")
      case False
      then obtain m n k a z where r: "case_applen s3 = case_winind (s3\<lparr>total_in := m, next_in := rest, dec_appheadsz := z,
          alloc_cnt := k, dec_appheader := a, dec_hdrsize := n, dec_state := DEC_WININD\<rparr>)" (is "_ = case_winind ?t")
        using case_applen_reads [OF f3 l] by blast
      have "idle ?t \<and> table_ok ?t" using ok by (simp add: s3_def idle_def base_def insts_pending_def table_ok_def)
      then have "ready content ?t"
        using f f3 f3' by (simp add: ready_def dec_inv_def fresh_def src_true_def xd3_rfc3284_code_table_def)
      then show ?thesis using eq r f3' by (intro disjI2 exI [of _ ?t]) simp
    qed (simp add: eq f3')
  qed
qed


text \<open>A decoder at the beginning of a file, or at the beginning of a window, and what it has to read first.\<close>

definition begins :: "uint8 list \<Rightarrow> uint8 list \<Rightarrow> xd3_decoder \<Rightarrow> bool" where
  "begins content pre s \<longleftrightarrow> ready content s \<and> pre = [] \<or>
     fresh content s \<and> (\<exists>app. pre = file_header app \<and> (\<forall>d. app = Some d \<longrightarrow> length d < 2 ^ 63))"

lemma begins_cases:
  assumes "begins content pre s" and "next_in s = pre @ rest"
  shows "fst (xd3_decode_input secs s) = ENOMEM \<and> (\<exists>k. \<not> alloc s k) \<or>
    (\<exists>t. xd3_decode_input secs s = xd3_decode_input secs t \<and> ready content t \<and> next_in t = rest \<and>
      src t = src s \<and> getblk t = getblk s \<and> flags t = flags s \<and> alloc t = alloc s)"
proof (cases "ready content s \<and> pre = []")
  case True
  then show ?thesis using assms(2) by auto
next
  case False
  then obtain app where a: "fresh content s" "pre = file_header app" "\<And>d. app = Some d \<Longrightarrow> length d < 2 ^ 63"
    using assms(1) by (auto simp: begins_def)
  have "enc_state s = ENC_INIT" "dec_state s = DEC_VCHEAD"
    using a(1) by (auto simp: fresh_def dec_inv_def hdr_def idle_def base_def)
  then have s: "xd3_decode_input secs s = case_vchead secs s" by (simp add: xd3_decode_input_def)
  have t: "xd3_decode_input secs t = case_winind t" if "ready content t" for t
    using that ready_idle [OF that] by (simp add: xd3_decode_input_def ready_def)
  have "next_in s = file_header app @ rest" using assms(2) a(2) by simp
  from case_vchead_reads [OF a(1) this a(3), of secs] show ?thesis unfolding s using t by metis
qed

lemma window_calls_nomem:
  assumes "window_calls content secs s ret t" and "fst (xd3_decode_input secs s) = ENOMEM"
  shows "ret = ENOMEM"
  using assms by (induction rule: window_calls.induct) auto

lemma window_calls_same:
  assumes "window_calls content secs s ret t" and "xd3_decode_input secs s = xd3_decode_input secs s'"
  shows "window_calls content secs s' ret t"
  using assms
proof (induction rule: window_calls.induct)
  case (call_first ret t)
  then show ?case by (intro window_calls.call_first) simp
next
  case (call_again ret t u ret' v)
  then show ?case by (intro window_calls.call_again [of content secs s' ret t u ret' v]) simp_all
qed

text \<open>The calls for a window, from its first byte on.\<close>

lemma window_received:
  assumes "begins content pre s" and "next_in s = pre @ window_layout source n cks data inst addr @ rest"
    and "n \<le> XD3_HARDMAXWINSIZE" and "length data + length inst + length addr < 2 ^ 64"
    and "\<And>l off. source = Some (l, off) \<Longrightarrow> unat off + unat l \<le> length content \<and> src s \<noteq> None"
    and "\<And>i. sec_ok (secs i)" and "window_calls content secs s ret t"
  shows "ret \<in> {XD3_GOTHEADER, XD3_WINSTART} \<or> ret = ENOMEM \<and> (\<exists>k. \<not> alloc s k) \<or>
    call_true content (vcdiff_window (segment_of content source) data inst addr) (fits (flags s) n cks)
      (blocked source s) rest ret t"
  using begins_cases [OF assms(1,2), of secs]
proof (elim disjE exE conjE)
  fix k assume "fst (xd3_decode_input secs s) = ENOMEM" "\<not> alloc s k"
  then show ?thesis using window_calls_nomem [OF assms(7)] by blast
next
  fix u assume u: "xd3_decode_input secs s = xd3_decode_input secs u" "ready content u"
    "next_in u = window_layout source n cks data inst addr @ rest" "src u = src s" "getblk u = getblk s" "flags u = flags s" "alloc u = alloc s"
  have "window_calls content secs u ret t" by (rule window_calls_same [OF assms(7) u(1)])
  from window_calls_true [OF this u(2,3) assms(3,4) _ assms(6)] assms(5) show ?thesis
    using u(4,5,6,7) by (simp add: blocked_def) blast
qed

section \<open>Properties\<close>



text \<open>The window of a file that adds a byte and copies the source.\<close>

definition layout_example :: xd3_decoder where
  "layout_example = decoder_zero
     \<lparr>src := Some \<lparr>blksize = 4, max_winsize = 16384, curblkno = 0, onblk = 0, curblk = None, srclen = 0, srcbase = 0,
        shiftby = 2, maskby = 3, cpyoff_blocks = 0, cpyoff_blkoff = 0, getblkno = 0, max_blkno = 0, onlastblk = 0,
        eof_known = False\<rparr>,
      getblk := Some (serve [1, 2, 3, 4]), alloc := (\<lambda>_. True),
      next_in := file_header None @ window_layout (Some (4, 0)) 5 None [9] [2, 20] [0] @ []\<rparr>"

abbreviation first_result :: "xd3_rvalue \<times> xd3_decoder" where
  "first_result \<equiv> xd3_decode_input (\<lambda>_. None) layout_example"

abbreviation second_result :: "xd3_rvalue \<times> xd3_decoder" where
  "second_result \<equiv> xd3_decode_input (\<lambda>_. None) (snd first_result)"

lemma layout_example_begins: "begins [1, 2, 3, 4] (file_header None) layout_example"
proof -
  have f: "next_slot (acache layout_example) = 0" "next_out layout_example = None" "dec_buffer layout_example = None"
    "avail_out layout_example = 0" "space_out layout_example = 0" "flags layout_example = 0" "enc_state layout_example = ENC_INIT"
    "dec_state layout_example = DEC_VCHEAD" "sec_type layout_example = None" "dec_winbytes layout_example = 0"
    "ds_pos (data_sect layout_example) = 0" "ds_pos (inst_sect layout_example) = 0" "ds_pos (addr_sect layout_example) = 0"
    "hi_type (dec_current1 layout_example) = 0" "hi_type (dec_current2 layout_example) = 0" "dec_64part layout_example = 0"
    "dec_magic layout_example = []" "dec_appheader layout_example = None" "dec_winstart layout_example = 0"
    "dec_tgtlen layout_example = 0" "getblk layout_example = Some (serve [1, 2, 3, 4])"
    by (simp_all add: layout_example_def decoder_zero_def stream_zero_def xd3_stream.defs desect_zero_def hinst_zero_def acache_zero_def)
  obtain x where x: "src layout_example = Some x" "blksize x = 4" "shiftby x = 2" "maskby x = 3" "curblk x = None"
    by (simp add: layout_example_def)
  have s: "src_true [1, 2, 3, 4] layout_example" "src_ok layout_example"
    using serve_ok [of "[1, 2, 3, 4]"] by (auto simp: src_true_def src_ok_def x f holds_file_def source_ok_def block_ok_def)
  have "win_ok layout_example" by (simp add: win_ok_def f out_bytes_def)
  then have "fresh [1, 2, 3, 4] layout_example"
    using s by (simp add: fresh_def dec_inv_def hdr_def idle_def base_def f sec_ok_def insts_pending_def) (simp add: serve_def)
  then show ?thesis by (auto simp: begins_def)
qed


end
