(* ===== verification/Xd3_Roundtrip.thy ===== *)
theory Xd3_Roundtrip
  imports Xd3_Search_Loop Xd3_Decode_Header
begin

text \<open>
  From the encoder to the decoder: the header that the encoder writes, the pages it hands out, and the decoder that is
  given their bytes.
\<close>

section \<open>The header of a window\<close>

text \<open>A sequence of emissions into the header section.\<close>

definition emits_hdr :: "uint8 list \<Rightarrow> (xd3_encoder \<Rightarrow> xd3_rvalue \<times> xd3_encoder) \<Rightarrow> bool" where
  "emits_hdr bs f \<longleftrightarrow> (\<forall>s. sinks_ok s \<longrightarrow> grown HDR bs s (f s))"

lemma emits_hdr_basic:
  "emits_hdr [b] (hdr_byte b)" "emits_hdr (xd3_emit_size_bytes n) (hdr_size n)" "emits_hdr bs (hdr_bytes bs)"
  "emits_hdr (xd3_emit_size_bytes n) (hdr_offset n)"
  unfolding emits_hdr_def hdr_byte_def hdr_size_def hdr_offset_def hdr_bytes_def xd3_emit_offset_def
  by (auto simp: xd3_emit_size_bytes_def [symmetric] intro: grown_byte grown_size grown_bytes)

lemma emit_all_grown:
  "list_all2 emits_hdr bss fs \<Longrightarrow> sinks_ok s \<Longrightarrow> grown HDR (concat bss) s (emit_all fs s)"
proof (induction bss fs arbitrary: s rule: list_all2_induct)
  case Nil
  then show ?case by (simp add: grown_none)
next
  case (Cons bs bss f fs)
  show ?case unfolding emit_all.simps concat.simps
    by (rule grown_try) (use Cons in \<open>auto simp: emits_hdr_def\<close>)
qed

text \<open>The fields that the header carries.\<close>

definition enc_source :: "xd3_encoder \<Rightarrow> (usize_t \<times> xoff_t) option" where
  "enc_source s = (if xd3_encoder_used_source s then map_option (\<lambda>x. (srclen x, srcbase x)) (src s) else None)"

definition enc_cks :: "xd3_encoder \<Rightarrow> uint32 option" where
  "enc_cks s = (if use_adler32 s
     then Some (if flags s AND XD3_ADLER32 \<noteq> 0 then adler32 1 (next_in s) else recode_adler32 s) else None)"

lemma checksum_bytes_eq: "use_adler32 s \<Longrightarrow> checksum_bytes s = be32 (the (enc_cks s))"
  by (simp add: checksum_bytes_def be32_def enc_cks_def Let_def)

lemma window_indicator_eq: "ucast (window_indicator s) = window_ind (enc_source s) (enc_cks s)"
proof -
  have "xd3_encoder_used_source s \<longleftrightarrow> enc_source s \<noteq> None"
    by (simp add: enc_source_def xd3_encoder_used_source_def split: option.splits)
  moreover have "use_adler32 s \<longleftrightarrow> enc_cks s \<noteq> None" by (simp add: enc_cks_def)
  ultimately show ?thesis
    by (cases "enc_source s"; cases "enc_cks s") (simp_all add: window_indicator_def window_ind_def)
qed

definition window_fields :: "(usize_t \<times> xoff_t) option \<Rightarrow> usize_t \<Rightarrow> uint32 option \<Rightarrow>
    uint8 list \<Rightarrow> uint8 list \<Rightarrow> uint8 list \<Rightarrow> uint8 list" where
  "window_fields source n cks data inst addr =
     window_ind source cks #
     (case source of None \<Rightarrow> [] | Some (l, off) \<Rightarrow> xd3_emit_size_bytes l @ xd3_emit_size_bytes off) @
     xd3_emit_size_bytes (of_nat (length (delta_encoding n cks data inst addr))) @
     xd3_emit_size_bytes n @ [0] @
     xd3_emit_size_bytes (of_nat (length data)) @ xd3_emit_size_bytes (of_nat (length inst)) @
     xd3_emit_size_bytes (of_nat (length addr)) @ (case cks of None \<Rightarrow> [] | Some c \<Rightarrow> be32 c)"

lemma window_fields_layout: "window_fields source n cks data inst addr @ data @ inst @ addr = window_layout source n cks data inst addr"
  by (simp add: window_fields_def window_layout_def delta_encoding_def)

lemma window_enc_len_eq:
  "window_enc_len s = of_nat (length (delta_encoding (avail_in s) (enc_cks s) (sect_bytes DATA s) (sect_bytes INST s) (sect_bytes ADDR s)))"
  by (simp add: enclen_value window_enc_len_def sizeof_output_eq sect_bytes_def Let_def enc_cks_def)

lemma emit_window_header_grown:
  assumes "sinks_ok s"
  shows "grown HDR (window_fields (enc_source s) (avail_in s) (enc_cks s) (sect_bytes DATA s) (sect_bytes INST s) (sect_bytes ADDR s))
    s (emit_window_header 0 s)"
proof -
  let ?src = "case enc_source s of None \<Rightarrow> [] | Some (l, off) \<Rightarrow> [xd3_emit_size_bytes l, xd3_emit_size_bytes off]"
  let ?bss = "[[window_ind (enc_source s) (enc_cks s)]] @ ?src @
     [xd3_emit_size_bytes (window_enc_len s), xd3_emit_size_bytes (avail_in s), [0],
      xd3_emit_size_bytes (of_nat (length (sect_bytes DATA s))), xd3_emit_size_bytes (of_nat (length (sect_bytes INST s))),
      xd3_emit_size_bytes (of_nat (length (sect_bytes ADDR s)))] @ (case enc_cks s of None \<Rightarrow> [] | Some c \<Rightarrow> [be32 c])"
  have src: "list_all2 emits_hdr ?src (source_fields s)"
    by (auto simp: source_fields_def enc_source_def xd3_encoder_used_source_def emits_hdr_basic split: option.splits)
  have cks: "list_all2 emits_hdr (case enc_cks s of None \<Rightarrow> [] | Some c \<Rightarrow> [be32 c])
      (if use_adler32 s then [hdr_bytes (checksum_bytes s)] else [])"
    by (simp add: checksum_bytes_eq enc_cks_def emits_hdr_basic)
  have "grown HDR (concat ?bss) s (emit_window_header 0 s)"
    unfolding emit_window_header_def
    by (rule emit_all_grown [OF _ assms], intro list_all2_appendI src cks)
      (simp_all add: emits_hdr_basic window_indicator_eq sizeof_output_eq sect_bytes_def)
  moreover have "concat ?bss = window_fields (enc_source s) (avail_in s) (enc_cks s) (sect_bytes DATA s) (sect_bytes INST s) (sect_bytes ADDR s)"
    by (simp add: window_fields_def window_enc_len_eq split: option.splits)
  ultimately show ?thesis by simp
qed

text \<open>The file header comes before the first window.\<close>

definition enc_file_header :: "xd3_encoder \<Rightarrow> uint8 list" where
  "enc_file_header s = (if current_window s = 0 then file_header (enc_appheader s) else [])"

lemma emit_file_header_grown:
  assumes "sinks_ok s" and "sec_type s = None"
  shows "grown HDR (enc_file_header s) s (emit_file_header s)"
proof (cases "current_window s = 0")
  case True
  let ?bss = "[[0xd6], [0xc3], [0xc4], [0], [case enc_appheader s of None \<Rightarrow> 0 | Some _ \<Rightarrow> 4]] @
    (case enc_appheader s of None \<Rightarrow> [] | Some d \<Rightarrow> [xd3_emit_size_bytes (of_nat (length d)), d])"
  let ?fs = "[hdr_byte 0xd6, hdr_byte 0xc3, hdr_byte 0xc4, hdr_byte 0, hdr_byte (case enc_appheader s of None \<Rightarrow> 0 | Some _ \<Rightarrow> 4)] @
     (case enc_appheader s of None \<Rightarrow> [] | Some d \<Rightarrow> [hdr_size (of_nat (length d)), hdr_bytes d])"
  have e: "emit_file_header s = emit_all ?fs s"
    using True assms(2)
    by (simp add: emit_file_header_def Let_def del: emit_all.simps split: option.splits)
  have l: "list_all2 emits_hdr ?bss ?fs" by (simp add: emits_hdr_basic split: option.splits)
  have "grown HDR (concat ?bss) s (emit_file_header s)" unfolding e by (rule emit_all_grown [OF l assms(1)])
  then show ?thesis using True by (simp add: enc_file_header_def file_header_def app_bytes_def split: option.splits)
next
  case False
  then show ?thesis using assms(1) by (simp add: enc_file_header_def emit_file_header_def grown_none)
qed


text \<open>What is written for a window, from the sections to the bytes of the file.\<close>

definition enc_layout :: "xd3_encoder \<Rightarrow> uint8 list" where
  "enc_layout s = window_layout (enc_source s) (avail_in s) (enc_cks s) (sect_bytes DATA s) (sect_bytes INST s) (sect_bytes ADDR s)"

definition all_bytes :: "xd3_encoder \<Rightarrow> uint8 list" where
  "all_bytes s = sect_bytes HDR s @ sect_bytes DATA s @ sect_bytes INST s @ sect_bytes ADDR s"

lemma grown_hdr_same:
  assumes "grown HDR bs s (XD3_OK, t)"
  shows "enc_source t = enc_source s" "avail_in t = avail_in s" "enc_cks t = enc_cks s" "sec_type t = sec_type s"
    "j \<noteq> HDR \<Longrightarrow> sect_bytes j t = sect_bytes j s" "sect_bytes HDR t = sect_bytes HDR s @ bs" "sinks_ok t"
proof -
  have o: "out_only s t" using assms by (simp add: grown_def)
  note f = out_only_fields [OF o]
  show "enc_source t = enc_source s" "avail_in t = avail_in s" "enc_cks t = enc_cks s" "sec_type t = sec_type s"
    by (simp_all add: enc_source_def xd3_encoder_used_source_def avail_in_def enc_cks_def use_adler32_def f)
  show "j \<noteq> HDR \<Longrightarrow> sect_bytes j t = sect_bytes j s" "sect_bytes HDR t = sect_bytes HDR s @ bs" "sinks_ok t"
    using assms by (simp_all add: grown_def)
qed

lemma emit_hdr_layout:
  assumes "sinks_ok s" and "sec_type s = None" and "sect_bytes HDR s = []" and "xd3_emit_hdr s = (ret, t)"
  shows "ret_ok (alloc s) ret \<and> (ret = XD3_OK \<longrightarrow> sinks_ok t \<and> out_only s t \<and> all_bytes t = enc_file_header s @ enc_layout s)"
proof -
  obtain r1 s1 where e1: "emit_file_header s = (r1, s1)" by fastforce
  have g1: "grown HDR (enc_file_header s) s (r1, s1)" using emit_file_header_grown [OF assms(1,2)] by (simp add: e1)
  show ?thesis
  proof (cases "r1 = XD3_OK")
    case False
    then show ?thesis using assms(4) g1 by (auto simp: xd3_emit_hdr_def e1 xd3_try_fail grown_def)
  next
    case True
    note f1 = grown_hdr_same [OF g1 [unfolded True]]
    have g2: "grown HDR (window_fields (enc_source s1) (avail_in s1) (enc_cks s1) (sect_bytes DATA s1) (sect_bytes INST s1)
        (sect_bytes ADDR s1)) s1 (ret, t)"
      using emit_window_header_grown [OF f1(7)] assms(2,4) f1(4)
      by (simp add: xd3_emit_hdr_def e1 True emit_secondary_def)
    have o: "out_only s s1" "alloc s1 = alloc s" using g1 out_only_fields(15) [of s s1] by (simp_all add: grown_def)
    have "all_bytes t = enc_file_header s @ enc_layout s" if "ret = XD3_OK"
    proof -
      note f2 = grown_hdr_same [OF g2 [unfolded that]]
      show ?thesis
        by (simp add: all_bytes_def f2 f1 assms(3) enc_layout_def window_fields_layout [symmetric])
    qed
    then show ?thesis using g2 o out_only_trans [of s s1 t] by (auto simp: grown_def)
  qed
qed

section \<open>Handing out the pages\<close>

text \<open>The application takes each page and calls again, until the window is finished.\<close>

inductive handed :: "xd3_rvalue \<times> xd3_encoder \<Rightarrow> uint8 list list \<Rightarrow> xd3_encoder \<Rightarrow> bool" where
  handed_end: "handed (XD3_WINFINISH, t) [] t"
| handed_page: "handed (xd3_encode_input (s\<lparr>avail_out := 0\<rparr>)) ps t \<Longrightarrow>
    handed (XD3_OUTPUT, s) (out_base (hd (enc_current s)) # ps) t"

lemma enc_output_handed:
  assumes "list_all (\<lambda>p. length (out_base p) < 2 ^ 64) pages" and "dec_state s = DEC_VCHEAD"
  shows "\<exists>ps t. handed (enc_output pages s) ps t \<and> concat ps = concat (map out_base pages) \<and> [] \<notin> set ps \<and>
    enc_state t = ENC_POSTWIN \<and> enc_chain t = enc_chain s \<and> next_in t = next_in s"
  using assms
proof (induction pages arbitrary: s)
  case Nil
  then show ?case by (auto intro!: exI [of _ "[]"] handed_end)
next
  case (Cons p pages)
  define n where "n = (of_nat (length (out_base p)) :: usize_t)"
  define s1 where "s1 = s\<lparr>avail_out := n, total_out := total_out s + ucast n, enc_state := ENC_POSTOUT, enc_current := p # pages\<rparr>"
  have n: "n > 0 \<longleftrightarrow> out_base p \<noteq> []"
    using Cons(2) by (simp add: n_def word_less_nat_alt unat_of_nat_64)
  show ?case
  proof (cases "out_base p = []")
    case True
    then obtain ps t where "handed (enc_output pages s1) ps t \<and> concat ps = concat (map out_base pages) \<and> [] \<notin> set ps \<and>
        enc_state t = ENC_POSTWIN \<and> enc_chain t = enc_chain s1 \<and> next_in t = next_in s1"
      using Cons.IH [of s1] Cons.prems by (auto simp: s1_def)
    then show ?thesis using True n by (auto simp: s1_def n_def Let_def)
  next
    case False
    define s2 where "s2 = s1\<lparr>avail_out := 0\<rparr>"
    obtain ps t where h: "handed (enc_output pages s2) ps t" "concat ps = concat (map out_base pages)" "[] \<notin> set ps"
        "enc_state t = ENC_POSTWIN" "enc_chain t = enc_chain s2" "next_in t = next_in s2"
      using Cons.IH [of s2] Cons.prems by (auto simp: s2_def s1_def)
    have "xd3_encode_input s2 = enc_output pages s2"
      using Cons.prems by (simp add: xd3_encode_input_def enc_postout_def s2_def s1_def)
    then have "handed (XD3_OUTPUT, s1) (out_base (hd (enc_current s1)) # ps) t"
      using h(1) by (intro handed_page) (simp add: s2_def)
    moreover have "enc_output (p # pages) s = (XD3_OUTPUT, s1)" using False n by (simp add: s1_def n_def Let_def)
    ultimately show ?thesis using h False by (intro exI [of _ "out_base p # ps"] exI [of _ t]) (simp add: s1_def s2_def)
  qed
qed

lemma enc_emit_handed:
  assumes "sinks_ok s" and "sec_type s = None" and "sect_bytes HDR s = []" and "dec_state s = DEC_VCHEAD"
    and "enc_emit s = (ret, t)"
  shows "ret = ENOMEM \<and> (\<exists>n. \<not> alloc s n) \<or>
    (\<exists>ps u. handed (ret, t) ps u \<and> concat ps = enc_file_header s @ enc_layout s \<and> [] \<notin> set ps \<and>
      enc_state u = ENC_POSTWIN \<and> next_in u = next_in s)"
proof -
  obtain r1 s1 where e: "xd3_emit_hdr s = (r1, s1)" by fastforce
  note g = emit_hdr_layout [OF assms(1-3) e]
  show ?thesis
  proof (cases "r1 = XD3_OK")
    case False
    then show ?thesis using g assms(5) by (auto simp: enc_emit_def e xd3_try_fail ret_ok_def)
  next
    case True
    then have s1: "sinks_ok s1" "out_only s s1" "all_bytes s1 = enc_file_header s @ enc_layout s" using g by simp_all
    note f = out_only_fields [OF s1(2)]
    define pages where "pages = enc_chain s1 HDR @ enc_chain s1 DATA @ enc_chain s1 INST @ enc_chain s1 ADDR"
    define s2 where "s2 = s1\<lparr>enc_chain := (\<lambda>_. [])(HDR := pages)\<rparr>"
    have ne: "pages \<noteq> []" using s1(1) by (auto simp: sinks_ok_def chain_ok_def pages_def)
    have b: "length (out_base p) < 2 ^ 64" if "length (out_base p) \<le> unat (out_avail p)" for p
      using that unat_bound_64 [of "out_avail p"] by linarith
    have "list_all (\<lambda>p. length (out_base p) < 2 ^ 64) pages"
      using s1(1) b by (auto simp: sinks_ok_def chain_ok_def pages_def list_all_iff)
    moreover have "dec_state s2 = DEC_VCHEAD" using assms(4) f by (simp add: s2_def)
    ultimately obtain ps u where h: "handed (enc_output pages s2) ps u" "concat ps = concat (map out_base pages)" "[] \<notin> set ps"
        "enc_state u = ENC_POSTWIN" "next_in u = next_in s2"
      using enc_output_handed by blast
    have "enc_emit s = enc_output pages s2"
      unfolding enc_emit_def e True xd3_try_OK Let_def pages_def [symmetric] s2_def [symmetric] using ne by simp
    then have "enc_output pages s2 = (ret, t)" using assms(5) by simp
    moreover have "concat (map out_base pages) = all_bytes s1"
      by (simp add: pages_def all_bytes_def sect_bytes_def chain_bytes_def)
    moreover have "next_in s2 = next_in s" using f by (simp add: s2_def)
    ultimately show ?thesis using h s1(3) by metis
  qed
qed

section \<open>The decoder on what was handed out\<close>

definition checksum_true :: "xd3_encoder \<Rightarrow> bool" where
  "checksum_true s \<longleftrightarrow> flags s AND XD3_ADLER32 \<noteq> 0 \<or> flags s AND XD3_ADLER32_RECODE = 0 \<or>
     recode_adler32 s = adler32 1 (next_in s)"

lemma use_adler32_iff: "use_adler32 s \<longleftrightarrow> flags s AND XD3_ADLER32 \<noteq> 0 \<or> flags s AND XD3_ADLER32_RECODE \<noteq> 0"
  unfolding use_adler32_def bit.conj_disj_distrib by (simp only: or_eq_0_iff) blast

lemma fits_own: "checksum_true s \<Longrightarrow> length (next_in s) < 2 ^ 64 \<Longrightarrow> fits fl (avail_in s) (enc_cks s) (next_in s)"
  by (auto simp: fits_def checksum_true_def enc_cks_def use_adler32_iff avail_in_def unat_of_nat_64 split: if_splits)

lemma written_source:
  assumes "window_written content u"
  shows "vcdiff_window (segment_of content (enc_source u)) (sect_bytes DATA u) (sect_bytes INST u) (sect_bytes ADDR u) = Some (next_in u)"
    and "enc_source u = Some (l, off) \<Longrightarrow> unat off + unat l \<le> length content \<and> l \<noteq> 0"
proof -
  obtain a n where an: "a + n \<le> length content"
    "case src u of None \<Rightarrow> n = 0 | Some x \<Rightarrow> unat (srclen x) = n \<and> (n \<noteq> 0 \<longrightarrow> unat (srcbase x) = a)"
    "vcdiff_window (take n (drop a content)) (sect_bytes DATA u) (sect_bytes INST u) (sect_bytes ADDR u) = Some (next_in u)"
    using assms by (auto simp: window_written_def)
  have "segment_of content (enc_source u) = take n (drop a content)"
    using an(2) by (auto simp: segment_of_def enc_source_def xd3_encoder_used_source_def word_less_nat_alt split: option.splits)
  then show "vcdiff_window (segment_of content (enc_source u)) (sect_bytes DATA u) (sect_bytes INST u) (sect_bytes ADDR u) = Some (next_in u)"
    using an(3) by simp
  show "enc_source u = Some (l, off) \<Longrightarrow> unat off + unat l \<le> length content \<and> l \<noteq> 0"
    using an(1,2) by (auto simp: enc_source_def xd3_encoder_used_source_def word_less_nat_alt split: option.splits if_splits)
qed

text \<open>A decoder that is given the bytes of a window, and the calls it may make.\<close>

definition given :: "uint8 list \<Rightarrow> uint8 list \<Rightarrow> uint8 list \<Rightarrow> uint8 list \<Rightarrow> xd3_decoder \<Rightarrow> bool" where
  "given content pre bytes rest d \<longleftrightarrow> begins content pre d \<and> next_in d = bytes @ rest \<and> (content = [] \<or> src d \<noteq> None)"

text \<open>What the decoder may do with the window \<open>bs\<close>: hand it out, or stop for a cause of its own.\<close>

definition recovers :: "uint8 list \<Rightarrow> uint8 list \<Rightarrow> xd3_decoder \<Rightarrow> xd3_rvalue \<Rightarrow> xd3_decoder \<Rightarrow> bool" where
  "recovers bs rest d r v \<longleftrightarrow>
     (if r = XD3_OUTPUT then out_bytes v = Some bs \<and> next_in v = rest
      else r \<in> {XD3_GOTHEADER, XD3_WINSTART} \<or> r = ENOMEM \<and> (\<exists>k. \<not> alloc d k) \<or>
        r \<notin> {XD3_OK, XD3_INVALID_INPUT, C_UNDEFINED, C_DIVERGES} \<and>
        (case getblk d of None \<Rightarrow> True | Some f \<Rightarrow> \<exists>x n. fst (f x n) \<noteq> XD3_OK))"

lemma layout_recovered:
  assumes "window_written content u" and "checksum_true u" and "length (next_in u) \<le> 2 ^ 26"
    and "length (enc_layout u) < 2 ^ 64" and "given content pre (pre @ enc_layout u) rest d"
    and "\<And>i. sec_ok (secs i)" and "window_calls content secs d r v"
  shows "recovers (next_in u) rest d r v"
proof -
  let ?n = "avail_in u"
  have n: "unat ?n = length (next_in u)" using assms(3) by (simp add: avail_in_def unat_of_nat_64)
  then have le: "?n \<le> XD3_HARDMAXWINSIZE" using assms(3) by (simp add: word_le_nat_alt)
  have sum: "length (sect_bytes DATA u) + length (sect_bytes INST u) + length (sect_bytes ADDR u) < 2 ^ 64"
    using assms(4) by (simp add: enc_layout_def window_layout_def delta_encoding_def)
  have src: "unat off + unat l \<le> length content \<and> src d \<noteq> None" if "enc_source u = Some (l, off)" for l off
    using written_source(2) [OF assms(1) that] assms(5) by (auto simp: given_def word_neq_0_conv word_less_nat_alt)
  have nx: "next_in d = pre @ window_layout (enc_source u) ?n (enc_cks u) (sect_bytes DATA u) (sect_bytes INST u) (sect_bytes ADDR u) @ rest"
    using assms(5) by (simp add: given_def enc_layout_def)
  have b: "begins content pre d" using assms(5) by (simp add: given_def)
  have f: "fits (flags d) ?n (enc_cks u) (next_in u)" using assms(2,3) by (intro fits_own) simp_all
  have bl: "blocked (enc_source u) d \<Longrightarrow> (case getblk d of None \<Rightarrow> True | Some f \<Rightarrow> \<exists>x n. fst (f x n) \<noteq> XD3_OK)"
    by (simp add: blocked_def)
  from window_received [OF b nx le sum src assms(6,7)] show ?thesis
    using f bl by (auto simp: written_source(1) [OF assms(1)] recovers_def call_true_def)
qed

section \<open>From the search to the decoder\<close>

text \<open>The encoder's calls for a window: when the source cannot be read, the application supplies a block and calls again.\<close>

definition source_given :: "uint8 list \<Rightarrow> xd3_encoder \<Rightarrow> xd3_encoder \<Rightarrow> bool" where
  "source_given content s t \<longleftrightarrow> t = s \<or>
     (\<exists>x y. src s = Some x \<and> t = s\<lparr>src := Some y\<rparr> \<and> same_source x y \<and> holds_file content y)"

inductive search_calls :: "uint8 list \<Rightarrow> xd3_encoder \<Rightarrow> xd3_rvalue \<Rightarrow> xd3_encoder \<Rightarrow> bool" for content s where
  search_first: "xd3_encode_input s = (ret, t) \<Longrightarrow> search_calls content s ret t"
| search_again: "search_calls content s XD3_GETSRCBLK t \<Longrightarrow> source_given content t u \<Longrightarrow>
    xd3_encode_input u = (ret, v) \<Longrightarrow> search_calls content s ret v"

definition at_search :: "uint8 list \<Rightarrow> xd3_encoder \<Rightarrow> bool" where
  "at_search content s \<longleftrightarrow> window_search content s \<and> sections_start s \<and> sect_bytes HDR s = [] \<and> sec_type s = None \<and>
     dec_state s = DEC_VCHEAD \<and> enc_state s = ENC_SEARCH"

lemma source_given_search:
  assumes "at_search content s" and "source_given content s t"
  shows "at_search content t \<and> hdr_info t = hdr_info s \<and> session_info t = session_info s \<and> next_in t = next_in s"
proof (cases "t = s")
  case False
  then obtain x y where t: "src s = Some x" "t = s\<lparr>src := Some y\<rparr>" "same_source x y" "holds_file content y"
    using assms(2) by (auto simp: source_given_def)
  have "srclen y = 0" using assms(1) t(1,3) by (simp add: at_search_def window_search_def searching_def same_source_def)
  then have "window_search content t"
    using assms(1) t by (simp add: at_search_def window_search_def searching_def found_ok_def src_true_def avail_in_def
        match_progress_def Let_def look_ok_def tables_ok_def used_before_def settled_def DO_SMALL_def)
  then show ?thesis
    using assms(1) t by (simp add: at_search_def sections_start_def sinks_ok_def free_ok_def sect_bytes_def info_defs)
qed (use assms in simp)

lemma search_call:
  assumes "at_search content s" and "xd3_encode_input s = (ret, t)"
  shows "(\<exists>u. enc_emit u = (ret, t) \<and> window_written content u \<and> next_in u = next_in s \<and> left_over content s u) \<or>
    ret = ENOMEM \<and> (src s = None \<longrightarrow> (\<exists>n. \<not> alloc s n)) \<or>
    ret \<noteq> XD3_OK \<and> src s \<noteq> None \<and> at_search content t \<and> hdr_info t = hdr_info s \<and> session_info t = session_info s \<and>
      next_in t = next_in s"
proof -
  have s: "window_search content s" "sections_start s" "enc_search s = (ret, t)" "sect_bytes HDR s = []" "sec_type s = None"
    "enc_state s = ENC_SEARCH" "dec_state s = DEC_VCHEAD"
    using assms by (simp_all add: at_search_def xd3_encode_input_def)
  from search_writes [OF s(1-3)] show ?thesis
    using s(4-7) by (auto simp: at_search_def hdr_info_def)
qed


text \<open>What the calls for a window come to: the pages, or a lack of memory, or a search that can be continued.\<close>

definition window_handed :: "uint8 list \<Rightarrow> xd3_encoder \<Rightarrow> xd3_rvalue \<Rightarrow> xd3_encoder \<Rightarrow> bool" where
  "window_handed content s ret t \<longleftrightarrow>
     (\<exists>ps u v. handed (ret, t) ps u \<and> enc_state u = ENC_POSTWIN \<and> [] \<notin> set ps \<and>
        concat ps = enc_file_header s @ enc_layout v \<and> window_written content v \<and> next_in v = next_in s \<and> left_over content s v)"

definition search_result :: "uint8 list \<Rightarrow> xd3_encoder \<Rightarrow> xd3_rvalue \<Rightarrow> xd3_encoder \<Rightarrow> bool" where
  "search_result content s ret t \<longleftrightarrow> window_handed content s ret t \<or> ret = ENOMEM \<and> (src s = None \<longrightarrow> (\<exists>n. \<not> alloc s n)) \<or>
    ret \<noteq> XD3_OK \<and> src s \<noteq> None \<and> at_search content t \<and> hdr_info t = hdr_info s \<and> session_info t = session_info s \<and>
      next_in t = next_in s"

lemma search_call_result:
  assumes "at_search content s" and "xd3_encode_input s = (ret, t)"
  shows "search_result content s ret t"
  using search_call [OF assms]
proof (elim disjE exE conjE)
  fix u assume u: "enc_emit u = (ret, t)" "window_written content u" "next_in u = next_in s" "left_over content s u"
  have h: "sinks_ok u" "sec_type u = None" "sect_bytes HDR u = []" "dec_state u = DEC_VCHEAD" "alloc u = alloc s"
    "enc_file_header u = enc_file_header s"
    using assms(1) u(4) by (simp_all add: at_search_def left_over_def hdr_info_def enc_file_header_def)
  from enc_emit_handed [OF h(1-4) u(1)] show ?thesis
  proof (elim disjE exE conjE)
    fix ps w assume "handed (ret, t) ps w" "concat ps = enc_file_header u @ enc_layout u" "[] \<notin> set ps"
      "enc_state w = ENC_POSTWIN"
    then have "window_handed content s ret t" unfolding window_handed_def
      using u(2-4) h(6) by (intro exI [of _ ps] exI [of _ w] exI [of _ u]) simp
    then show ?thesis by (simp add: search_result_def)
  qed (auto simp: search_result_def h)
qed (auto simp: search_result_def)

lemma search_result_trans:
  assumes "search_result content u ret t" and "hdr_info u = hdr_info s" and "session_info u = session_info s" and "next_in u = next_in s"
  shows "search_result content s ret t"
proof -
  have a: "alloc u = alloc s" "(src u = None) = (src s = None)" "enc_file_header u = enc_file_header s"
    using assms(2) by (simp_all add: hdr_info_def enc_file_header_def)
  have "left_over content u = left_over content s" by (rule ext) (simp add: left_over_def assms)
  then show ?thesis
    using assms(1) by (simp add: search_result_def window_handed_def a assms(2-4))
qed

lemma search_calls_result:
  assumes "search_calls content s ret t" and "at_search content s"
  shows "search_result content s ret t"
  using assms(1)
proof (induction rule: search_calls.induct)
  case (search_first ret t)
  then show ?case by (rule search_call_result [OF assms(2)])
next
  case (search_again t u ret v)
  have "\<not> window_handed content s XD3_GETSRCBLK t" by (auto simp: window_handed_def elim: handed.cases)
  then have t: "at_search content t" "hdr_info t = hdr_info s" "session_info t = session_info s" "next_in t = next_in s"
    using search_again(4) by (auto simp: search_result_def)
  note u = source_given_search [OF t(1) search_again(2)]
  show ?case by (rule search_result_trans [OF search_call_result [of content u]]) (use u t search_again(3) in simp_all)
qed

text \<open>One window, from the search of the encoder to the output of the decoder.\<close>

lemma handed_recovered:
  assumes "window_handed content s ret t" and "checksum_true s" and "length (next_in s) \<le> 2 ^ 26"
  shows "\<exists>ps u. handed (ret, t) ps u \<and> enc_state u = ENC_POSTWIN \<and> [] \<notin> set ps \<and>
    (length (concat ps) < 2 ^ 64 \<longrightarrow> (\<forall>secs rest d r v. (\<forall>i. sec_ok (secs i)) \<longrightarrow>
       given content (enc_file_header s) (concat ps) rest d \<longrightarrow> window_calls content secs d r v \<longrightarrow>
       recovers (next_in s) rest d r v))"
proof -
  obtain ps u v where h: "handed (ret, t) ps u" "enc_state u = ENC_POSTWIN" "[] \<notin> set ps"
    "concat ps = enc_file_header s @ enc_layout v" "window_written content v" "next_in v = next_in s" "left_over content s v"
    using assms(1) by (auto simp: window_handed_def)
  have c: "checksum_true v" using h(6,7) assms(2) by (simp add: left_over_def hdr_info_def checksum_true_def)
  have "recovers (next_in s) rest d r w"
    if "length (concat ps) < 2 ^ 64" "\<forall>i. sec_ok (secs i)" "given content (enc_file_header s) (concat ps) rest d"
      "window_calls content secs d r w" for secs rest d r w
    using layout_recovered [OF h(5) c, of "enc_file_header s" rest d secs r w] that h(4,6) assms(3) by simp
  then show ?thesis using h by blast
qed

section \<open>Properties\<close>


lemma search_example_ready: "at_search [] (search_example None)" "alloc (search_example None) n" "checksum_true (search_example None)"
  "enc_file_header (search_example None) = file_header None"
proof -
  have "window_search [] (search_example None)"
    by (rule search_example_search) (simp_all add: src_true_def search_example_eval)
  then show "at_search [] (search_example None)"
    using search_example_sections [of None]
    by (simp add: at_search_def) (simp add: search_example_def window_example_eval sect_bytes_def chain_bytes_def)
  show "alloc (search_example None) n" "checksum_true (search_example None)" "enc_file_header (search_example None) = file_header None"
    by (simp_all add: search_example_def window_example_eval checksum_true_def enc_file_header_def)
qed

text \<open>A decoder for the pages of the example, without a source.\<close>

definition reader_example :: "uint8 list \<Rightarrow> xd3_decoder" where
  "reader_example bs = decoder_zero\<lparr>alloc := \<lambda>_. True, next_in := bs\<rparr>"

lemma reader_example_begins: "begins [] (file_header None) (reader_example bs)"
proof -
  note f = reader_example_def decoder_zero_def stream_zero_def xd3_stream.defs desect_zero_def hinst_zero_def acache_zero_def
  have "src_true [] (reader_example bs)" "src_ok (reader_example bs)" "win_ok (reader_example bs)"
    by (simp_all add: f src_true_def src_ok_def win_ok_def out_bytes_def)
  then have "fresh [] (reader_example bs)"
    by (simp add: fresh_def dec_inv_def f hdr_def idle_def base_def sec_ok_def insts_pending_def)
  then show ?thesis by (auto simp: begins_def)
qed




end
